(* ===== verification/Prelude.thy ===== *)
theory Prelude
  imports Main "HOL-Library.Word"
begin

text \<open>
  Shared vocabulary of the development: C characters and strings, byte buffers with
  explicit out-of-bounds faults, the outcome type of a C call that may abort, the abstract
  floating point arithmetic the parsers and printers are parameterised by, decimal
  printing, and the generic facts the component theories use.
\<close>

named_theorems outcome_simps \<open>equations that run an outcome\<close>
named_theorems safe_rules \<open>rules that push \<open>safe\<close> through a program\<close>
named_theorems char_defs \<open>definitions of the character classes\<close>

section \<open>Outcomes of a C call\<close>

text \<open>
  A call either returns or is cut short: by \<^verbatim>\<open>SOB_PANIC\<close>, which prints a message and exits
  (\<^verbatim>\<open>src/src/panic.c\<close>), or by behaviour the C standard leaves undefined, which the model
  keeps apart by cause: an access outside a buffer, a read of a union member that is not the
  one last written, a signed addition or multiplication that leaves the range of
  \<^verbatim>\<open>int\<close>, a NULL dereference, a use of memory that was given back.
\<close>

datatype fault = Panic | Out_of_bounds | Inactive_member | Signed_overflow | Null_deref | Use_after_free

type_synonym 'a outcome = "fault + 'a"

definition and_then :: "'a outcome \<Rightarrow> ('a \<Rightarrow> 'b outcome) \<Rightarrow> 'b outcome" where
  "and_then m k = (case m of Inl f \<Rightarrow> Inl f | Inr x \<Rightarrow> k x)"

definition sob_panic :: "'a outcome" where
  "sob_panic = Inl Panic"

text \<open>\<open>safe m Q\<close>: the call \<open>m\<close> returns, and what it returns satisfies \<open>Q\<close>.\<close>

definition safe :: "'a outcome \<Rightarrow> ('a \<Rightarrow> bool) \<Rightarrow> bool" where
  "safe m Q = (case m of Inl f \<Rightarrow> False | Inr x \<Rightarrow> Q x)"

text \<open>\<open>allows F m Q\<close>: as \<open>safe\<close>, but the call may also end in a fault of the set \<open>F\<close>.\<close>

definition allows :: "fault set \<Rightarrow> 'a outcome \<Rightarrow> ('a \<Rightarrow> bool) \<Rightarrow> bool" where
  "allows F m Q = (case m of Inl f \<Rightarrow> f \<in> F | Inr x \<Rightarrow> Q x)"

lemma and_then_Inl [simp, outcome_simps]: "and_then (Inl f) k = Inl f"
  by (simp add: and_then_def)

lemma and_then_Inr [simp, outcome_simps]: "and_then (Inr x) k = k x"
  by (simp add: and_then_def)

lemma and_then_eq_Inr: "and_then m k = Inr y \<longleftrightarrow> (\<exists>x. m = Inr x \<and> k x = Inr y)"
  by (cases m) auto

lemma and_then_eq_Inl:
  "and_then m k = Inl f \<longleftrightarrow> m = Inl f \<or> (\<exists>x. m = Inr x \<and> k x = Inl f)"
  by (cases m) auto

lemma and_then_assoc: "and_then (and_then m k) l = and_then m (\<lambda>x. and_then (k x) l)"
  by (cases m) auto

lemma safe_Inr [simp, safe_rules]: "safe (Inr x) Q = Q x"
  by (simp add: safe_def)

lemma safe_Inl [simp, safe_rules]: "safe (Inl f) Q = False"
  by (simp add: safe_def)

lemma safe_and_then [simp, safe_rules]: "safe (and_then m k) Q = safe m (\<lambda>x. safe (k x) Q)"
  by (cases m) auto

lemma safe_iff: "safe m Q \<longleftrightarrow> (\<exists>x. m = Inr x \<and> Q x)"
  by (cases m) auto

lemma safe_mono: "safe m Q \<Longrightarrow> (\<And>x. Q x \<Longrightarrow> R x) \<Longrightarrow> safe m R"
  by (cases m) auto

lemma safeE: "safe m Q \<Longrightarrow> (\<And>x. m = Inr x \<Longrightarrow> Q x \<Longrightarrow> R) \<Longrightarrow> R"
  by (cases m) auto

lemma allows_Inr [simp, safe_rules]: "allows F (Inr x) Q = Q x"
  by (simp add: allows_def)

lemma allows_Inl [simp, safe_rules]: "allows F (Inl f) Q = (f \<in> F)"
  by (simp add: allows_def)

lemma allows_and_then [simp, safe_rules]:
  "allows F (and_then m k) Q = allows F m (\<lambda>x. allows F (k x) Q)"
  by (cases m) auto

lemma allows_mono: "allows F m Q \<Longrightarrow> (\<And>x. Q x \<Longrightarrow> R x) \<Longrightarrow> allows F m R"
  by (cases m) auto

lemma safe_allows: "safe m Q \<Longrightarrow> allows F m Q"
  by (cases m) auto

lemma allows_empty: "allows {} m Q = safe m Q"
  by (cases m) auto

section \<open>C characters and strings\<close>

text \<open>
  A C \<^verbatim>\<open>char\<close> is a \<open>char\<close> (a byte); comparisons go through \<open>schar\<close>, the value of
  the byte as the signed 8-bit integer that \<^verbatim>\<open>char\<close> is on the targets of the build. A
  \<^verbatim>\<open>const char *\<close> argument is the list of the bytes before its terminator; an output
  buffer is the list of all its bytes, and \<open>c_str\<close> reads it back as a C string.
\<close>

definition schar :: "char \<Rightarrow> int" where
  "schar ch = (let n = (of_char ch :: int) in if n < 128 then n else n - 256)"

abbreviation NUL :: char where "NUL \<equiv> CHR 0x00"
abbreviation TAB :: char where "TAB \<equiv> CHR 0x09"
abbreviation NL :: char where "NL \<equiv> CHR 0x0A"
abbreviation CR :: char where "CR \<equiv> CHR 0x0D"
abbreviation BS :: char where "BS \<equiv> CHR 0x08"
abbreviation FF :: char where "FF \<equiv> CHR 0x0C"
abbreviation SPC :: char where "SPC \<equiv> CHR 0x20"
abbreviation DQ :: char where "DQ \<equiv> CHR 0x22"
abbreviation BSL :: char where "BSL \<equiv> CHR 0x5C"

definition c_str :: "string \<Rightarrow> string" where
  "c_str b = takeWhile (\<lambda>ch. ch \<noteq> NUL) b"

definition is_digit :: "char \<Rightarrow> bool" where
  [char_defs]: "is_digit ch \<longleftrightarrow> schar (CHR ''0'') \<le> schar ch \<and> schar ch \<le> schar (CHR ''9'')"

definition digit_val :: "char \<Rightarrow> int" where
  "digit_val ch = schar ch - schar (CHR ''0'')"

text \<open>\<^verbatim>\<open>ch <= 31 || ch >= 127\<close>: the control characters, and every byte above ASCII.\<close>

definition is_ctrl :: "char \<Rightarrow> bool" where
  [char_defs]: "is_ctrl ch \<longleftrightarrow> schar ch \<le> 31 \<or> 127 \<le> schar ch"

text \<open>
  \<open>strncmp_eq n a b\<close> is \<^verbatim>\<open>strncmp(a, b, n) == 0\<close>; the end of a list stands for its
  terminator.
\<close>

fun strncmp_eq :: "nat \<Rightarrow> string \<Rightarrow> string \<Rightarrow> bool" where
  "strncmp_eq 0 a b = True"
| "strncmp_eq (Suc n) (x # a) (y # b) = (x = y \<and> (x = NUL \<or> strncmp_eq n a b))"
| "strncmp_eq (Suc n) (x # a) [] = (x = NUL)"
| "strncmp_eq (Suc n) [] (y # b) = (y = NUL)"
| "strncmp_eq (Suc n) [] [] = True"

lemma schar_bounds: "-128 \<le> schar ch" "schar ch \<le> 127"
proof -
  have "(of_char ch :: int) < 256" "0 \<le> (of_char ch :: int)"
    by (cases ch; simp add: of_char_def split: bool.splits)+
  then show "-128 \<le> schar ch" "schar ch \<le> 127"
    by (auto simp: schar_def Let_def)
qed

lemma schar_inj: "schar a = schar b \<longleftrightarrow> a = b"
proof
  have "(of_char a :: int) < 256" "(of_char b :: int) < 256"
    "0 \<le> (of_char a :: int)" "0 \<le> (of_char b :: int)"
    by (cases a; cases b; simp add: of_char_def split: bool.splits)+
  moreover assume "schar a = schar b"
  ultimately have "(of_char a :: int) = of_char b"
    by (simp add: schar_def Let_def split: if_splits)
  then show "a = b" by (simp add: of_char_eq_iff)
qed simp

lemma c_str_Nil [simp]: "c_str [] = []"
  by (simp add: c_str_def)

lemma c_str_no_NUL [simp]: "NUL \<notin> set s \<Longrightarrow> c_str (s @ NUL # t) = s"
  by (induction s) (auto simp: c_str_def)

lemma c_str_take:
  assumes "NUL \<notin> set (take n b)" "n < length b" "b ! n = NUL"
  shows "c_str b = take n b"
proof -
  have "b = take n b @ NUL # drop (Suc n) b"
    using assms(2,3) by (metis id_take_nth_drop)
  then show ?thesis using c_str_no_NUL[OF assms(1)] by metis
qed

lemma strncmp_eq_prefix:
  assumes "NUL \<notin> set a" "NUL \<notin> set b"
  shows "strncmp_eq (length a) a b \<longleftrightarrow> (\<exists>r. b = a @ r)"
  using assms
proof (induction a arbitrary: b)
  case (Cons x a)
  show ?case
    using Cons.prems Cons.IH[of "tl b"] by (cases b) auto
qed auto

lemma digit_not_ctrl: "is_digit ch \<Longrightarrow> \<not> is_ctrl ch"
  by (auto simp: is_digit_def is_ctrl_def schar_def)

lemma digit_val_range: "is_digit ch \<Longrightarrow> 0 \<le> digit_val ch \<and> digit_val ch \<le> 9"
  by (auto simp: is_digit_def digit_val_def schar_def)

section \<open>Byte buffers\<close>

definition poke :: "string \<Rightarrow> nat \<Rightarrow> char \<Rightarrow> string outcome" where
  "poke b i ch = (if i < length b then Inr (b[i := ch]) else Inl Out_of_bounds)"

definition peek :: "string \<Rightarrow> nat \<Rightarrow> char outcome" where
  "peek b i = (if i < length b then Inr (b ! i) else Inl Out_of_bounds)"

text \<open>\<open>overwrite b i s\<close>: the buffer \<open>b\<close> with \<open>s\<close> written over it from position \<open>i\<close>.\<close>

definition overwrite :: "string \<Rightarrow> nat \<Rightarrow> string \<Rightarrow> string" where
  "overwrite b i s = take i b @ s @ drop (i + length s) b"

lemma poke_ok [simp, outcome_simps]: "i < length b \<Longrightarrow> poke b i ch = Inr (b[i := ch])"
  by (simp add: poke_def)

lemma peek_ok [simp, outcome_simps]: "i < length b \<Longrightarrow> peek b i = Inr (b ! i)"
  by (simp add: peek_def)

lemma safe_poke [simp, safe_rules]: "safe (poke b i ch) Q \<longleftrightarrow> i < length b \<and> Q (b[i := ch])"
  by (simp add: poke_def)

lemma overwrite_Nil [simp]: "overwrite b i [] = b"
  by (simp add: overwrite_def)

lemma length_overwrite [simp]: "i + length s \<le> length b \<Longrightarrow> length (overwrite b i s) = length b"
  by (simp add: overwrite_def)

lemma overwrite_single: "i < length b \<Longrightarrow> b[i := ch] = overwrite b i [ch]"
  by (simp add: overwrite_def upd_conv_take_nth_drop)

lemma overwrite_overwrite:
  "i + length s + length t \<le> length b \<Longrightarrow> overwrite (overwrite b i s) (i + length s) t = overwrite b i (s @ t)"
  by (simp add: overwrite_def min_absorb2 min_absorb1 add.commute add.left_commute)

lemma take_overwrite [simp]:
  "i + length s \<le> length b \<Longrightarrow> take (i + length s) (overwrite b i s) = take i b @ s"
  by (simp add: overwrite_def min_absorb2)

lemma take_overwrite_prefix:
  "j \<le> i \<Longrightarrow> i \<le> length b \<Longrightarrow> take j (overwrite b i s) = take j b"
  by (simp add: overwrite_def min_absorb1)

lemma take_Suc_update: "i < length b \<Longrightarrow> take (Suc i) (b[i := ch]) = take i b @ [ch]"
  by (simp add: take_Suc_conv_app_nth)

section \<open>Signed machine integers\<close>

text \<open>
  The result of an \<^verbatim>\<open>int\<close> operation: undefined unless it fits 32 bits. Sizes and
  positions (\<^verbatim>\<open>size_t\<close>) count bytes of objects, whose size is at most
  \<^verbatim>\<open>PTRDIFF_MAX\<close>, so sums of two of them do not wrap and they are \<open>nat\<close>.
\<close>

definition int_min :: int where "int_min = - (2 ^ 31)"
definition int_max :: int where "int_max = 2 ^ 31 - 1"

definition c_int :: "int \<Rightarrow> int outcome" where
  "c_int i = (if int_min \<le> i \<and> i \<le> int_max then Inr i else Inl Signed_overflow)"

lemma c_int_ok [simp]: "int_min \<le> i \<Longrightarrow> i \<le> int_max \<Longrightarrow> c_int i = Inr i"
  by (simp add: c_int_def)

lemma allows_c_int:
  "Signed_overflow \<in> F \<Longrightarrow>
   (int_min \<le> i \<Longrightarrow> i \<le> int_max \<Longrightarrow> Q i) \<Longrightarrow> allows F (c_int i) Q"
  by (simp add: c_int_def)

section \<open>Poll descriptors\<close>

text \<open>The bits of \<^verbatim>\<open>events\<close> and \<^verbatim>\<open>revents\<close> (a \<^verbatim>\<open>short\<close>), as in \<^verbatim>\<open>poll.h\<close> of Linux.\<close>

abbreviation POLLIN :: "16 word" where "POLLIN \<equiv> 1"
abbreviation POLLOUT :: "16 word" where "POLLOUT \<equiv> 4"
abbreviation POLLERR :: "16 word" where "POLLERR \<equiv> 8"
abbreviation POLLHUP :: "16 word" where "POLLHUP \<equiv> 16"
abbreviation POLLNVAL :: "16 word" where "POLLNVAL \<equiv> 32"

record pollfd =
  pfd_fd :: int
  pfd_events :: "16 word"
  pfd_revents :: "16 word"

section \<open>Floating point, as a parameter\<close>

text \<open>
  The values of type \<^verbatim>\<open>double\<close> and their operations are a parameter \<open>D\<close> of the models
  that compute with them: conversion from \<^verbatim>\<open>int\<close>, sum, product, \<^verbatim>\<open>pow(10, n)\<close> and the
  text that \<^verbatim>\<open>"%f"\<close> prints. \<open>exact_ints D\<close> is what IEEE 754 promises of binary64 for the
  integers of magnitude at most \<open>2 ^ 53\<close>: sums and products that stay there are exact, and
  \<^verbatim>\<open>pow(10, 0)\<close> is 1.
\<close>

record 'd double_ops =
  d_of_int :: "int \<Rightarrow> 'd"
  d_add :: "'d \<Rightarrow> 'd \<Rightarrow> 'd"
  d_mul :: "'d \<Rightarrow> 'd \<Rightarrow> 'd"
  d_pow10 :: "int \<Rightarrow> 'd"
  d_fmt_f :: "'d \<Rightarrow> string"

definition exact_ints :: "'d double_ops \<Rightarrow> bool" where
  "exact_ints D \<longleftrightarrow>
     (\<forall>a b. \<bar>a\<bar> \<le> 2 ^ 53 \<longrightarrow> \<bar>b\<bar> \<le> 2 ^ 53 \<longrightarrow> \<bar>a + b\<bar> \<le> 2 ^ 53 \<longrightarrow>
        d_add D (d_of_int D a) (d_of_int D b) = d_of_int D (a + b)) \<and>
     (\<forall>a b. \<bar>a\<bar> \<le> 2 ^ 53 \<longrightarrow> \<bar>b\<bar> \<le> 2 ^ 53 \<longrightarrow> \<bar>a * b\<bar> \<le> 2 ^ 53 \<longrightarrow>
        d_mul D (d_of_int D a) (d_of_int D b) = d_of_int D (a * b)) \<and>
     d_pow10 D 0 = d_of_int D 1"

text \<open>An arithmetic with exact integers, to run the models on concrete input.\<close>

definition int_double :: "int double_ops" where
  "int_double = \<lparr>d_of_int = (\<lambda>i. i), d_add = (+), d_mul = (*),
     d_pow10 = (\<lambda>n. 10 ^ nat n), d_fmt_f = (\<lambda>_. ''0.000000'')\<rparr>"

lemma exact_int_double: "exact_ints int_double"
  by (simp add: exact_ints_def int_double_def)

lemma exact_add:
  "exact_ints D \<Longrightarrow> \<bar>a\<bar> \<le> 2 ^ 53 \<Longrightarrow> \<bar>b\<bar> \<le> 2 ^ 53 \<Longrightarrow> \<bar>a + b\<bar> \<le> 2 ^ 53 \<Longrightarrow>
   d_add D (d_of_int D a) (d_of_int D b) = d_of_int D (a + b)"
  by (simp add: exact_ints_def)

lemma exact_mul:
  "exact_ints D \<Longrightarrow> \<bar>a\<bar> \<le> 2 ^ 53 \<Longrightarrow> \<bar>b\<bar> \<le> 2 ^ 53 \<Longrightarrow> \<bar>a * b\<bar> \<le> 2 ^ 53 \<Longrightarrow>
   d_mul D (d_of_int D a) (d_of_int D b) = d_of_int D (a * b)"
  by (simp add: exact_ints_def)

lemma exact_pow0: "exact_ints D \<Longrightarrow> d_pow10 D 0 = d_of_int D 1"
  by (simp add: exact_ints_def)

section \<open>Decimal printing\<close>

definition digit_char :: "nat \<Rightarrow> char" where
  "digit_char n = ''0123456789'' ! n"

fun nat_digits :: "nat \<Rightarrow> string" where
  "nat_digits n = (if n < 10 then [digit_char n] else nat_digits (n div 10) @ [digit_char (n mod 10)])"

declare nat_digits.simps [simp del]

text \<open>\<^verbatim>\<open>"%li"\<close> and \<^verbatim>\<open>"%lli"\<close>.\<close>

definition fmt_int :: "int \<Rightarrow> string" where
  "fmt_int i = (if i < 0 then CHR ''-'' # nat_digits (nat (- i)) else nat_digits (nat i))"

definition digits_val :: "int \<Rightarrow> string \<Rightarrow> int" where
  "digits_val a s = foldl (\<lambda>a ch. a * 10 + digit_val ch) a s"

lemma digit_char_cases:
  assumes "n < 10"
  shows "is_digit (digit_char n)" "digit_val (digit_char n) = int n"
    "digit_char n = CHR ''0'' \<longleftrightarrow> n = 0"
proof -
  have *: "n = 0 \<or> n = 1 \<or> n = 2 \<or> n = 3 \<or> n = 4 \<or> n = 5 \<or> n = 6 \<or> n = 7 \<or> n = 8 \<or> n = 9"
    using assms by auto
  then show "is_digit (digit_char n)"
    by (elim disjE) (simp_all add: digit_char_def is_digit_def schar_def)
  from * show "digit_val (digit_char n) = int n"
    by (elim disjE) (simp_all add: digit_char_def digit_val_def schar_def)
  from * show "digit_char n = CHR ''0'' \<longleftrightarrow> n = 0"
    by (elim disjE) (simp_all add: digit_char_def)
qed

lemma nat_digits_nonempty [simp]: "nat_digits n \<noteq> []"
  by (subst nat_digits.simps) simp

lemma nat_digits_all_digits: "list_all is_digit (nat_digits n)"
proof (induction n rule: nat_digits.induct)
  case (1 n)
  then show ?case
    by (subst nat_digits.simps) (auto simp: digit_char_cases)
qed

lemma nat_digits_hd: "0 < n \<Longrightarrow> hd (nat_digits n) \<noteq> CHR ''0''"
proof (induction n rule: nat_digits.induct)
  case (1 n)
  then show ?case
    by (subst nat_digits.simps) (auto simp: digit_char_cases hd_append)
qed

lemma digits_val_append: "digits_val a (s @ t) = digits_val (digits_val a s) t"
  by (simp add: digits_val_def)

lemma nat_digits_val: "digits_val 0 (nat_digits n) = int n"
proof (induction n rule: nat_digits.induct)
  case (1 n)
  show ?case
  proof (cases "n < 10")
    case True
    then show ?thesis
      by (subst nat_digits.simps) (simp add: digits_val_def digit_char_cases)
  next
    case False
    have "int (n div 10) * 10 + int (n mod 10) = int n" by presburger
    with 1 False show ?thesis
      by (subst nat_digits.simps)
        (simp add: digits_val_append digits_val_def[of _ "[_]"] digit_char_cases)
  qed
qed

lemma digits_val_ge: "list_all is_digit s \<Longrightarrow> 0 \<le> a \<Longrightarrow> a \<le> digits_val a s"
proof (induction s arbitrary: a)
  case (Cons ch s)
  then have "0 \<le> digit_val ch" using digit_val_range by auto
  with Cons.prems Cons.IH[of "a * 10 + digit_val ch"] show ?case
    by (auto simp: digits_val_def)
qed (simp add: digits_val_def)

lemma nat_digits_length: "n < 10 ^ k \<Longrightarrow> 0 < k \<Longrightarrow> length (nat_digits n) \<le> k"
proof (induction n arbitrary: k rule: nat_digits.induct)
  case (1 n)
  show ?case
  proof (cases "n < 10")
    case True
    with 1 show ?thesis by (subst nat_digits.simps) simp
  next
    case False
    with "1.prems" obtain j where k: "k = Suc j" "0 < j"
      by (cases k; cases "k - 1") auto
    with "1.prems" have "n div 10 < 10 ^ j" by auto
    with "1.IH"[OF False] k False show ?thesis
      by (subst nat_digits.simps) auto
  qed
qed

text \<open>A 64-bit integer prints in at most 20 characters, sign included.\<close>

lemma fmt_int_length: "length (fmt_int (sint (v :: 64 word))) \<le> 20"
proof -
  have "- (2 ^ 63) \<le> sint v" "sint v < 2 ^ 63"
    using sint_range_size[of v] by (auto simp: word_size)
  then have "nat (- sint v) < 10 ^ 19" "nat (sint v) < 10 ^ 19" by auto
  then have "length (nat_digits (nat (- sint v))) \<le> 19" "length (nat_digits (nat (sint v))) \<le> 19"
    by (auto intro: nat_digits_length)
  then show ?thesis by (simp add: fmt_int_def)
qed

section \<open>Output buffers: the interface of both writers\<close>

text \<open>
  Both writers append characters to a caller's buffer and report when it is full. The
  interface: \<open>put c s\<close> is the context after the text \<open>s\<close> was appended, \<open>room c\<close> the
  number of characters that still fit. The provider promises what one \<open>add_ch\<close> does; the
  string loops of the writers follow.
\<close>

locale out_buffer =
  fixes ok full :: 'r
    and inv :: "'c \<Rightarrow> bool"
    and room :: "'c \<Rightarrow> nat"
    and text_of :: "'c \<Rightarrow> string"
    and put :: "'c \<Rightarrow> string \<Rightarrow> 'c"
    and add_ch :: "'c \<Rightarrow> char \<Rightarrow> ('r \<times> 'c) outcome"
    and add_str :: "'c \<Rightarrow> string \<Rightarrow> ('r \<times> 'c) outcome"
  assumes ok_full: "ok \<noteq> full"
    and add_ch_room: "inv c \<Longrightarrow> 0 < room c \<Longrightarrow> add_ch c ch = Inr (ok, put c [ch])"
    and add_ch_full: "inv c \<Longrightarrow> room c = 0 \<Longrightarrow> add_ch c ch = Inr (full, c)"
    and add_str_Nil: "add_str c [] = Inr (ok, c)"
    and add_str_Cons: "add_str c (ch # s) =
      and_then (add_ch c ch) (\<lambda>(r, c'). if r \<noteq> ok then Inr (r, c') else add_str c' s)"
    and put_Nil: "inv c \<Longrightarrow> put c [] = c"
    and put_put: "inv c \<Longrightarrow> length s + length t \<le> room c \<Longrightarrow> put (put c s) t = put c (s @ t)"
    and room_put: "inv c \<Longrightarrow> length s \<le> room c \<Longrightarrow> room (put c s) = room c - length s"
    and inv_put: "inv c \<Longrightarrow> length s \<le> room c \<Longrightarrow> inv (put c s)"
    and text_put: "inv c \<Longrightarrow> length s \<le> room c \<Longrightarrow> text_of (put c s) = text_of c @ s"
begin

lemma add_ch_eq:
  "inv c \<Longrightarrow> add_ch c ch = (if 0 < room c then Inr (ok, put c [ch]) else Inr (full, c))"
  by (simp add: add_ch_room add_ch_full)

lemma add_str_eq:
  "inv c \<Longrightarrow> add_str c s =
     (if length s \<le> room c then Inr (ok, put c s) else Inr (full, put c (take (room c) s)))"
proof (induction s arbitrary: c)
  case Nil
  then show ?case by (simp add: add_str_Nil put_Nil)
next
  case (Cons ch s)
  show ?case
  proof (cases "0 < room c")
    case False
    with Cons.prems show ?thesis
      using ok_full by (simp add: add_str_Cons add_ch_full put_Nil)
  next
    case True
    from True Cons.prems have inv': "inv (put c [ch])" and room': "room (put c [ch]) = room c - 1"
      by (simp_all add: inv_put room_put)
    from True have tk: "take (room c) (ch # s) = ch # take (room c - 1) s"
      by (cases "room c") auto
    have "put (put c [ch]) (take (room c - 1) s) = put c (ch # take (room c - 1) s)"
      using Cons.prems True put_put[of c "[ch]" "take (room c - 1) s"] by auto
    moreover have "length s \<le> room c - 1 \<Longrightarrow> put (put c [ch]) s = put c (ch # s)"
      using Cons.prems True put_put[of c "[ch]" s] by auto
    ultimately show ?thesis
      using Cons.IH[OF inv'] Cons.prems True
      by (auto simp: add_str_Cons add_ch_room room' tk)
  qed
qed

end

section \<open>Character readers: the interface of both parsers\<close>

text \<open>
  Both parsers are fed one character at a time. \<open>feed\<close> runs such a step over a string as
  long as it answers \<open>ok\<close> and collects what \<open>tok\<close> reports after each step; \<open>None\<close> is
  a step that answered anything else.
\<close>

fun feed :: "'r \<Rightarrow> ('c \<Rightarrow> char \<Rightarrow> ('r \<times> 'c) outcome) \<Rightarrow> ('c \<Rightarrow> 't list outcome) \<Rightarrow>
    'c \<Rightarrow> string \<Rightarrow> ('t list \<times> 'c) option outcome" where
  "feed ok step tok c [] = Inr (Some ([], c))"
| "feed ok step tok c (ch # s) =
     and_then (step c ch) (\<lambda>(r, c').
       if r \<noteq> ok then Inr None
       else and_then (tok c') (\<lambda>t.
         and_then (feed ok step tok c' s) (\<lambda>x.
           Inr (case x of None \<Rightarrow> None | Some (ts, c'') \<Rightarrow> Some (t @ ts, c'')))))"

text \<open>\<open>feeds \<dots> c s ts c'\<close>: the reader takes \<open>s\<close> from \<open>c\<close> to \<open>c'\<close> and reports \<open>ts\<close>.\<close>

definition feeds :: "'r \<Rightarrow> ('c \<Rightarrow> char \<Rightarrow> ('r \<times> 'c) outcome) \<Rightarrow> ('c \<Rightarrow> 't list outcome) \<Rightarrow>
    'c \<Rightarrow> string \<Rightarrow> 't list \<Rightarrow> 'c \<Rightarrow> bool" where
  "feeds ok step tok c s ts c' \<longleftrightarrow> feed ok step tok c s = Inr (Some (ts, c'))"

lemma feeds_Nil [simp]: "feeds ok step tok c [] ts c' \<longleftrightarrow> ts = [] \<and> c' = c"
  by (auto simp: feeds_def)

lemma feeds_Cons:
  "step c ch = Inr (ok, c1) \<Longrightarrow> tok c1 = Inr t \<Longrightarrow> feeds ok step tok c1 s ts c' \<Longrightarrow>
   us = t @ ts \<Longrightarrow> feeds ok step tok c (ch # s) us c'"
  by (simp add: feeds_def)

lemma feeds_single:
  "step c ch = Inr (ok, c') \<Longrightarrow> tok c' = Inr t \<Longrightarrow> feeds ok step tok c [ch] t c'"
  by (simp add: feeds_def)

lemma feeds_append:
  "feeds ok step tok c s ts c1 \<Longrightarrow> feeds ok step tok c1 u us c' \<Longrightarrow> vs = ts @ us \<Longrightarrow>
   feeds ok step tok c (s @ u) vs c'"
proof (induction s arbitrary: c ts vs)
  case Nil
  then show ?case by simp
next
  case (Cons ch s)
  from Cons.prems(1) obtain c2 t ts' where
    step: "step c ch = Inr (ok, c2)" and tok: "tok c2 = Inr t"
    and rest: "feeds ok step tok c2 s ts' c1" and ts: "ts = t @ ts'"
    by (auto simp: feeds_def and_then_eq_Inr split: if_splits option.splits prod.splits)
  have "feeds ok step tok c2 (s @ u) (ts' @ us) c'"
    using rest Cons.prems(2) Cons.IH by blast
  with step tok show ?case
    using Cons.prems(3) ts by (auto intro: feeds_Cons)
qed

section \<open>Sequences of operations\<close>

text \<open>
  A component seen from outside: operations \<open>exec\<close> on a state, with a condition \<open>ok\<close> on each
  that its environment promises. \<open>run_ops\<close> executes a sequence, \<open>run_ok\<close> says that every
  operation meets its condition in the state it finds. Whoever shows that one operation
  keeps an invariant up to some faults has it for sequences.
\<close>

fun run_ops :: "('o \<Rightarrow> 's \<Rightarrow> 's outcome) \<Rightarrow> 'o list \<Rightarrow> 's \<Rightarrow> 's outcome" where
  "run_ops exec [] s = Inr s"
| "run_ops exec (op # ops) s = and_then (exec op s) (run_ops exec ops)"

fun run_ok :: "('o \<Rightarrow> 's \<Rightarrow> 's outcome) \<Rightarrow> ('o \<Rightarrow> 's \<Rightarrow> bool) \<Rightarrow> 'o list \<Rightarrow> 's \<Rightarrow> bool" where
  "run_ok exec ok [] s = True"
| "run_ok exec ok (op # ops) s = (ok op s \<and> (case exec op s of Inl f \<Rightarrow> True | Inr t \<Rightarrow> run_ok exec ok ops t))"

lemma run_ops_append: "run_ops exec (xs @ ys) s = and_then (run_ops exec xs s) (run_ops exec ys)"
  by (induction xs arbitrary: s) (simp_all add: and_then_assoc and_then_def split: sum.splits)

locale step_invariant =
  fixes exec :: "'o \<Rightarrow> 's \<Rightarrow> 's outcome"
    and ok :: "'o \<Rightarrow> 's \<Rightarrow> bool"
    and inv :: "'s \<Rightarrow> bool"
    and faults :: "fault set"
  assumes step_keeps: "inv s \<Longrightarrow> ok op s \<Longrightarrow> allows faults (exec op s) inv"
begin

lemma run_keeps: "inv s \<Longrightarrow> run_ok exec ok ops s \<Longrightarrow> allows faults (run_ops exec ops s) inv"
proof (induction ops arbitrary: s)
  case (Cons op ops)
  then show ?case using step_keeps[of s op] by (cases "exec op s") auto
qed simp

lemma run_invariant: "inv s \<Longrightarrow> run_ok exec ok ops s \<Longrightarrow> run_ops exec ops s = Inr t \<Longrightarrow> inv t"
  using run_keeps[of s ops] by simp

end

end
