(* ===== verification/Wdb.thy ===== *)
theory Wdb
  imports Prelude
begin

text \<open>
  The writer of the database format (\<^verbatim>\<open>src/src/wdb.h\<close>, \<^verbatim>\<open>src/src/wdb.c\<close>): its context,
  every operation with its early returns, and what they promise: no write leaves the
  caller's buffer, an operation that fails leaves the text as it was, and one that succeeds
  appends exactly the rendering of its argument.
\<close>

section \<open>Context and results\<close>

datatype wdb_res = wdb_syntax | wdb_overflow | wdb_ok

record wdb_ctx =
  wd_out :: string
  wd_mlen :: nat
  wd_len :: nat
  wd_got_key :: bool
  wd_is_first_val :: bool

type_synonym wdb_ret = "(wdb_res \<times> wdb_ctx) outcome"

text \<open>
  \<^verbatim>\<open>SOB_WDB_CHECK\<close> returns at once unless the statement answered \<open>wdb_ok\<close>;
  \<^verbatim>\<open>SOB_WDB_CHECK_RESTORE_LEN_\<close> also puts back the length saved on entry;
  \<^verbatim>\<open>SOB_WDB_CHECK_KEY_\<close> refuses a value before any key.
\<close>

definition wdb_check :: "wdb_ret \<Rightarrow> (wdb_ctx \<Rightarrow> wdb_ret) \<Rightarrow> wdb_ret" where
  "wdb_check stmt k = and_then stmt (\<lambda>(r, c). if r \<noteq> wdb_ok then Inr (r, c) else k c)"

definition wdb_check_restore_len :: "nat \<Rightarrow> wdb_ret \<Rightarrow> (wdb_ctx \<Rightarrow> wdb_ret) \<Rightarrow> wdb_ret" where
  "wdb_check_restore_len last_len stmt k =
     and_then stmt (\<lambda>(r, c). if r \<noteq> wdb_ok then Inr (r, c\<lparr>wd_len := last_len\<rparr>) else k c)"

definition wdb_check_key :: "wdb_ctx \<Rightarrow> (wdb_ctx \<Rightarrow> wdb_ret) \<Rightarrow> wdb_ret" where
  "wdb_check_key c k = (if \<not> wd_got_key c then Inr (wdb_syntax, c) else k c)"

section \<open>Operations\<close>

definition wdb_init :: "string \<Rightarrow> nat \<Rightarrow> wdb_ctx outcome" where
  "wdb_init out out_mlen =
     and_then (if out_mlen > 0 then poke out 0 NUL else Inr out) (\<lambda>b.
       Inr \<lparr>wd_out = b, wd_mlen = out_mlen, wd_len = 0, wd_got_key = False,
            wd_is_first_val = False\<rparr>)"

definition wdb_out_str :: "wdb_ctx \<Rightarrow> string" where
  "wdb_out_str c = wd_out c"

definition wdb_add_ch :: "wdb_ctx \<Rightarrow> char \<Rightarrow> wdb_ret" where
  "wdb_add_ch c ch =
     (if wd_len c < wd_mlen c then
        and_then (poke (wd_out c) (wd_len c) ch) (\<lambda>b.
          Inr (wdb_ok, c\<lparr>wd_out := b, wd_len := wd_len c + 1\<rparr>))
      else Inr (wdb_overflow, c))"

fun wdb_add_literal :: "wdb_ctx \<Rightarrow> string \<Rightarrow> wdb_ret" where
  "wdb_add_literal c [] = Inr (wdb_ok, c)"
| "wdb_add_literal c (ch # str) = wdb_check (wdb_add_ch c ch) (\<lambda>c. wdb_add_literal c str)"

declare wdb_add_literal.simps [simp del]

definition wdb_maybe_arr :: "wdb_ctx \<Rightarrow> wdb_ret" where
  "wdb_maybe_arr c =
     (if \<not> wd_is_first_val c then wdb_add_literal c '', '' else Inr (wdb_ok, c))"

definition wdb_key_ch :: "char \<Rightarrow> bool" where
  [char_defs]: "wdb_key_ch ch \<longleftrightarrow>
     (schar (CHR ''a'') \<le> schar ch \<and> schar ch \<le> schar (CHR ''z'')) \<or>
     (schar (CHR ''A'') \<le> schar ch \<and> schar ch \<le> schar (CHR ''Z'')) \<or>
     (schar (CHR ''0'') \<le> schar ch \<and> schar ch \<le> schar (CHR ''9'')) \<or>
     ch = CHR ''.'' \<or> ch = CHR ''_'' \<or> ch = CHR ''-''"

definition wdb_key :: "wdb_ctx \<Rightarrow> string \<Rightarrow> wdb_ret" where
  "wdb_key c v =
     (let last_len = wd_len c in
      if \<not> wd_got_key c \<or> \<not> wd_is_first_val c then
        wdb_check_restore_len last_len
          (if wd_got_key c then wdb_add_ch c NL else Inr (wdb_ok, c)) (\<lambda>c.
        if \<not> list_all wdb_key_ch v then Inr (wdb_syntax, c\<lparr>wd_len := last_len\<rparr>)
        else
          wdb_check_restore_len last_len (wdb_add_literal c v) (\<lambda>c.
          wdb_check_restore_len last_len (wdb_add_literal c '': '') (\<lambda>c.
          Inr (wdb_ok, c\<lparr>wd_got_key := True, wd_is_first_val := True\<rparr>))))
      else Inr (wdb_syntax, c\<lparr>wd_len := last_len\<rparr>))"

text \<open>
  The character switch of \<^verbatim>\<open>wdb_str\<close>: \<open>None\<close> is a control character, otherwise whether a
  backslash goes first, and the character written.
\<close>

definition wdb_str_ch :: "char \<Rightarrow> (bool \<times> char) option" where
  "wdb_str_ch ch =
     (if ch = DQ then Some (True, DQ)
      else if ch = NL then Some (True, CHR ''n'')
      else if ch = CR then Some (True, CHR ''r'')
      else if is_ctrl ch \<and> ch \<noteq> TAB then None
      else Some (False, ch))"

definition wdb_long_str_ch :: "char \<Rightarrow> (bool \<times> char) option" where
  "wdb_long_str_ch ch =
     (if ch = CHR ''<'' \<or> ch = CHR ''>'' then Some (True, ch)
      else if ch = CR then Some (True, CHR ''r'')
      else if is_ctrl ch \<and> ch \<noteq> TAB \<and> ch \<noteq> NL then None
      else Some (False, ch))"

text \<open>The loop over the characters, the same in both functions but for the switch.\<close>

fun wdb_chars :: "(char \<Rightarrow> (bool \<times> char) option) \<Rightarrow> nat \<Rightarrow> wdb_ctx \<Rightarrow> string \<Rightarrow> wdb_ret" where
  "wdb_chars sw last_len c [] = Inr (wdb_ok, c)"
| "wdb_chars sw last_len c (ch # v) =
     (case sw ch of
        None \<Rightarrow> Inr (wdb_syntax, c\<lparr>wd_len := last_len\<rparr>)
      | Some (is_escape, ch') \<Rightarrow>
          wdb_check_restore_len last_len
            (if is_escape then wdb_add_ch c BSL else Inr (wdb_ok, c)) (\<lambda>c.
          wdb_check_restore_len last_len (wdb_add_ch c ch') (\<lambda>c.
          wdb_chars sw last_len c v)))"

definition wdb_str :: "wdb_ctx \<Rightarrow> string \<Rightarrow> wdb_ret" where
  "wdb_str c v =
     (let last_len = wd_len c in
      wdb_check_key c (\<lambda>c.
      wdb_check_restore_len last_len (wdb_maybe_arr c) (\<lambda>c.
      let c = c\<lparr>wd_is_first_val := False\<rparr> in
      wdb_check_restore_len last_len (wdb_add_ch c DQ) (\<lambda>c.
      wdb_check (wdb_chars wdb_str_ch last_len c v) (\<lambda>c.
      wdb_check_restore_len last_len (wdb_add_ch c DQ) (\<lambda>c.
      Inr (wdb_ok, c)))))))"

definition wdb_long_str :: "wdb_ctx \<Rightarrow> string \<Rightarrow> wdb_ret" where
  "wdb_long_str c v =
     (let last_len = wd_len c in
      wdb_check_key c (\<lambda>c.
      wdb_check_restore_len last_len (wdb_maybe_arr c) (\<lambda>c.
      let c = c\<lparr>wd_is_first_val := False\<rparr> in
      wdb_check_restore_len last_len (wdb_add_literal c [CHR ''<'', NL]) (\<lambda>c.
      wdb_check (wdb_chars wdb_long_str_ch last_len c v) (\<lambda>c.
      wdb_check_restore_len last_len (wdb_add_literal c [NL, CHR ''>'']) (\<lambda>c.
      Inr (wdb_ok, c)))))))"

text \<open>
  The common shape of \<^verbatim>\<open>wdb_int\<close> and \<^verbatim>\<open>wdb_num\<close>: \<open>buf\<close> is what \<^verbatim>\<open>snprintf\<close> would
  print and \<open>bufsize\<close> the size of the local array it prints into.
\<close>

definition wdb_printed :: "nat \<Rightarrow> wdb_ctx \<Rightarrow> string \<Rightarrow> wdb_ret" where
  "wdb_printed bufsize c buf =
     (let last_len = wd_len c in
      wdb_check_key c (\<lambda>c.
      wdb_check_restore_len last_len (wdb_maybe_arr c) (\<lambda>c.
      let c = c\<lparr>wd_is_first_val := False\<rparr> in
      if length buf \<ge> bufsize then Inr (wdb_overflow, c\<lparr>wd_len := last_len\<rparr>)
      else wdb_check_restore_len last_len (wdb_add_literal c buf) (\<lambda>c. Inr (wdb_ok, c)))))"

definition wdb_int :: "wdb_ctx \<Rightarrow> 64 word \<Rightarrow> wdb_ret" where
  "wdb_int c v = wdb_printed 50 c (fmt_int (sint v))"

definition wdb_num :: "'d double_ops \<Rightarrow> wdb_ctx \<Rightarrow> 'd \<Rightarrow> wdb_ret" where
  "wdb_num D c v = wdb_printed 100 c (d_fmt_f D v)"

definition wdb_bool :: "wdb_ctx \<Rightarrow> bool \<Rightarrow> wdb_ret" where
  "wdb_bool c v =
     (let last_len = wd_len c in
      wdb_check_key c (\<lambda>c.
      wdb_check_restore_len last_len (wdb_maybe_arr c) (\<lambda>c.
      let c = c\<lparr>wd_is_first_val := False\<rparr> in
      wdb_check_restore_len last_len
        (wdb_add_literal c (if v then ''true'' else ''false'')) (\<lambda>c.
      Inr (wdb_ok, c)))))"

definition wdb_fin :: "wdb_ctx \<Rightarrow> wdb_ret" where
  "wdb_fin c =
     (let last_len = wd_len c in
      if wd_got_key c \<and> wd_is_first_val c then Inr (wdb_syntax, c\<lparr>wd_len := last_len\<rparr>)
      else
        wdb_check_restore_len last_len (wdb_add_ch c NL) (\<lambda>c.
        wdb_check_restore_len last_len (wdb_add_ch c NUL) (\<lambda>c.
        Inr (wdb_ok, c))))"

text \<open>The interface as one type of calls, and a sequence of calls that stops at an error.\<close>

datatype 'd wdb_call =
    Wkey string
  | Wstr string
  | Wlong_str string
  | Wint "64 word"
  | Wnum 'd
  | Wbool bool
  | Wfin

fun wdb_exec :: "'d double_ops \<Rightarrow> wdb_ctx \<Rightarrow> 'd wdb_call \<Rightarrow> wdb_ret" where
  "wdb_exec D c (Wkey v) = wdb_key c v"
| "wdb_exec D c (Wstr v) = wdb_str c v"
| "wdb_exec D c (Wlong_str v) = wdb_long_str c v"
| "wdb_exec D c (Wint v) = wdb_int c v"
| "wdb_exec D c (Wnum v) = wdb_num D c v"
| "wdb_exec D c (Wbool v) = wdb_bool c v"
| "wdb_exec D c Wfin = wdb_fin c"

fun wdb_execs :: "'d double_ops \<Rightarrow> wdb_ctx \<Rightarrow> 'd wdb_call list \<Rightarrow> wdb_ret" where
  "wdb_execs D c [] = Inr (wdb_ok, c)"
| "wdb_execs D c (x # xs) = wdb_check (wdb_exec D c x) (\<lambda>c. wdb_execs D c xs)"

section \<open>Invariant and text\<close>

definition wdb_inv :: "wdb_ctx \<Rightarrow> bool" where
  "wdb_inv c \<longleftrightarrow> length (wd_out c) = wd_mlen c \<and> wd_len c \<le> wd_mlen c"

definition wdb_text :: "wdb_ctx \<Rightarrow> string" where
  "wdb_text c = take (wd_len c) (wd_out c)"

definition wdb_room :: "wdb_ctx \<Rightarrow> nat" where
  "wdb_room c = wd_mlen c - wd_len c"

definition wdb_put :: "wdb_ctx \<Rightarrow> string \<Rightarrow> wdb_ctx" where
  "wdb_put c s = c\<lparr>wd_out := overwrite (wd_out c) (wd_len c) s, wd_len := wd_len c + length s\<rparr>"

lemmas wdb_defs = wdb_inv_def wdb_text_def wdb_room_def wdb_put_def

lemma wdb_add_literal_Cons:
  "wdb_add_literal c (ch # s) =
     and_then (wdb_add_ch c ch) (\<lambda>(r, c'). if r \<noteq> wdb_ok then Inr (r, c') else wdb_add_literal c' s)"
  by (simp add: wdb_check_def wdb_add_literal.simps)

interpretation wdb: out_buffer wdb_ok wdb_overflow wdb_inv wdb_room wdb_text wdb_put
  wdb_add_ch wdb_add_literal
proof unfold_locales
  fix c and s t :: string
  assume "wdb_inv c" "length s + length t \<le> wdb_room c"
  then have "wd_len c + length s + length t \<le> length (wd_out c)"
    by (auto simp: wdb_defs)
  then show "wdb_put (wdb_put c s) t = wdb_put c (s @ t)"
    using overwrite_overwrite by (simp add: wdb_defs add.assoc)
next
  fix c and ch :: char
  show "wdb_inv c \<Longrightarrow> 0 < wdb_room c \<Longrightarrow> wdb_add_ch c ch = Inr (wdb_ok, wdb_put c [ch])"
    by (simp add: wdb_defs wdb_add_ch_def overwrite_single)
qed (auto simp: wdb_defs wdb_add_ch_def wdb_add_literal.simps wdb_check_def)

lemma wdb_put_flags [simp]:
  "wd_mlen (wdb_put c s) = wd_mlen c" "wd_got_key (wdb_put c s) = wd_got_key c"
  "wd_is_first_val (wdb_put c s) = wd_is_first_val c"
  by (simp_all add: wdb_put_def)

lemma wdb_flag_updates [simp]:
  "wdb_inv (c\<lparr>wd_is_first_val := f\<rparr>) = wdb_inv c" "wdb_inv (c\<lparr>wd_got_key := g\<rparr>) = wdb_inv c"
  "wdb_room (c\<lparr>wd_is_first_val := f\<rparr>) = wdb_room c" "wdb_room (c\<lparr>wd_got_key := g\<rparr>) = wdb_room c"
  "wdb_text (c\<lparr>wd_is_first_val := f\<rparr>) = wdb_text c" "wdb_text (c\<lparr>wd_got_key := g\<rparr>) = wdb_text c"
  "wdb_put (c\<lparr>wd_is_first_val := f\<rparr>) s = (wdb_put c s)\<lparr>wd_is_first_val := f\<rparr>"
  by (simp_all add: wdb_defs)

text \<open>
  Putting the saved length back after a partial write: the bytes beyond the text may
  differ, the text does not. \<open>wdb_rolled_to l c c'\<close> relates a context to what a failing
  operation that saved the length \<open>l\<close> makes of it; \<open>wdb_rolled\<close> is the view of the
  caller, who also sees that the mark for the first value may be gone.
\<close>

definition wdb_rolled_to :: "nat \<Rightarrow> wdb_ctx \<Rightarrow> wdb_ctx \<Rightarrow> bool" where
  "wdb_rolled_to l c c' \<longleftrightarrow> wdb_inv c' \<and> wd_len c' = l \<and> take l (wd_out c') = take l (wd_out c) \<and>
     wd_mlen c' = wd_mlen c \<and> wd_got_key c' = wd_got_key c \<and>
     wd_is_first_val c' = wd_is_first_val c"

definition wdb_rolled :: "wdb_ctx \<Rightarrow> wdb_ctx \<Rightarrow> bool" where
  "wdb_rolled c c' \<longleftrightarrow> wdb_inv c' \<and> wdb_text c' = wdb_text c \<and> wd_len c' = wd_len c \<and>
     wd_mlen c' = wd_mlen c \<and> wd_got_key c' = wd_got_key c \<and>
     (wd_is_first_val c' = wd_is_first_val c \<or> \<not> wd_is_first_val c')"

lemma wdb_rolled_to_put:
  assumes "wdb_inv c" "l \<le> wd_len c" "length s \<le> wdb_room c"
  shows "wdb_rolled_to l c ((wdb_put c s)\<lparr>wd_len := l\<rparr>)"
  using assms by (auto simp: wdb_rolled_to_def wdb_defs take_overwrite_prefix)

lemma wdb_rolled_to_self: "wdb_inv c \<Longrightarrow> l \<le> wd_len c \<Longrightarrow> wdb_rolled_to l c (c\<lparr>wd_len := l\<rparr>)"
  by (auto simp: wdb_rolled_to_def wdb_inv_def)

lemma wdb_rolled_to_trans:
  assumes "wdb_inv c" "l \<le> wd_len c" "length s \<le> wdb_room c" "wdb_rolled_to l (wdb_put c s) c'"
  shows "wdb_rolled_to l c c'"
  using assms by (auto simp: wdb_rolled_to_def wdb_defs take_overwrite_prefix)

text \<open>The two checked statements, on a good context: go on, or give up and roll back.\<close>

lemma wdb_restore_literal:
  "wdb_inv c \<Longrightarrow> wdb_check_restore_len l (wdb_add_literal c s) k =
     (if length s \<le> wdb_room c then k (wdb_put c s)
      else Inr (wdb_overflow, (wdb_put c (take (wdb_room c) s))\<lparr>wd_len := l\<rparr>))"
  by (simp add: wdb_check_restore_len_def wdb.add_str_eq)

lemma wdb_restore_ch:
  "wdb_inv c \<Longrightarrow> wdb_check_restore_len l (wdb_add_ch c ch) k =
     (if 0 < wdb_room c then k (wdb_put c [ch]) else Inr (wdb_overflow, c\<lparr>wd_len := l\<rparr>))"
  by (simp add: wdb_check_restore_len_def wdb.add_ch_eq)

lemma wdb_restore_ok [simp]: "wdb_check_restore_len l (Inr (wdb_ok, c)) k = k c"
  by (simp add: wdb_check_restore_len_def)

section \<open>What each operation appends\<close>

definition wdb_esc :: "(char \<Rightarrow> (bool \<times> char) option) \<Rightarrow> char \<Rightarrow> string" where
  "wdb_esc sw ch = (case sw ch of None \<Rightarrow> [] | Some (e, ch') \<Rightarrow> if e then [BSL, ch'] else [ch'])"

definition wdb_escs :: "(char \<Rightarrow> (bool \<times> char) option) \<Rightarrow> string \<Rightarrow> string" where
  "wdb_escs sw v = concat (map (wdb_esc sw) v)"

definition wdb_valid :: "(char \<Rightarrow> (bool \<times> char) option) \<Rightarrow> string \<Rightarrow> bool" where
  "wdb_valid sw v = list_all (\<lambda>ch. sw ch \<noteq> None) v"

lemma wdb_escs_simps [simp]:
  "wdb_escs sw [] = []" "wdb_escs sw (ch # v) = wdb_esc sw ch @ wdb_escs sw v"
  by (simp_all add: wdb_escs_def)

lemma wdb_valid_simps [simp]:
  "wdb_valid sw []" "wdb_valid sw (ch # v) \<longleftrightarrow> sw ch \<noteq> None \<and> wdb_valid sw v"
  by (simp_all add: wdb_valid_def)

text \<open>One character: its escape and itself, or a rollback.\<close>

lemma wdb_chars_step:
  assumes "wdb_inv c" "l \<le> wd_len c" "sw ch = Some (e, ch')"
  shows "if length (wdb_esc sw ch) \<le> wdb_room c
    then wdb_chars sw l c (ch # v) = wdb_chars sw l (wdb_put c (wdb_esc sw ch)) v
    else \<exists>c'. wdb_chars sw l c (ch # v) = Inr (wdb_overflow, c') \<and> wdb_rolled_to l c c'"
proof (cases e)
  case False
  with assms show ?thesis
    by (auto simp: wdb_esc_def wdb_restore_ch wdb_rolled_to_self)
next
  case True
  have c2: "wdb_inv (wdb_put c [BSL])" "wdb_room (wdb_put c [BSL]) = wdb_room c - 1"
    if "0 < wdb_room c" using that assms(1) by (simp_all add: wdb.inv_put wdb.room_put)
  have pp: "wdb_put (wdb_put c [BSL]) [ch'] = wdb_put c [BSL, ch']" if "2 \<le> wdb_room c"
    using that assms(1) wdb.put_put[of c "[BSL]" "[ch']"] by simp
  have roll: "wdb_rolled_to l c ((wdb_put c [BSL])\<lparr>wd_len := l\<rparr>)" if "0 < wdb_room c"
    using that assms wdb_rolled_to_put[of c l "[BSL]"] by simp
  from True assms show ?thesis
    by (auto simp: wdb_esc_def wdb_restore_ch wdb_rolled_to_self c2 pp roll)
qed

lemma wdb_chars_spec:
  assumes "wdb_inv c" "l \<le> wd_len c"
  shows "if wdb_valid sw v \<and> length (wdb_escs sw v) \<le> wdb_room c
    then wdb_chars sw l c v = Inr (wdb_ok, wdb_put c (wdb_escs sw v))
    else \<exists>r c'. wdb_chars sw l c v = Inr (r, c') \<and> wdb_rolled_to l c c' \<and> r \<noteq> wdb_ok \<and>
      (wdb_valid sw v \<longrightarrow> r = wdb_overflow)"
  using assms
proof (induction v arbitrary: c)
  case Nil
  then show ?case by (simp add: wdb.put_Nil)
next
  case (Cons ch v)
  show ?case
  proof (cases "sw ch")
    case None
    with Cons.prems show ?thesis by (simp add: wdb_rolled_to_self)
  next
    case (Some x)
    obtain e ch' where sw: "sw ch = Some (e, ch')" using Some by (cases x) auto
    let ?s = "wdb_esc sw ch"
    note step = wdb_chars_step[where c = c and l = l and v = v and sw = sw, OF Cons.prems sw]
    show ?thesis
    proof (cases "length ?s \<le> wdb_room c")
      case False
      with step sw show ?thesis by auto
    next
      case True
      let ?c = "wdb_put c ?s"
      have inv: "wdb_inv ?c" and room: "wdb_room ?c = wdb_room c - length ?s"
        using True Cons.prems by (simp_all add: wdb.inv_put wdb.room_put)
      have len: "l \<le> wd_len ?c" using Cons.prems by (simp add: wdb_put_def)
      have pp: "wdb_put ?c (wdb_escs sw v) = wdb_put c (wdb_escs sw (ch # v))"
        if "length (wdb_escs sw v) \<le> wdb_room ?c"
        using that True room Cons.prems by (auto intro!: wdb.put_put)
      from step True have "wdb_chars sw l c (ch # v) = wdb_chars sw l ?c v" by simp
      with Cons.IH[OF inv len] pp sw True room show ?thesis
        using wdb_rolled_to_trans[OF Cons.prems True]
        by (auto split: if_splits)
    qed
  qed
qed

text \<open>The opening of every value operation: the key check and the separator.\<close>

definition wdb_sep :: "wdb_ctx \<Rightarrow> string" where
  "wdb_sep c = (if wd_is_first_val c then [] else '', '')"

lemma wdb_value_opening:
  assumes "wdb_inv c" "wd_got_key c"
  shows "wdb_check_key c (\<lambda>c. wdb_check_restore_len l (wdb_maybe_arr c) k) =
    (if length (wdb_sep c) \<le> wdb_room c then k (wdb_put c (wdb_sep c))
     else Inr (wdb_overflow, (wdb_put c (take (wdb_room c) (wdb_sep c)))\<lparr>wd_len := l\<rparr>))"
  using assms by (simp add: wdb_check_key_def wdb_maybe_arr_def wdb_sep_def wdb_restore_literal wdb.put_Nil)

lemma wdb_rolled_put:
  assumes "wdb_inv c" "length s \<le> wdb_room c"
  shows "wdb_rolled c ((wdb_put c s)\<lparr>wd_len := wd_len c\<rparr>)"
  using assms by (auto simp: wdb_rolled_def wdb_defs take_overwrite_prefix)

lemma wdb_rolled_self: "wdb_inv c \<Longrightarrow> wdb_rolled c (c\<lparr>wd_len := wd_len c\<rparr>)"
  by (auto simp: wdb_rolled_def wdb_defs)

lemma wdb_rolled_same: "wdb_inv c \<Longrightarrow> wdb_rolled c c"
  by (auto simp: wdb_rolled_def)

lemma wdb_rolled_from_opening:
  assumes "wdb_inv c" "length s \<le> wdb_room c"
    and "wdb_rolled_to (wd_len c) ((wdb_put c s)\<lparr>wd_is_first_val := False\<rparr>) c'"
  shows "wdb_rolled c c'"
  using assms by (auto simp: wdb_rolled_def wdb_rolled_to_def wdb_defs take_overwrite_prefix)

text \<open>
  The contract of a value operation that renders as \<open>b\<close> (\<open>None\<close>: cannot be rendered),
  and the lemma that establishes it from the part after the opening.
\<close>

definition wdb_value_spec :: "wdb_ctx \<Rightarrow> string option \<Rightarrow> wdb_ret \<Rightarrow> bool" where
  "wdb_value_spec c b m = (case b of
     None \<Rightarrow> \<exists>r c'. m = Inr (r, c') \<and> r \<noteq> wdb_ok \<and> wdb_rolled c c'
   | Some s \<Rightarrow> if length s \<le> wdb_room c
       then m = Inr (wdb_ok, (wdb_put c s)\<lparr>wd_is_first_val := False\<rparr>)
       else \<exists>c'. m = Inr (wdb_overflow, c') \<and> wdb_rolled c c')"

definition wdb_body_spec :: "nat \<Rightarrow> wdb_ctx \<Rightarrow> string option \<Rightarrow> wdb_ret \<Rightarrow> bool" where
  "wdb_body_spec l c b m = (case b of
     None \<Rightarrow> \<exists>r c'. m = Inr (r, c') \<and> r \<noteq> wdb_ok \<and> wdb_rolled_to l c c'
   | Some s \<Rightarrow> if length s \<le> wdb_room c then m = Inr (wdb_ok, wdb_put c s)
       else \<exists>c'. m = Inr (wdb_overflow, c') \<and> wdb_rolled_to l c c')"

definition wdb_render_val :: "bool \<Rightarrow> bool \<Rightarrow> string option \<Rightarrow> string option" where
  "wdb_render_val got_key first b =
     (if got_key then map_option (\<lambda>s. (if first then [] else '', '') @ s) b else None)"

lemma wdb_value_from_body:
  assumes inv: "wdb_inv c"
    and body: "\<And>c1. wdb_inv c1 \<Longrightarrow> wd_len c \<le> wd_len c1 \<Longrightarrow> wdb_body_spec (wd_len c) c1 b (k c1)"
  shows "wdb_value_spec c (wdb_render_val (wd_got_key c) (wd_is_first_val c) b)
    (wdb_check_key c (\<lambda>c'. wdb_check_restore_len (wd_len c) (wdb_maybe_arr c')
       (\<lambda>c. k (c\<lparr>wd_is_first_val := False\<rparr>))))"
proof (cases "wd_got_key c")
  case False
  with inv show ?thesis
    by (auto simp: wdb_check_key_def wdb_render_val_def wdb_value_spec_def wdb_rolled_same)
next
  case key: True
  let ?sep = "wdb_sep c"
  let ?c1 = "(wdb_put c ?sep)\<lparr>wd_is_first_val := False\<rparr>"
  have render: "wdb_render_val (wd_got_key c) (wd_is_first_val c) b = map_option ((@) ?sep) b"
    using key by (simp add: wdb_render_val_def wdb_sep_def)
  show ?thesis
  proof (cases "length ?sep \<le> wdb_room c")
    case False
    have "wdb_rolled c ((wdb_put c (take (wdb_room c) ?sep))\<lparr>wd_len := wd_len c\<rparr>)"
      using inv by (intro wdb_rolled_put) auto
    with False show ?thesis
      unfolding render wdb_value_opening[OF inv key]
      by (cases b) (auto simp: wdb_value_spec_def)
  next
    case True
    have "wdb_inv ?c1" and len: "wd_len c \<le> wd_len ?c1" and room: "wdb_room ?c1 = wdb_room c - length ?sep"
      using True inv wdb.inv_put wdb.room_put by (simp_all add: wdb_put_def)
    then have "wdb_body_spec (wd_len c) ?c1 b (k ?c1)" using body by blast
    moreover have "wdb_put ?c1 s = (wdb_put c (?sep @ s))\<lparr>wd_is_first_val := False\<rparr>"
      if "length ?sep + length s \<le> wdb_room c" for s
      using that inv by (simp add: wdb.put_put)
    moreover note wdb_rolled_from_opening[OF inv True]
    ultimately show ?thesis
      unfolding render wdb_value_opening[OF inv key]
      using True room
      by (cases b) (fastforce simp: wdb_value_spec_def wdb_body_spec_def split: if_splits)+
  qed
qed

text \<open>
  Sequences of checked statements: \<open>wdb_appends l c s m k\<close> says that \<open>m\<close> appends \<open>s\<close>
  and goes on with \<open>k\<close>, or gives up and rolls back when \<open>s\<close> does not fit.
\<close>

definition wdb_appends :: "nat \<Rightarrow> wdb_ctx \<Rightarrow> string \<Rightarrow> wdb_ret \<Rightarrow> (wdb_ctx \<Rightarrow> wdb_ret) \<Rightarrow> bool" where
  "wdb_appends l c s m k = (if length s \<le> wdb_room c then m = k (wdb_put c s)
     else \<exists>c'. m = Inr (wdb_overflow, c') \<and> wdb_rolled_to l c c')"

lemma wdb_appends_literal:
  "wdb_inv c \<Longrightarrow> l \<le> wd_len c \<Longrightarrow>
   wdb_appends l c s (wdb_check_restore_len l (wdb_add_literal c s) k) k"
  by (auto simp: wdb_appends_def wdb_restore_literal intro!: wdb_rolled_to_put)

lemma wdb_appends_Nil: "wdb_inv c \<Longrightarrow> wdb_appends l c [] (k c) k"
  by (simp add: wdb_appends_def wdb.put_Nil)

lemma wdb_appends_chars:
  assumes "wdb_inv c" "l \<le> wd_len c" "wdb_valid sw v"
  shows "wdb_appends l c (wdb_escs sw v) (wdb_check (wdb_chars sw l c v) k) k"
  using assms(3) wdb_chars_spec[OF assms(1,2), of sw v]
  by (auto simp: wdb_appends_def wdb_check_def split: if_splits)

lemma wdb_appends_trans:
  assumes inv: "wdb_inv c" and l: "l \<le> wd_len c" and m: "wdb_appends l c s m k"
    and k: "\<And>c1. wdb_inv c1 \<Longrightarrow> l \<le> wd_len c1 \<Longrightarrow> wdb_appends l c1 t (k c1) k'"
  shows "wdb_appends l c (s @ t) m k'"
proof (cases "length s \<le> wdb_room c")
  case False
  with m show ?thesis by (auto simp: wdb_appends_def)
next
  case True
  let ?c1 = "wdb_put c s"
  have "wdb_inv ?c1" "wdb_room ?c1 = wdb_room c - length s" "l \<le> wd_len ?c1"
    using True inv l by (simp_all add: wdb.inv_put wdb.room_put) (simp add: wdb_put_def)
  moreover have "wdb_put ?c1 t = wdb_put c (s @ t)" if "length s + length t \<le> wdb_room c"
    using inv that by (rule wdb.put_put)
  ultimately show ?thesis
    using True m k[of ?c1] wdb_rolled_to_trans[OF inv l True]
    by (auto simp: wdb_appends_def split: if_splits)
qed

lemma wdb_body_appends:
  "wdb_appends l c s m (\<lambda>c. Inr (wdb_ok, c)) \<Longrightarrow> wdb_body_spec l c (Some s) m"
  by (simp add: wdb_appends_def wdb_body_spec_def)

text \<open>A delimited string: opening literal, the characters, closing literal.\<close>

lemma wdb_body_chars:
  assumes inv: "wdb_inv c" and l: "l \<le> wd_len c"
  shows "wdb_body_spec l c (if wdb_valid sw v then Some (a @ wdb_escs sw v @ z) else None)
    (wdb_check_restore_len l (wdb_add_literal c a) (\<lambda>c.
     wdb_check (wdb_chars sw l c v) (\<lambda>c.
     wdb_check_restore_len l (wdb_add_literal c z) (\<lambda>c. Inr (wdb_ok, c)))))"
    (is "wdb_body_spec l c ?b ?m")
proof (cases "wdb_valid sw v")
  case True
  then show ?thesis
    by (auto intro!: wdb_body_appends wdb_appends_trans[OF inv l] wdb_appends_trans
        wdb_appends_literal wdb_appends_chars inv l)
next
  case False
  show ?thesis
  proof (cases "length a \<le> wdb_room c")
    case a: True
    have "wdb_inv (wdb_put c a)" "l \<le> wd_len (wdb_put c a)"
      using a inv l by (simp_all add: wdb.inv_put) (simp add: wdb_put_def)
    from wdb_chars_spec[OF this, of sw v] False a inv wdb_rolled_to_trans[OF inv l a]
    show ?thesis by (auto simp: wdb_restore_literal wdb_check_def wdb_body_spec_def)
  next
    case a: False
    with False wdb_appends_literal[OF inv l, of a] show ?thesis
      by (fastforce simp: wdb_body_spec_def wdb_appends_def)
  qed
qed

lemma wdb_add_literal_single [simp]: "wdb_add_literal c [ch] = wdb_add_ch c ch"
proof -
  have "and_then m (\<lambda>(r, c). if r \<noteq> wdb_ok then Inr (r, c) else Inr (wdb_ok, c)) = m" for m :: wdb_ret
    by (cases m) auto
  then show ?thesis by (simp add: wdb_check_def wdb_add_literal.simps)
qed

section \<open>The operations meet the contract\<close>

lemma wdb_str_spec:
  assumes "wdb_inv c"
  shows "wdb_value_spec c (wdb_render_val (wd_got_key c) (wd_is_first_val c)
      (if wdb_valid wdb_str_ch v then Some ([DQ] @ wdb_escs wdb_str_ch v @ [DQ]) else None))
    (wdb_str c v)"
proof -
  have body: "wdb_body_spec (wd_len c) c1 (if wdb_valid wdb_str_ch v then Some ([DQ] @ wdb_escs wdb_str_ch v @ [DQ]) else None)
     (wdb_check_restore_len (wd_len c) (wdb_add_ch c1 DQ) (\<lambda>c'.
      wdb_check (wdb_chars wdb_str_ch (wd_len c) c' v) (\<lambda>c'.
      wdb_check_restore_len (wd_len c) (wdb_add_ch c' DQ) (\<lambda>c. Inr (wdb_ok, c)))))"
    if "wdb_inv c1" "wd_len c \<le> wd_len c1" for c1
    using wdb_body_chars[OF that, of wdb_str_ch v "[DQ]" "[DQ]"] by simp
  show ?thesis
    unfolding wdb_str_def Let_def by (rule wdb_value_from_body[OF assms body])
qed

lemma wdb_long_str_spec:
  assumes "wdb_inv c"
  shows "wdb_value_spec c (wdb_render_val (wd_got_key c) (wd_is_first_val c)
      (if wdb_valid wdb_long_str_ch v
       then Some ([CHR ''<'', NL] @ wdb_escs wdb_long_str_ch v @ [NL, CHR ''>'']) else None))
    (wdb_long_str c v)"
  unfolding wdb_long_str_def Let_def
  by (rule wdb_value_from_body[OF assms]) (rule wdb_body_chars)

lemma wdb_printed_spec:
  assumes "wdb_inv c"
  shows "wdb_value_spec c (wdb_render_val (wd_got_key c) (wd_is_first_val c)
      (if length buf < n then Some buf else None)) (wdb_printed n c buf)"
  unfolding wdb_printed_def Let_def
proof (rule wdb_value_from_body[OF assms])
  fix c1
  assume "wdb_inv c1" "wd_len c \<le> wd_len c1"
  then show "wdb_body_spec (wd_len c) c1 (if length buf < n then Some buf else None)
    (if n \<le> length buf then Inr (wdb_overflow, c1\<lparr>wd_len := wd_len c\<rparr>)
     else wdb_check_restore_len (wd_len c) (wdb_add_literal c1 buf) (\<lambda>c. Inr (wdb_ok, c)))"
    by (auto simp: wdb_body_spec_def[of _ _ None] wdb_rolled_to_self
        intro!: wdb_body_appends wdb_appends_literal)
qed

lemma wdb_int_spec:
  "wdb_inv c \<Longrightarrow> wdb_value_spec c
     (wdb_render_val (wd_got_key c) (wd_is_first_val c) (Some (fmt_int (sint v)))) (wdb_int c v)"
  using wdb_printed_spec[of c "fmt_int (sint v)" 50] fmt_int_length[of v]
  by (simp add: wdb_int_def)

lemma wdb_bool_spec:
  assumes "wdb_inv c"
  shows "wdb_value_spec c (wdb_render_val (wd_got_key c) (wd_is_first_val c)
      (Some (if v then ''true'' else ''false''))) (wdb_bool c v)"
  unfolding wdb_bool_def Let_def
  by (rule wdb_value_from_body[OF assms]) (intro wdb_body_appends wdb_appends_literal)

lemma wdb_rolled_to_rolled: "wdb_rolled_to (wd_len c) c c' \<Longrightarrow> wdb_rolled c c'"
  by (auto simp: wdb_rolled_to_def wdb_rolled_def wdb_text_def)

lemma wdb_appends_nl:
  assumes "wdb_inv c" "l \<le> wd_len c"
  shows "wdb_appends l c (if g then [NL] else [])
    (wdb_check_restore_len l (if g then wdb_add_ch c NL else Inr (wdb_ok, c)) k) k"
  using wdb_appends_literal[OF assms, of "[NL]" k] wdb_appends_Nil[OF assms(1), of l k] by simp

lemma wdb_key_spec:
  assumes inv: "wdb_inv c" and state: "\<not> wd_got_key c \<or> \<not> wd_is_first_val c"
  shows "if list_all wdb_key_ch v
    then wdb_appends (wd_len c) c ((if wd_got_key c then [NL] else []) @ v @ '': '') (wdb_key c v)
      (\<lambda>c. Inr (wdb_ok, c\<lparr>wd_got_key := True, wd_is_first_val := True\<rparr>))
    else \<exists>r c'. wdb_key c v = Inr (r, c') \<and> r \<noteq> wdb_ok \<and> wdb_rolled_to (wd_len c) c c'"
proof (cases "list_all wdb_key_ch v")
  case True
  let ?fin = "\<lambda>c. Inr (wdb_ok, c\<lparr>wd_got_key := True, wd_is_first_val := True\<rparr>)"
  have key: "wdb_key c v = wdb_check_restore_len (wd_len c)
      (if wd_got_key c then wdb_add_ch c NL else Inr (wdb_ok, c)) (\<lambda>c1.
    wdb_check_restore_len (wd_len c) (wdb_add_literal c1 v) (\<lambda>c1.
    wdb_check_restore_len (wd_len c) (wdb_add_literal c1 '': '') ?fin))"
    using state True by (simp add: wdb_key_def Let_def)
  have "wdb_appends (wd_len c) c ((if wd_got_key c then [NL] else []) @ v @ '': '') (wdb_key c v) ?fin"
    unfolding key
    by (rule wdb_appends_trans[OF inv order_refl wdb_appends_nl[OF inv order_refl]])
      (rule wdb_appends_trans[OF _ _ wdb_appends_literal wdb_appends_literal]; assumption)
  with True show ?thesis by simp
next
  case False
  let ?nl = "if wd_got_key c then [NL] else []"
  have "wdb_rolled_to (wd_len c) c ((wdb_put c ?nl)\<lparr>wd_len := wd_len c\<rparr>)"
    if "length ?nl \<le> wdb_room c" using inv that by (intro wdb_rolled_to_put) auto
  with False state inv show ?thesis
    using wdb_rolled_to_self[OF inv order_refl]
    by (auto simp: wdb_key_def Let_def wdb_restore_ch wdb.put_Nil Suc_le_eq split: if_splits)
qed

lemma wdb_fin_spec:
  assumes inv: "wdb_inv c"
  shows "if wd_got_key c \<and> wd_is_first_val c
    then \<exists>r c'. wdb_fin c = Inr (r, c') \<and> r \<noteq> wdb_ok \<and> wdb_rolled_to (wd_len c) c c'
    else wdb_appends (wd_len c) c ([NL] @ [NUL]) (wdb_fin c) (\<lambda>c. Inr (wdb_ok, c))"
proof -
  have ch: "wdb_appends (wd_len c) c1 [ch] (wdb_check_restore_len (wd_len c) (wdb_add_ch c1 ch) k) k"
    if "wdb_inv c1" "wd_len c \<le> wd_len c1" for c1 ch k
    using wdb_appends_literal[OF that, of "[ch]" k] by simp
  show ?thesis
    using wdb_rolled_to_self[OF inv order_refl]
    by (auto simp: wdb_fin_def Let_def simp del: append.simps
        intro!: wdb_appends_trans[OF inv order_refl] ch inv)
qed

text \<open>
  The rendering of a call in a context with the flags \<open>g\<close> (a key was written) and
  \<open>f\<close> (no value yet), \<open>None\<close> where the call is refused, and the flags after it.
\<close>

fun wdb_render :: "'d double_ops \<Rightarrow> bool \<Rightarrow> bool \<Rightarrow> 'd wdb_call \<Rightarrow> string option" where
  "wdb_render D g f (Wkey v) =
     (if (\<not> g \<or> \<not> f) \<and> list_all wdb_key_ch v
      then Some ((if g then [NL] else []) @ v @ '': '') else None)"
| "wdb_render D g f (Wstr v) = wdb_render_val g f
     (if wdb_valid wdb_str_ch v then Some ([DQ] @ wdb_escs wdb_str_ch v @ [DQ]) else None)"
| "wdb_render D g f (Wlong_str v) = wdb_render_val g f
     (if wdb_valid wdb_long_str_ch v
      then Some ([CHR ''<'', NL] @ wdb_escs wdb_long_str_ch v @ [NL, CHR ''>'']) else None)"
| "wdb_render D g f (Wint v) = wdb_render_val g f (Some (fmt_int (sint v)))"
| "wdb_render D g f (Wnum v) = wdb_render_val g f
     (if length (d_fmt_f D v) < 100 then Some (d_fmt_f D v) else None)"
| "wdb_render D g f (Wbool v) = wdb_render_val g f (Some (if v then ''true'' else ''false''))"
| "wdb_render D g f Wfin = (if g \<and> f then None else Some [NL, NUL])"

fun wdb_flags_after :: "bool \<Rightarrow> bool \<Rightarrow> 'd wdb_call \<Rightarrow> bool \<times> bool" where
  "wdb_flags_after g f (Wkey v) = (True, True)"
| "wdb_flags_after g f Wfin = (g, f)"
| "wdb_flags_after g f _ = (g, False)"

text \<open>The contract of every call, in one statement.\<close>

definition wdb_call_spec :: "'d double_ops \<Rightarrow> wdb_ctx \<Rightarrow> 'd wdb_call \<Rightarrow> wdb_res \<Rightarrow> wdb_ctx \<Rightarrow> bool" where
  "wdb_call_spec D c x r c' = (case wdb_render D (wd_got_key c) (wd_is_first_val c) x of
     None \<Rightarrow> r \<noteq> wdb_ok \<and> wdb_rolled c c'
   | Some s \<Rightarrow>
       if length s \<le> wdb_room c
       then r = wdb_ok \<and> wdb_inv c' \<and> wdb_text c' = wdb_text c @ s \<and>
         wd_mlen c' = wd_mlen c \<and>
         (wd_got_key c', wd_is_first_val c') = wdb_flags_after (wd_got_key c) (wd_is_first_val c) x
       else r = wdb_overflow \<and> wdb_rolled c c')"

lemma wdb_value_call_spec:
  assumes inv: "wdb_inv c" and spec: "wdb_value_spec c (wdb_render D (wd_got_key c) (wd_is_first_val c) x) m"
    and flags: "wdb_flags_after (wd_got_key c) (wd_is_first_val c) x = (wd_got_key c, False)"
  shows "\<exists>r c'. m = Inr (r, c') \<and> wdb_call_spec D c x r c'"
proof (cases "wdb_render D (wd_got_key c) (wd_is_first_val c) x")
  case None
  with spec show ?thesis by (auto simp: wdb_value_spec_def wdb_call_spec_def)
next
  case (Some s)
  show ?thesis
  proof (cases "length s \<le> wdb_room c")
    case True
    with inv have "wdb_inv (wdb_put c s)" "wdb_text (wdb_put c s) = wdb_text c @ s"
      by (simp_all add: wdb.inv_put wdb.text_put)
    with True spec Some flags show ?thesis
      by (simp add: wdb_value_spec_def wdb_call_spec_def)
  next
    case False
    with spec Some show ?thesis by (auto simp: wdb_value_spec_def wdb_call_spec_def)
  qed
qed

lemma wdb_appends_call_spec:
  assumes inv: "wdb_inv c" and render: "wdb_render D (wd_got_key c) (wd_is_first_val c) x = Some s"
    and app: "wdb_appends (wd_len c) c s m (\<lambda>c. Inr (wdb_ok, upd c))"
    and upd: "\<And>c. wdb_inv (upd c) = wdb_inv c \<and> wdb_text (upd c) = wdb_text c \<and> wd_mlen (upd c) = wd_mlen c"
    and flags: "(wd_got_key (upd (wdb_put c s)), wd_is_first_val (upd (wdb_put c s)))
      = wdb_flags_after (wd_got_key c) (wd_is_first_val c) x"
  shows "\<exists>r c'. m = Inr (r, c') \<and> wdb_call_spec D c x r c'"
proof (cases "length s \<le> wdb_room c")
  case True
  with inv have "wdb_inv (wdb_put c s)" "wdb_text (wdb_put c s) = wdb_text c @ s"
    by (simp_all add: wdb.inv_put wdb.text_put)
  with True app upd flags render show ?thesis
    by (simp add: wdb_appends_def wdb_call_spec_def)
next
  case False
  with app render wdb_rolled_to_rolled show ?thesis
    by (auto simp: wdb_appends_def wdb_call_spec_def)
qed

lemma wdb_key_call_spec:
  assumes inv: "wdb_inv c"
  shows "\<exists>r c'. wdb_key c v = Inr (r, c') \<and> wdb_call_spec D c (Wkey v) r c'"
proof (cases "(\<not> wd_got_key c \<or> \<not> wd_is_first_val c) \<and> list_all wdb_key_ch v")
  case True
  with wdb_key_spec[OF inv, of v] show ?thesis
    by (intro wdb_appends_call_spec[OF inv, where upd = "\<lambda>c. c\<lparr>wd_got_key := True, wd_is_first_val := True\<rparr>"])
      auto
next
  case False
  with wdb_key_spec[OF inv, of v] wdb_rolled_to_rolled wdb_rolled_same[OF inv] show ?thesis
    by (cases "wd_got_key c \<and> wd_is_first_val c")
      (auto simp: wdb_call_spec_def wdb_key_def Let_def)
qed

lemma wdb_fin_call_spec:
  assumes inv: "wdb_inv c"
  shows "\<exists>r c'. wdb_fin c = Inr (r, c') \<and> wdb_call_spec D c Wfin r c'"
proof (cases "wd_got_key c \<and> wd_is_first_val c")
  case False
  with wdb_fin_spec[OF inv] show ?thesis
    by (intro wdb_appends_call_spec[OF inv, where upd = "\<lambda>c. c"]) auto
next
  case True
  with wdb_fin_spec[OF inv] wdb_rolled_to_rolled show ?thesis
    by (auto simp: wdb_call_spec_def)
qed

lemma wdb_exec_spec:
  assumes inv: "wdb_inv c"
  shows "\<exists>r c'. wdb_exec D c x = Inr (r, c') \<and> wdb_call_spec D c x r c'"
proof -
  note vspec = wdb_value_call_spec[OF inv]
  show ?thesis
  proof (cases x)
    case (Wkey v)
    then show ?thesis using wdb_key_call_spec[OF inv] by simp
  next
    case (Wstr v)
    show ?thesis using vspec[of D x] wdb_str_spec[OF inv, of v] by (simp only: Wstr) simp
  next
    case (Wlong_str v)
    show ?thesis using vspec[of D x] wdb_long_str_spec[OF inv, of v] by (simp only: Wlong_str) simp
  next
    case (Wint v)
    show ?thesis using vspec[of D x] wdb_int_spec[OF inv, of v] by (simp only: Wint) simp
  next
    case (Wnum v)
    show ?thesis using vspec[of D x] wdb_printed_spec[OF inv, of "d_fmt_f D v" 100]
      by (simp only: Wnum) (simp add: wdb_num_def)
  next
    case (Wbool v)
    show ?thesis using vspec[of D x] wdb_bool_spec[OF inv, of v] by (simp only: Wbool) simp
  next
    case Wfin
    then show ?thesis using wdb_fin_call_spec[OF inv] by simp
  qed
qed

section \<open>Sequences of calls\<close>

fun wdb_renders :: "'d double_ops \<Rightarrow> bool \<Rightarrow> bool \<Rightarrow> 'd wdb_call list \<Rightarrow> string option" where
  "wdb_renders D g f [] = Some []"
| "wdb_renders D g f (x # xs) =
     (case wdb_render D g f x of
        None \<Rightarrow> None
      | Some s \<Rightarrow> (case wdb_flags_after g f x of (g', f') \<Rightarrow> map_option ((@) s) (wdb_renders D g' f' xs)))"

text \<open>
  A sequence of calls succeeds exactly when every call can be rendered and the whole text
  fits, and then it has appended that text.
\<close>

lemma wdb_execs_renders:
  assumes "wdb_inv c"
  shows "case wdb_renders D (wd_got_key c) (wd_is_first_val c) xs of
      None \<Rightarrow> \<exists>r c'. wdb_execs D c xs = Inr (r, c') \<and> r \<noteq> wdb_ok
    | Some s \<Rightarrow> if length s \<le> wdb_room c
        then \<exists>c'. wdb_execs D c xs = Inr (wdb_ok, c') \<and> wdb_inv c' \<and> wdb_text c' = wdb_text c @ s \<and>
          wd_mlen c' = wd_mlen c
        else \<exists>r c'. wdb_execs D c xs = Inr (r, c') \<and> r \<noteq> wdb_ok"
  using assms
proof (induction xs arbitrary: c)
  case Nil
  then show ?case by simp
next
  case (Cons x xs)
  obtain r c1 where exec: "wdb_exec D c x = Inr (r, c1)" and spec: "wdb_call_spec D c x r c1"
    using wdb_exec_spec[OF Cons.prems] by blast
  show ?case
  proof (cases "wdb_render D (wd_got_key c) (wd_is_first_val c) x")
    case None
    with spec exec show ?thesis by (simp add: wdb_call_spec_def wdb_check_def)
  next
    case (Some s)
    show ?thesis
    proof (cases "length s \<le> wdb_room c")
      case False
      with Some spec exec show ?thesis
        by (auto simp: wdb_call_spec_def wdb_check_def split: option.splits prod.splits)
    next
      case True
      with Some spec have ok: "r = wdb_ok" "wdb_inv c1" "wdb_text c1 = wdb_text c @ s" "wd_mlen c1 = wd_mlen c"
        and flags: "wdb_flags_after (wd_got_key c) (wd_is_first_val c) x = (wd_got_key c1, wd_is_first_val c1)"
        by (auto simp: wdb_call_spec_def)
      have "wd_len c1 = wd_len c + length s"
        using arg_cong[OF ok(3), of length] ok(2) Cons.prems by (auto simp: wdb_text_def wdb_inv_def)
      then have "wdb_room c1 = wdb_room c - length s" using ok by (simp add: wdb_room_def)
      with Cons.IH[OF ok(2)] True Some ok exec flags show ?thesis
        by (auto simp: wdb_check_def split: option.splits if_splits)
    qed
  qed
qed


lemma wdb_init_ok:
  "\<exists>c. wdb_init buf (length buf) = Inr c \<and> wdb_inv c \<and> \<not> wd_got_key c \<and> \<not> wd_is_first_val c \<and>
     wdb_text c = [] \<and> wdb_room c = length buf \<and> wd_mlen c = length buf"
  by (auto simp: wdb_init_def wdb_inv_def wdb_text_def wdb_room_def)

section \<open>Properties\<close>

text \<open>
  C30: Every call of the writer on a good context returns (no fault, no access outside the
  buffer) and does what its rendering says: where the call can be rendered and the text fits,
  the answer is \<^verbatim>\<open>ok\<close> and exactly that text is appended; where it cannot, an error, and
  where it does not fit, \<^verbatim>\<open>overflow\<close>, both with the text rolled back to what it was.
\<close>

theorem wdb_call_contract:
  assumes "wdb_inv c"
  shows "\<exists>r c'. wdb_exec D c x = Inr (r, c') \<and> wdb_call_spec D c x r c'"
  using assms by (rule wdb_exec_spec)

theorem wdb_call_contract_witness:
  "\<exists>r c'. wdb_exec int_double \<lparr>wd_out = ''k: xxxxx'', wd_mlen = 8, wd_len = 3, wd_got_key = True, wd_is_first_val = True\<rparr>
      (Wint 42) = Inr (r, c') \<and>
    wdb_call_spec int_double \<lparr>wd_out = ''k: xxxxx'', wd_mlen = 8, wd_len = 3, wd_got_key = True, wd_is_first_val = True\<rparr>
      (Wint 42) r c'"
  by (rule wdb_call_contract) code_simp

text \<open>
  C31: A sequence of calls succeeds exactly when every call of it can be rendered and the whole
  text fits the rest of the buffer, and then the text is what was there followed by the
  renderings in order.
\<close>

theorem wdb_sequence_contract:
  assumes "wdb_inv c"
  shows "case wdb_renders D (wd_got_key c) (wd_is_first_val c) xs of
      None \<Rightarrow> \<exists>r c'. wdb_execs D c xs = Inr (r, c') \<and> r \<noteq> wdb_ok
    | Some s \<Rightarrow> if length s \<le> wdb_room c
        then \<exists>c'. wdb_execs D c xs = Inr (wdb_ok, c') \<and> wdb_inv c' \<and> wdb_text c' = wdb_text c @ s \<and>
          wd_mlen c' = wd_mlen c
        else \<exists>r c'. wdb_execs D c xs = Inr (r, c') \<and> r \<noteq> wdb_ok"
  using assms by (rule wdb_execs_renders)

theorem wdb_sequence_contract_witness:
  "\<exists>c'. wdb_execs int_double \<lparr>wd_out = replicate 12 NUL, wd_mlen = 12, wd_len = 0, wd_got_key = False, wd_is_first_val = False\<rparr>
      [Wkey ''k'', Wbool True, Wfin] = Inr (wdb_ok, c') \<and> wdb_text c' = ''k: true'' @ [NL, NUL]"
proof -
  let ?c = "\<lparr>wd_out = replicate 12 NUL, wd_mlen = 12, wd_len = 0, wd_got_key = False, wd_is_first_val = False\<rparr>"
  have "wdb_inv ?c" "wdb_renders int_double False False [Wkey ''k'', Wbool True, Wfin] = Some (''k: true'' @ [NL, NUL])"
    "length (''k: true'' @ [NL, NUL]) \<le> wdb_room ?c" "wdb_text ?c = []"
    by code_simp+
  with wdb_sequence_contract[of ?c int_double "[Wkey ''k'', Wbool True, Wfin]"] show ?thesis
    by (auto simp del: wdb_renders.simps wdb_execs.simps)
qed

text \<open>
  The rollback is incomplete: a first value that is refused leaves the text alone but
  clears the mark for the first value, so the next value starts with a separator.
\<close>

theorem wdb_rollback_loses_first:
  assumes inv: "wdb_inv c" and key: "wd_got_key c" and first: "wd_is_first_val c" and v: "\<not> wdb_valid wdb_str_ch v"
    and room: "0 < wdb_room c"
  shows "\<exists>r c'. wdb_str c v = Inr (r, c') \<and> r \<noteq> wdb_ok \<and> wdb_text c' = wdb_text c \<and> \<not> wd_is_first_val c' \<and>
    wdb_render D (wd_got_key c') (wd_is_first_val c') (Wbool True) = Some '', true''"
proof -
  let ?c = "(wdb_put c [DQ])\<lparr>wd_is_first_val := False\<rparr>"
  have c: "wdb_inv ?c" "wd_len c \<le> wd_len ?c"
    using inv room wdb.inv_put[of c "[DQ]"] by (simp_all add: wdb_put_def)
  from wdb_chars_spec[OF c, of wdb_str_ch v] v obtain r c' where
    r: "wdb_chars wdb_str_ch (wd_len c) ?c v = Inr (r, c')" "r \<noteq> wdb_ok" and roll: "wdb_rolled_to (wd_len c) ?c c'"
    by auto
  have "wdb_text c' = wdb_text c" "\<not> wd_is_first_val c'" "wd_got_key c'"
    using roll key inv room by (auto simp: wdb_rolled_to_def wdb_defs take_overwrite_prefix)
  moreover have "wdb_str c v = Inr (r, c')"
    using r inv key first room
    by (simp add: wdb_str_def Let_def wdb_value_opening wdb_sep_def wdb.put_Nil wdb_restore_ch wdb_check_def)
  ultimately show ?thesis using r(2) by (auto simp: wdb_render_val_def)
qed

theorem wdb_rollback_loses_first_witness:
  "\<exists>r c'. wdb_str \<lparr>wd_out = ''k: xxxxx'', wd_mlen = 8, wd_len = 3, wd_got_key = True, wd_is_first_val = True\<rparr> [CHR 0x01]
      = Inr (r, c') \<and> r \<noteq> wdb_ok \<and>
    wdb_text c' = wdb_text \<lparr>wd_out = ''k: xxxxx'', wd_mlen = 8, wd_len = 3, wd_got_key = True, wd_is_first_val = True\<rparr> \<and>
    \<not> wd_is_first_val c' \<and>
    wdb_render int_double (wd_got_key c') (wd_is_first_val c') (Wbool True) = Some '', true''"
  by (rule wdb_rollback_loses_first) code_simp+

end
