(* ===== verification/Rdb.thy ===== *)
theory Rdb
  imports Prelude
begin

text \<open>
  The reader of the database format (\<^verbatim>\<open>src/src/rdb.h\<close>, \<^verbatim>\<open>src/src/rdb.c\<close>): a state machine
  fed one character at a time. Every function of the file is here, with the union of
  per-state data as a datatype, the writes to the caller's string buffer checked against its
  bounds and the \<^verbatim>\<open>int\<close> arithmetic checked against its range. The theorems: no state the
  reader can reach panics, leaves the buffer or reads an inactive union member; what a
  character does in each state; which inputs are taken for booleans.
\<close>

section \<open>Types\<close>

datatype rdb_ty = rdb_incomplete | Rdb_key | Rdb_str | Rdb_num | Rdb_bool

datatype rdb_next_res = rdb_next_syntax | rdb_next_fin | rdb_next_ok

datatype rdb_st = Rst_idle | Rst_key | Rst_str | Rst_long_str | Rst_num | Rst_bool

datatype rdb_num_part = Num_int | Num_frac | Num_exp

record rdb_sd_str =
  ss_len :: nat
  ss_is_escape :: bool

record rdb_sd_long_str =
  ls_len :: nat
  ls_is_escape :: bool
  ls_skip_whitespace :: bool
  ls_keep_last_newline :: bool

record 'd rdb_sd_num =
  sn_is_negative :: bool
  sn_got_sign :: bool
  sn_got_int_explicit :: bool
  sn_num :: 'd
  sn_exp_is_negative :: bool
  sn_exp :: int
  sn_pos :: int
  sn_part :: rdb_num_part

text \<open>
  The union \<^verbatim>\<open>sd\<close>: the constructor is the member last written. \<open>Sd_zero\<close> is the union
  after the \<^verbatim>\<open>memset\<close> of \<^verbatim>\<open>rdb_init\<close>. The member of a boolean is the array \<^verbatim>\<open>word\<close>
  of 6 bytes with the count \<^verbatim>\<open>wlen\<close>; only the first \<^verbatim>\<open>wlen\<close> bytes are ever read, and
  \<open>Sd_bool\<close> holds these.
\<close>

datatype 'd rdb_sd =
    Sd_zero
  | Sd_key nat
  | Sd_str rdb_sd_str
  | Sd_long_str rdb_sd_long_str
  | Sd_num "'d rdb_sd_num"
  | Sd_bool string

definition rdb_word_size :: nat where "rdb_word_size = 6"

record 'd rdb_ctx =
  rd_str_out :: string
  rd_str_mlen :: nat
  rd_pos :: nat
  rd_ty :: rdb_ty
  rd_st :: rdb_st
  rd_is_in_arr :: bool
  rd_got_key :: bool
  rd_expect_colon :: bool
  rd_got_first_val :: bool
  rd_sd :: "'d rdb_sd"

type_synonym 'd rdb_ret = "(rdb_next_res \<times> 'd rdb_ctx) outcome"

definition rdb_sd_key :: "'d rdb_ctx \<Rightarrow> nat outcome" where
  "rdb_sd_key c = (case rd_sd c of Sd_key n \<Rightarrow> Inr n | Sd_zero \<Rightarrow> Inr 0 | _ \<Rightarrow> Inl Inactive_member)"

definition rdb_sd_str_m :: "'d rdb_ctx \<Rightarrow> rdb_sd_str outcome" where
  "rdb_sd_str_m c = (case rd_sd c of Sd_str s \<Rightarrow> Inr s
     | Sd_zero \<Rightarrow> Inr \<lparr>ss_len = 0, ss_is_escape = False\<rparr> | _ \<Rightarrow> Inl Inactive_member)"

definition rdb_sd_long_str_m :: "'d rdb_ctx \<Rightarrow> rdb_sd_long_str outcome" where
  "rdb_sd_long_str_m c = (case rd_sd c of Sd_long_str s \<Rightarrow> Inr s
     | Sd_zero \<Rightarrow> Inr \<lparr>ls_len = 0, ls_is_escape = False, ls_skip_whitespace = False,
         ls_keep_last_newline = False\<rparr>
     | _ \<Rightarrow> Inl Inactive_member)"

definition rdb_num_zero :: "'d double_ops \<Rightarrow> 'd rdb_sd_num" where
  "rdb_num_zero D = \<lparr>sn_is_negative = False, sn_got_sign = False, sn_got_int_explicit = False,
     sn_num = d_of_int D 0, sn_exp_is_negative = False, sn_exp = 0, sn_pos = 0, sn_part = Num_int\<rparr>"

definition rdb_sd_num_m :: "'d double_ops \<Rightarrow> 'd rdb_ctx \<Rightarrow> 'd rdb_sd_num outcome" where
  "rdb_sd_num_m D c = (case rd_sd c of Sd_num n \<Rightarrow> Inr n
     | Sd_zero \<Rightarrow> Inr (rdb_num_zero D) | _ \<Rightarrow> Inl Inactive_member)"

definition rdb_sd_bool_m :: "'d rdb_ctx \<Rightarrow> string outcome" where
  "rdb_sd_bool_m c = (case rd_sd c of Sd_bool w \<Rightarrow> Inr w | Sd_zero \<Rightarrow> Inr [] | _ \<Rightarrow> Inl Inactive_member)"

section \<open>Helpers\<close>

definition rdb_assert_st :: "'d rdb_ctx \<Rightarrow> rdb_st \<Rightarrow> 'd rdb_ret \<Rightarrow> 'd rdb_ret" where
  "rdb_assert_st c expected k = (if rd_st c \<noteq> expected then sob_panic else k)"

definition rdb_escape_ch :: "char \<Rightarrow> char" where
  "rdb_escape_ch ch =
     (if ch = CHR ''n'' then NL else if ch = CHR ''r'' then CR
      else if ch = CHR ''t'' then TAB else ch)"

definition rdb_is_separator :: "char \<Rightarrow> bool" where
  [char_defs]: "rdb_is_separator ch \<longleftrightarrow>
     ch = SPC \<or> ch = TAB \<or> ch = CHR '','' \<or> ch = NL \<or> ch = NUL"

definition rdb_key_ch :: "char \<Rightarrow> bool" where
  [char_defs]: "rdb_key_ch ch \<longleftrightarrow>
     (schar (CHR ''a'') \<le> schar ch \<and> schar ch \<le> schar (CHR ''z'')) \<or>
     (schar (CHR ''A'') \<le> schar ch \<and> schar ch \<le> schar (CHR ''Z'')) \<or>
     (schar (CHR ''0'') \<le> schar ch \<and> schar ch \<le> schar (CHR ''9'')) \<or>
     ch = CHR ''.'' \<or> ch = CHR ''_'' \<or> ch = CHR ''-''"

definition rdb_set_st :: "'d double_ops \<Rightarrow> 'd rdb_ctx \<Rightarrow> rdb_st \<Rightarrow> 'd rdb_ctx outcome" where
  "rdb_set_st D c st =
     (let c = c\<lparr>rd_st := st\<rparr> in
      case st of
        Rst_idle \<Rightarrow> Inr (c\<lparr>rd_expect_colon := False\<rparr>)
      | Rst_key \<Rightarrow>
          and_then (poke (rd_str_out c) 0 NUL) (\<lambda>b.
          Inr (c\<lparr>rd_is_in_arr := False, rd_got_key := False, rd_expect_colon := False,
                 rd_got_first_val := False, rd_sd := Sd_key 0, rd_str_out := b\<rparr>))
      | Rst_str \<Rightarrow>
          and_then (poke (rd_str_out c) 0 NUL) (\<lambda>b.
          Inr (c\<lparr>rd_got_first_val := True,
                 rd_sd := Sd_str \<lparr>ss_len = 0, ss_is_escape = False\<rparr>, rd_str_out := b\<rparr>))
      | Rst_long_str \<Rightarrow>
          and_then (poke (rd_str_out c) 0 NUL) (\<lambda>b.
          Inr (c\<lparr>rd_got_first_val := True,
                 rd_sd := Sd_long_str \<lparr>ls_len = 0, ls_is_escape = False,
                   ls_skip_whitespace = True, ls_keep_last_newline = False\<rparr>,
                 rd_str_out := b\<rparr>))
      | Rst_num \<Rightarrow> Inr (c\<lparr>rd_got_first_val := True, rd_sd := Sd_num (rdb_num_zero D)\<rparr>)
      | Rst_bool \<Rightarrow> Inr (c\<lparr>rd_got_first_val := True, rd_sd := Sd_bool []\<rparr>))"

section \<open>The state functions\<close>

definition rdb_init :: "string \<Rightarrow> nat \<Rightarrow> 'd rdb_ctx" where
  "rdb_init str_out_buf str_maxlen =
     \<lparr>rd_str_out = str_out_buf, rd_str_mlen = str_maxlen, rd_pos = 0, rd_ty = rdb_incomplete,
      rd_st = Rst_idle, rd_is_in_arr = False, rd_got_key = False, rd_expect_colon = False,
      rd_got_first_val = False, rd_sd = Sd_zero\<rparr>"

text \<open>
  What every value state does at the separator that ends the value: report it, go back to
  idle and look at the separator.
\<close>

definition rdb_val_end :: "'d double_ops \<Rightarrow> 'd rdb_ctx \<Rightarrow> rdb_ty \<Rightarrow> char \<Rightarrow> 'd rdb_ret" where
  "rdb_val_end D c ty ch =
     and_then (rdb_set_st D (c\<lparr>rd_ty := ty\<rparr>) Rst_idle) (\<lambda>c.
     let c = c\<lparr>rd_is_in_arr := (ch = CHR '',''), rd_got_key := (ch \<noteq> NL), rd_got_first_val := True\<rparr> in
     Inr (if ch = NUL then rdb_next_fin else rdb_next_ok, c))"

definition rdb_next_key :: "'d double_ops \<Rightarrow> 'd rdb_ctx \<Rightarrow> char \<Rightarrow> 'd rdb_ret" where
  "rdb_next_key D c ch =
     rdb_assert_st c Rst_key (and_then (rdb_sd_key c) (\<lambda>len.
     if ch = CHR '':'' \<or> ch = SPC \<or> ch = TAB then
       if len > 0 then
         if len < rd_str_mlen c then
           and_then (poke (rd_str_out c) len NUL) (\<lambda>b.
           and_then (rdb_set_st D (c\<lparr>rd_str_out := b, rd_sd := Sd_key (len + 1), rd_ty := Rdb_key\<rparr>) Rst_idle) (\<lambda>c.
           Inr (rdb_next_ok, c\<lparr>rd_expect_colon := (ch \<noteq> CHR '':''), rd_got_key := True,
                               rd_got_first_val := False, rd_is_in_arr := False\<rparr>)))
         else Inr (rdb_next_syntax, c)
       else Inr (rdb_next_syntax, c)
     else if \<not> rdb_key_ch ch then Inr (rdb_next_syntax, c)
     else if len < rd_str_mlen c then
       and_then (poke (rd_str_out c) len ch) (\<lambda>b.
       Inr (rdb_next_ok, c\<lparr>rd_str_out := b, rd_sd := Sd_key (len + 1)\<rparr>))
     else Inr (rdb_next_syntax, c)))"

definition rdb_next_str :: "'d double_ops \<Rightarrow> 'd rdb_ctx \<Rightarrow> char \<Rightarrow> 'd rdb_ret" where
  "rdb_next_str D c ch =
     rdb_assert_st c Rst_str (and_then (rdb_sd_str_m c) (\<lambda>sd.
     if is_ctrl ch \<and> ch \<noteq> TAB then Inr (rdb_next_syntax, c)
     else if \<not> ss_is_escape sd \<and> ch = DQ then
       if ss_len sd < rd_str_mlen c then
         and_then (poke (rd_str_out c) (ss_len sd) NUL) (\<lambda>b.
         and_then (rdb_set_st D (c\<lparr>rd_str_out := b, rd_sd := Sd_str (sd\<lparr>ss_len := ss_len sd + 1\<rparr>),
                                   rd_ty := Rdb_str\<rparr>) Rst_idle) (\<lambda>c.
         Inr (rdb_next_ok, c\<lparr>rd_got_key := (ch \<noteq> NL), rd_got_first_val := True\<rparr>)))
       else Inr (rdb_next_syntax, c)
     else if \<not> ss_is_escape sd \<and> ch = BSL then
       Inr (rdb_next_ok, c\<lparr>rd_sd := Sd_str (sd\<lparr>ss_is_escape := True\<rparr>)\<rparr>)
     else
       let ch' = (if ss_is_escape sd then rdb_escape_ch ch else ch);
           sd = sd\<lparr>ss_is_escape := False\<rparr>;
           c = c\<lparr>rd_sd := Sd_str sd\<rparr> in
       if ss_len sd < rd_str_mlen c then
         and_then (poke (rd_str_out c) (ss_len sd) ch') (\<lambda>b.
         Inr (rdb_next_ok, c\<lparr>rd_str_out := b, rd_sd := Sd_str (sd\<lparr>ss_len := ss_len sd + 1\<rparr>)\<rparr>))
       else Inr (rdb_next_syntax, c)))"

definition rdb_long_str_store :: "'d rdb_ctx \<Rightarrow> rdb_sd_long_str \<Rightarrow> char \<Rightarrow> 'd rdb_ret" where
  "rdb_long_str_store c sd ch =
     (let c = c\<lparr>rd_sd := Sd_long_str sd\<rparr> in
      if ls_len sd < rd_str_mlen c then
        and_then (poke (rd_str_out c) (ls_len sd) ch) (\<lambda>b.
        Inr (rdb_next_ok, c\<lparr>rd_str_out := b,
          rd_sd := Sd_long_str (sd\<lparr>ls_len := ls_len sd + 1, ls_skip_whitespace := False\<rparr>)\<rparr>))
      else Inr (rdb_next_syntax, c))"

definition rdb_long_str_end :: "'d double_ops \<Rightarrow> 'd rdb_ctx \<Rightarrow> rdb_sd_long_str \<Rightarrow> char \<Rightarrow> 'd rdb_ret" where
  "rdb_long_str_end D c sd ch =
     and_then (if ls_len sd > 0 then
                 and_then (peek (rd_str_out c) (ls_len sd - 1)) (\<lambda>last.
                 Inr (last = NL \<and> \<not> ls_keep_last_newline sd))
               else Inr False) (\<lambda>drop.
     let sd = (if drop then sd\<lparr>ls_len := ls_len sd - 1\<rparr> else sd);
         c = c\<lparr>rd_sd := Sd_long_str sd\<rparr> in
     if ls_len sd < rd_str_mlen c then
       and_then (poke (rd_str_out c) (ls_len sd) NUL) (\<lambda>b.
       and_then (rdb_set_st D (c\<lparr>rd_str_out := b, rd_sd := Sd_long_str (sd\<lparr>ls_len := ls_len sd + 1\<rparr>),
                                 rd_ty := Rdb_str\<rparr>) Rst_idle) (\<lambda>c.
       Inr (rdb_next_ok, c\<lparr>rd_got_key := (ch \<noteq> NL), rd_got_first_val := True\<rparr>)))
     else Inr (rdb_next_syntax, c))"

definition rdb_next_long_str :: "'d double_ops \<Rightarrow> 'd rdb_ctx \<Rightarrow> char \<Rightarrow> 'd rdb_ret" where
  "rdb_next_long_str D c ch =
     rdb_assert_st c Rst_long_str (and_then (rdb_sd_long_str_m c) (\<lambda>sd.
     if is_ctrl ch \<and> ch \<noteq> TAB \<and> ch \<noteq> NL then Inr (rdb_next_syntax, c)
     else if \<not> ls_is_escape sd then
       if ch = CHR ''>'' then rdb_long_str_end D c sd ch
       else if ch = BSL then
         Inr (rdb_next_ok, c\<lparr>rd_sd := Sd_long_str (sd\<lparr>ls_is_escape := True, ls_skip_whitespace := False\<rparr>)\<rparr>)
       else if (ch = SPC \<or> ch = TAB \<or> ch = NL) \<and> ls_skip_whitespace sd then
         Inr (rdb_next_ok, c\<lparr>rd_sd := Sd_long_str
           (sd\<lparr>ls_skip_whitespace := (ch \<noteq> NL), ls_keep_last_newline := True\<rparr>)\<rparr>)
       else rdb_long_str_store c (sd\<lparr>ls_keep_last_newline := False\<rparr>) ch
     else
       let ch' = rdb_escape_ch ch in
       rdb_long_str_store c (sd\<lparr>ls_is_escape := False, ls_keep_last_newline := (ch' = NL)\<rparr>) ch'))"

definition rdb_num_to_exp :: "'d rdb_sd_num \<Rightarrow> 'd rdb_sd_num" where
  "rdb_num_to_exp sd = sd\<lparr>sn_pos := 0, sn_exp := 0, sn_exp_is_negative := False,
     sn_got_sign := False, sn_got_int_explicit := False, sn_part := Num_exp\<rparr>"

definition rdb_next_num_int :: "'d double_ops \<Rightarrow> 'd rdb_ctx \<Rightarrow> char \<Rightarrow> 'd rdb_ret" where
  "rdb_next_num_int D c ch =
     and_then (rdb_sd_num_m D c) (\<lambda>sd.
     if is_digit ch then
       let sd = sd\<lparr>sn_got_int_explicit := True\<rparr> in
       if sn_pos sd = 0 \<and> ch = CHR ''0'' then Inr (rdb_next_ok, c\<lparr>rd_sd := Sd_num sd\<rparr>)
       else
         and_then (c_int (sn_pos sd + 1)) (\<lambda>p.
         Inr (rdb_next_ok, c\<lparr>rd_sd := Sd_num (sd\<lparr>
           sn_num := d_add D (d_mul D (sn_num sd) (d_of_int D 10)) (d_of_int D (digit_val ch)),
           sn_pos := p\<rparr>)\<rparr>))
     else if ch = CHR ''-'' \<or> ch = CHR ''+'' then
       if sn_pos sd = 0 \<and> \<not> sn_got_sign sd then
         Inr (rdb_next_ok, c\<lparr>rd_sd := Sd_num (sd\<lparr>sn_is_negative := (ch = CHR ''-''), sn_got_sign := True\<rparr>)\<rparr>)
       else Inr (rdb_next_syntax, c)
     else if ch = CHR ''.'' then
       if sn_got_int_explicit sd \<or> \<not> sn_got_sign sd then
         Inr (rdb_next_ok, c\<lparr>rd_sd := Sd_num (sd\<lparr>sn_pos := 1, sn_part := Num_frac\<rparr>)\<rparr>)
       else Inr (rdb_next_syntax, c)
     else if ch = CHR ''e'' \<or> ch = CHR ''E'' then
       if sn_pos sd > 0 \<or> \<not> sn_got_sign sd then
         Inr (rdb_next_ok, c\<lparr>rd_sd := Sd_num (rdb_num_to_exp sd)\<rparr>)
       else Inr (rdb_next_syntax, c)
     else if rdb_is_separator ch then
       if sn_pos sd > 0 \<or> \<not> sn_got_sign sd then rdb_val_end D c Rdb_num ch
       else Inr (rdb_next_syntax, c)
     else Inr (rdb_next_syntax, c))"

definition rdb_next_num_frac :: "'d double_ops \<Rightarrow> 'd rdb_ctx \<Rightarrow> char \<Rightarrow> 'd rdb_ret" where
  "rdb_next_num_frac D c ch =
     and_then (rdb_sd_num_m D c) (\<lambda>sd.
     if is_digit ch then
       and_then (c_int (sn_pos sd + 1)) (\<lambda>p.
       Inr (rdb_next_ok, c\<lparr>rd_sd := Sd_num (sd\<lparr>
         sn_num := d_add D (sn_num sd) (d_mul D (d_of_int D (digit_val ch)) (d_pow10 D (- sn_pos sd))),
         sn_pos := p\<rparr>)\<rparr>))
     else if ch = CHR ''e'' \<or> ch = CHR ''E'' then
       if sn_pos sd \<ge> 2 then Inr (rdb_next_ok, c\<lparr>rd_sd := Sd_num (rdb_num_to_exp sd)\<rparr>)
       else Inr (rdb_next_syntax, c)
     else if rdb_is_separator ch then
       if sn_pos sd \<ge> 2 \<or> sn_got_int_explicit sd then rdb_val_end D c Rdb_num ch
       else Inr (rdb_next_syntax, c)
     else Inr (rdb_next_syntax, c))"

definition rdb_next_num_exp :: "'d double_ops \<Rightarrow> 'd rdb_ctx \<Rightarrow> char \<Rightarrow> 'd rdb_ret" where
  "rdb_next_num_exp D c ch =
     and_then (rdb_sd_num_m D c) (\<lambda>sd.
     if is_digit ch then
       let sd = sd\<lparr>sn_got_int_explicit := True\<rparr> in
       if sn_pos sd = 0 \<and> ch = CHR ''0'' then Inr (rdb_next_ok, c\<lparr>rd_sd := Sd_num sd\<rparr>)
       else
         and_then (c_int (sn_exp sd * 10)) (\<lambda>e10.
         and_then (c_int (e10 + digit_val ch)) (\<lambda>e.
         and_then (c_int (sn_pos sd + 1)) (\<lambda>p.
         Inr (rdb_next_ok, c\<lparr>rd_sd := Sd_num (sd\<lparr>sn_exp := e, sn_pos := p\<rparr>)\<rparr>))))
     else if ch = CHR ''-'' \<or> ch = CHR ''+'' then
       if sn_pos sd = 0 \<and> \<not> sn_got_sign sd then
         Inr (rdb_next_ok, c\<lparr>rd_sd := Sd_num (sd\<lparr>sn_exp_is_negative := (ch = CHR ''-''), sn_got_sign := True\<rparr>)\<rparr>)
       else Inr (rdb_next_syntax, c)
     else if rdb_is_separator ch then
       if sn_pos sd > 0 then rdb_val_end D c Rdb_num ch
       else Inr (rdb_next_syntax, c)
     else Inr (rdb_next_syntax, c))"

definition rdb_next_num :: "'d double_ops \<Rightarrow> 'd rdb_ctx \<Rightarrow> char \<Rightarrow> 'd rdb_ret" where
  "rdb_next_num D c ch =
     rdb_assert_st c Rst_num (and_then (rdb_sd_num_m D c) (\<lambda>sd.
     case sn_part sd of
       Num_int \<Rightarrow> rdb_next_num_int D c ch
     | Num_frac \<Rightarrow> rdb_next_num_frac D c ch
     | Num_exp \<Rightarrow> rdb_next_num_exp D c ch))"

definition rdb_next_bool :: "'d double_ops \<Rightarrow> 'd rdb_ctx \<Rightarrow> char \<Rightarrow> 'd rdb_ret" where
  "rdb_next_bool D c ch =
     rdb_assert_st c Rst_bool (and_then (rdb_sd_bool_m c) (\<lambda>word.
     if rdb_is_separator ch then
       if strncmp_eq (length word) word ''true'' \<or> strncmp_eq (length word) word ''false''
       then rdb_val_end D c Rdb_bool ch
       else Inr (rdb_next_syntax, c)
     else if length word < rdb_word_size then
       Inr (rdb_next_ok, c\<lparr>rd_sd := Sd_bool (word @ [ch])\<rparr>)
     else Inr (rdb_next_syntax, c)))"

definition rdb_next_idle :: "'d double_ops \<Rightarrow> 'd rdb_ctx \<Rightarrow> char \<Rightarrow> 'd rdb_ret" where
  "rdb_next_idle D c ch =
     (let is_val_expected = rd_got_key c \<and> (rd_is_in_arr c \<or> \<not> rd_got_first_val c) \<and>
        \<not> rd_expect_colon c in
      rdb_assert_st c Rst_idle (
      if is_digit ch \<or> ch = CHR ''-'' \<or> ch = CHR ''+'' \<or> ch = CHR ''.'' then
        if is_val_expected then and_then (rdb_set_st D c Rst_num) (\<lambda>c. rdb_next_num D c ch)
        else Inr (rdb_next_syntax, c)
      else if ch = CHR '':'' then
        if rd_expect_colon c then Inr (rdb_next_ok, c\<lparr>rd_expect_colon := False\<rparr>)
        else Inr (rdb_next_syntax, c)
      else if ch = DQ then
        if is_val_expected then and_then (rdb_set_st D c Rst_str) (\<lambda>c. Inr (rdb_next_ok, c))
        else Inr (rdb_next_syntax, c)
      else if ch = CHR ''<'' then
        if is_val_expected then and_then (rdb_set_st D c Rst_long_str) (\<lambda>c. Inr (rdb_next_ok, c))
        else Inr (rdb_next_syntax, c)
      else if ch = CHR '','' then Inr (rdb_next_ok, c\<lparr>rd_is_in_arr := True\<rparr>)
      else if ch = NL then
        Inr (rdb_next_ok, c\<lparr>rd_is_in_arr := False, rd_got_key := False, rd_got_first_val := False\<rparr>)
      else if ch = NUL then
        Inr (rdb_next_fin, c\<lparr>rd_is_in_arr := False, rd_got_key := False, rd_got_first_val := False\<rparr>)
      else if ch = SPC \<or> ch = TAB then Inr (rdb_next_ok, c)
      else if \<not> rd_got_key c then and_then (rdb_set_st D c Rst_key) (\<lambda>c. rdb_next_key D c ch)
      else if is_val_expected then and_then (rdb_set_st D c Rst_bool) (\<lambda>c. rdb_next_bool D c ch)
      else Inr (rdb_next_syntax, c)))"

definition rdb_dispatch :: "'d double_ops \<Rightarrow> 'd rdb_ctx \<Rightarrow> char \<Rightarrow> 'd rdb_ret" where
  "rdb_dispatch D c ch = (case rd_st c of
       Rst_idle \<Rightarrow> rdb_next_idle D c ch
     | Rst_key \<Rightarrow> rdb_next_key D c ch
     | Rst_str \<Rightarrow> rdb_next_str D c ch
     | Rst_long_str \<Rightarrow> rdb_next_long_str D c ch
     | Rst_num \<Rightarrow> rdb_next_num D c ch
     | Rst_bool \<Rightarrow> rdb_next_bool D c ch)"

definition rdb_next :: "'d double_ops \<Rightarrow> 'd rdb_ctx \<Rightarrow> char \<Rightarrow> 'd rdb_ret" where
  "rdb_next D c ch =
     and_then (rdb_dispatch D (c\<lparr>rd_ty := rdb_incomplete\<rparr>) ch) (\<lambda>(r, c).
     Inr (r, if r \<noteq> rdb_next_syntax then c\<lparr>rd_pos := rd_pos c + 1\<rparr> else c))"

section \<open>Accessors and the driver of the demo\<close>

definition rdb_cur_ty :: "'d rdb_ctx \<Rightarrow> rdb_ty" where
  "rdb_cur_ty c = rd_ty c"

definition rdb_cur_str :: "'d rdb_ctx \<Rightarrow> string" where
  "rdb_cur_str c = c_str (rd_str_out c)"

definition rdb_cur_num :: "'d double_ops \<Rightarrow> 'd rdb_ctx \<Rightarrow> 'd outcome" where
  "rdb_cur_num D c =
     and_then (rdb_sd_num_m D c) (\<lambda>sd.
     let exponent = (if sn_exp_is_negative sd then -1 else 1) * sn_exp sd in
     Inr (d_mul D (d_of_int D (if sn_is_negative sd then -1 else 1))
            (d_mul D (sn_num sd) (d_pow10 D exponent))))"

definition rdb_cur_is_true :: "'d rdb_ctx \<Rightarrow> bool outcome" where
  "rdb_cur_is_true c =
     and_then (rdb_sd_bool_m c) (\<lambda>word. Inr (strncmp_eq (length word) ''true'' word))"

datatype 'd rdb_tok = Tok_key string | Tok_str string | Tok_num 'd | Tok_bool bool

definition rdb_token :: "'d double_ops \<Rightarrow> 'd rdb_ctx \<Rightarrow> 'd rdb_tok list outcome" where
  "rdb_token D c = (case rdb_cur_ty c of
       rdb_incomplete \<Rightarrow> Inr []
     | Rdb_key \<Rightarrow> Inr [Tok_key (rdb_cur_str c)]
     | Rdb_str \<Rightarrow> Inr [Tok_str (rdb_cur_str c)]
     | Rdb_num \<Rightarrow> and_then (rdb_cur_num D c) (\<lambda>d. Inr [Tok_num d])
     | Rdb_bool \<Rightarrow> and_then (rdb_cur_is_true c) (\<lambda>b. Inr [Tok_bool b]))"

text \<open>
  The loop of the demo's \<^verbatim>\<open>main\<close> over the characters of a text and its terminator: the
  tokens it prints and whether it ends in \<^verbatim>\<open>fin\<close> (else a syntax error); running out of
  characters is its panic.
\<close>

fun rdb_run :: "'d double_ops \<Rightarrow> 'd rdb_ctx \<Rightarrow> string \<Rightarrow> (bool \<times> 'd rdb_tok list) outcome" where
  "rdb_run D c [] = sob_panic"
| "rdb_run D c (ch # s) =
     and_then (rdb_next D c ch) (\<lambda>(r, c).
     if r = rdb_next_syntax then Inr (False, [])
     else and_then (rdb_token D c) (\<lambda>t.
       if r = rdb_next_fin then Inr (True, t)
       else and_then (rdb_run D c s) (\<lambda>(ok, ts). Inr (ok, t @ ts))))"

section \<open>The invariant\<close>

definition rdb_sd_ok :: "'d rdb_ctx \<Rightarrow> bool" where
  "rdb_sd_ok c = (case rd_st c of
       Rst_idle \<Rightarrow> True
     | Rst_key \<Rightarrow> (\<exists>n. rd_sd c = Sd_key n \<and> n \<le> rd_str_mlen c)
     | Rst_str \<Rightarrow> (\<exists>s. rd_sd c = Sd_str s \<and> ss_len s \<le> rd_str_mlen c)
     | Rst_long_str \<Rightarrow> (\<exists>s. rd_sd c = Sd_long_str s \<and> ls_len s \<le> rd_str_mlen c)
     | Rst_num \<Rightarrow> (\<exists>n. rd_sd c = Sd_num n \<and> 0 \<le> sn_pos n \<and> sn_pos n \<le> int_max \<and>
         0 \<le> sn_exp n \<and> sn_exp n \<le> int_max)
     | Rst_bool \<Rightarrow> (\<exists>w. rd_sd c = Sd_bool w \<and> length w \<le> rdb_word_size \<and> NUL \<notin> set w))"

definition rdb_ty_ok :: "'d rdb_ctx \<Rightarrow> bool" where
  "rdb_ty_ok c = (case rd_ty c of
       Rdb_num \<Rightarrow> (\<exists>n. rd_sd c = Sd_num n)
     | Rdb_bool \<Rightarrow> (\<exists>w. rd_sd c = Sd_bool w)
     | _ \<Rightarrow> True)"

definition rdb_inv :: "'d rdb_ctx \<Rightarrow> bool" where
  "rdb_inv c \<longleftrightarrow> length (rd_str_out c) = rd_str_mlen c \<and> 0 < rd_str_mlen c \<and> rdb_sd_ok c \<and> rdb_ty_ok c"

lemmas rdb_inv_defs = rdb_inv_def rdb_sd_ok_def rdb_ty_ok_def

lemma rdb_init_inv: "length b = n \<Longrightarrow> 0 < n \<Longrightarrow> rdb_inv (rdb_init b n)"
  by (simp add: rdb_inv_defs rdb_init_def)

text \<open>\<open>rdb_keeps F m\<close>: the only faults of \<open>m\<close> are those of \<open>F\<close>, and the context it
  returns is good again.\<close>

abbreviation rdb_keeps :: "fault set \<Rightarrow> 'd rdb_ret \<Rightarrow> bool" where
  "rdb_keeps F m \<equiv> allows F m (\<lambda>(r, c). rdb_inv c)"

lemma rdb_set_st_idle [simp]:
  "rdb_set_st D c Rst_idle = Inr (c\<lparr>rd_st := Rst_idle, rd_expect_colon := False\<rparr>)"
  by (simp add: rdb_set_st_def)

lemma rdb_val_end_keeps:
  "length (rd_str_out c) = rd_str_mlen c \<Longrightarrow> 0 < rd_str_mlen c \<Longrightarrow>
   (ty = Rdb_num \<and> (\<exists>n. rd_sd c = Sd_num n)) \<or> (ty = Rdb_bool \<and> (\<exists>w. rd_sd c = Sd_bool w)) \<Longrightarrow>
   rdb_keeps F (rdb_val_end D c ty ch)"
  by (auto simp: rdb_val_end_def rdb_inv_defs Let_def)

lemma rdb_next_key_keeps:
  "rdb_inv c \<Longrightarrow> rd_st c = Rst_key \<Longrightarrow> rdb_keeps F (rdb_next_key D c ch)"
  by (auto simp: rdb_next_key_def rdb_assert_st_def rdb_sd_key_def rdb_inv_defs split: rdb_ty.splits)

lemma rdb_next_str_keeps:
  "rdb_inv c \<Longrightarrow> rd_st c = Rst_str \<Longrightarrow> rdb_keeps F (rdb_next_str D c ch)"
  by (auto simp: rdb_next_str_def rdb_assert_st_def rdb_sd_str_m_def rdb_inv_defs Let_def
      split: rdb_ty.splits)

lemma rdb_long_str_store_keeps:
  "rdb_inv c \<Longrightarrow> rd_st c = Rst_long_str \<Longrightarrow> ls_len sd \<le> rd_str_mlen c \<Longrightarrow>
   rdb_keeps F (rdb_long_str_store c sd ch)"
  by (auto simp: rdb_long_str_store_def rdb_inv_defs Let_def split: rdb_ty.splits)

lemma rdb_long_str_end_keeps:
  "rdb_inv c \<Longrightarrow> rd_st c = Rst_long_str \<Longrightarrow> ls_len sd \<le> rd_str_mlen c \<Longrightarrow>
   rdb_keeps F (rdb_long_str_end D c sd ch)"
  by (auto simp: rdb_long_str_end_def rdb_inv_defs Let_def split: rdb_ty.splits)

lemma rdb_next_long_str_keeps:
  assumes "rdb_inv c" "rd_st c = Rst_long_str"
  shows "rdb_keeps F (rdb_next_long_str D c ch)"
proof -
  from assms obtain sd where sd: "rd_sd c = Sd_long_str sd" "ls_len sd \<le> rd_str_mlen c"
    by (auto simp: rdb_inv_defs)
  with assms show ?thesis
    using rdb_long_str_store_keeps[OF assms] rdb_long_str_end_keeps[OF assms sd(2)]
    by (auto simp: rdb_next_long_str_def rdb_assert_st_def rdb_sd_long_str_m_def Let_def)
      (auto simp: rdb_inv_defs split: rdb_ty.splits)
qed

lemma rdb_next_num_part_keeps:
  assumes inv: "rdb_inv c" "rd_st c = Rst_num" "rd_ty c = rdb_incomplete" and ov: "is_digit ch \<Longrightarrow> Signed_overflow \<in> F"
  shows "rdb_keeps F (rdb_next_num_int D c ch)" "rdb_keeps F (rdb_next_num_frac D c ch)"
    "rdb_keeps F (rdb_next_num_exp D c ch)"
proof -
  from inv obtain n where n: "rd_sd c = Sd_num n" "0 \<le> sn_pos n" "sn_pos n \<le> int_max"
      "0 \<le> sn_exp n" "sn_exp n \<le> int_max"
    and buf: "length (rd_str_out c) = rd_str_mlen c" "0 < rd_str_mlen c"
    by (auto simp: rdb_inv_defs)
  have e: "rdb_keeps F (rdb_val_end D c Rdb_num ch)"
    using buf n by (intro rdb_val_end_keeps) auto
  note defs = rdb_inv_defs rdb_sd_num_m_def c_int_def Let_def rdb_num_to_exp_def int_max_def
  show "rdb_keeps F (rdb_next_num_int D c ch)"
    using inv n e ov by (auto simp: rdb_next_num_int_def defs)
  show "rdb_keeps F (rdb_next_num_frac D c ch)"
    using inv n e ov by (auto simp: rdb_next_num_frac_def defs)
  show "rdb_keeps F (rdb_next_num_exp D c ch)"
    using inv n e ov by (auto simp: rdb_next_num_exp_def defs dest: digit_val_range)
qed

lemma rdb_next_num_keeps:
  assumes "rdb_inv c" "rd_st c = Rst_num" "rd_ty c = rdb_incomplete" and "is_digit ch \<Longrightarrow> Signed_overflow \<in> F"
  shows "rdb_keeps F (rdb_next_num D c ch)"
proof -
  from assms obtain n where "rd_sd c = Sd_num n" by (auto simp: rdb_inv_defs)
  with assms show ?thesis
    using rdb_next_num_part_keeps[OF assms, where D = D]
    by (auto simp: rdb_next_num_def rdb_assert_st_def rdb_sd_num_m_def split: rdb_num_part.splits)
qed

lemma rdb_next_bool_keeps:
  assumes "rdb_inv c" "rd_st c = Rst_bool" "rd_ty c = rdb_incomplete"
  shows "rdb_keeps F (rdb_next_bool D c ch)"
proof -
  from assms obtain w where w: "rd_sd c = Sd_bool w"
    and "length (rd_str_out c) = rd_str_mlen c" "0 < rd_str_mlen c"
    by (auto simp: rdb_inv_defs)
  then have "rdb_keeps F (rdb_val_end D c Rdb_bool ch)" by (intro rdb_val_end_keeps) auto
  with assms w show ?thesis
    by (auto simp: rdb_next_bool_def rdb_assert_st_def rdb_sd_bool_m_def)
      (auto simp: rdb_inv_defs rdb_is_separator_def)
qed

text \<open>The first character of a number cannot overflow anything.\<close>

lemma rdb_next_num_first_keeps:
  assumes "rdb_inv c" "rd_st c = Rst_num" "rd_ty c = rdb_incomplete" "rd_sd c = Sd_num (rdb_num_zero D)"
  shows "rdb_keeps F (rdb_next_num D c ch)"
proof (cases "is_digit ch")
  case True
  with assms show ?thesis
    by (auto simp: rdb_next_num_def rdb_next_num_int_def rdb_assert_st_def rdb_sd_num_m_def rdb_num_zero_def
        c_int_def int_min_def int_max_def Let_def rdb_inv_defs)
qed (use assms rdb_next_num_keeps in blast)

text \<open>Entering a state from idle makes its member the active one.\<close>

lemma rdb_set_st_keeps:
  assumes "rdb_inv c" "rd_ty c = rdb_incomplete"
  shows "safe (rdb_set_st D c st) (\<lambda>c'. rdb_inv c' \<and> rd_st c' = st \<and> rd_ty c' = rdb_incomplete)"
  using assms by (cases st) (auto simp: rdb_set_st_def rdb_inv_defs rdb_num_zero_def int_max_def)

lemma rdb_next_idle_keeps:
  fixes c :: "'a rdb_ctx"
  assumes inv: "rdb_inv c" and st: "rd_st c = Rst_idle" and ty: "rd_ty c = rdb_incomplete"
  shows "rdb_keeps F (rdb_next_idle D c ch)"
proof -
  have flags: "rdb_inv (c\<lparr>rd_expect_colon := False\<rparr>)" "rdb_inv (c\<lparr>rd_is_in_arr := True\<rparr>)"
    "rdb_inv (c\<lparr>rd_is_in_arr := False, rd_got_key := False, rd_got_first_val := False\<rparr>)"
    using inv st ty by (auto simp: rdb_inv_defs)
  have enter: "rdb_keeps F (and_then (rdb_set_st D c s) k)"
    if "\<And>c'. rdb_inv c' \<Longrightarrow> rd_st c' = s \<Longrightarrow> rd_ty c' = rdb_incomplete \<Longrightarrow> rdb_keeps F (k c')"
    for s and k :: "'a rdb_ctx \<Rightarrow> 'a rdb_ret"
    using rdb_set_st_keeps[OF inv ty, of D s] that
    by (auto elim!: safeE)
  have num: "rdb_keeps F (and_then (rdb_set_st D c Rst_num) (\<lambda>c. rdb_next_num D c x))" for x
    using inv ty by (simp add: rdb_set_st_def, intro rdb_next_num_first_keeps) (auto simp: rdb_inv_defs rdb_num_zero_def int_max_def)
  have entries: "rdb_keeps F (and_then (rdb_set_st D c Rst_str) (\<lambda>c. Inr (rdb_next_ok, c)))"
    "rdb_keeps F (and_then (rdb_set_st D c Rst_long_str) (\<lambda>c. Inr (rdb_next_ok, c)))"
    "rdb_keeps F (and_then (rdb_set_st D c Rst_key) (\<lambda>c. rdb_next_key D c x))"
    "rdb_keeps F (and_then (rdb_set_st D c Rst_bool) (\<lambda>c. rdb_next_bool D c x))" for x
    by (rule enter, simp add: rdb_next_key_keeps rdb_next_bool_keeps)+
  show ?thesis
    unfolding rdb_next_idle_def Let_def rdb_assert_st_def
    by (simp add: st inv flags num entries del: allows_and_then)
qed

text \<open>
  One character: the invariant is kept, and the only fault is the overflow of a count or an
  exponent, at a digit in the number state.
\<close>

lemma rdb_dispatch_keeps:
  "rdb_inv c \<Longrightarrow> rd_ty c = rdb_incomplete \<Longrightarrow>
   rdb_keeps (if rd_st c = Rst_num \<and> is_digit ch then {Signed_overflow} else {}) (rdb_dispatch D c ch)"
  using rdb_next_num_keeps[where c = c and ch = ch and F = "{Signed_overflow}" and D = D]
    rdb_next_num_keeps[where c = c and ch = ch and F = "{}" and D = D]
  by (simp add: rdb_dispatch_def rdb_next_idle_keeps rdb_next_key_keeps rdb_next_str_keeps
      rdb_next_long_str_keeps rdb_next_bool_keeps split: rdb_st.split) blast

lemma rdb_inv_pos [simp]: "rdb_inv (c\<lparr>rd_pos := p\<rparr>) = rdb_inv c"
  by (cases "rd_st c"; cases "rd_ty c") (simp_all add: rdb_inv_defs)

lemma rdb_next_keeps:
  assumes "rdb_inv c"
  shows "rdb_keeps (if rd_st c = Rst_num \<and> is_digit ch then {Signed_overflow} else {}) (rdb_next D c ch)"
proof -
  have "rdb_inv (c\<lparr>rd_ty := rdb_incomplete\<rparr>)"
    using assms by (auto simp: rdb_inv_defs split: rdb_st.splits)
  from rdb_dispatch_keeps[OF this, of ch D]
  have "rdb_keeps (if rd_st c = Rst_num \<and> is_digit ch then {Signed_overflow} else {})
    (rdb_dispatch D (c\<lparr>rd_ty := rdb_incomplete\<rparr>) ch)" by simp
  then show ?thesis
    unfolding rdb_next_def allows_and_then
    by (rule allows_mono) auto
qed

lemma rdb_token_returns: "rdb_inv c \<Longrightarrow> \<exists>t. rdb_token D c = Inr t"
  by (auto simp: rdb_inv_defs rdb_token_def rdb_cur_ty_def rdb_cur_num_def rdb_cur_is_true_def
      rdb_sd_num_m_def rdb_sd_bool_m_def Let_def split: rdb_ty.splits)

text \<open>The terminator always ends the input, one way or the other.\<close>

lemma rdb_next_NUL:
  assumes inv: "rdb_inv c" and step: "rdb_next D c NUL = Inr (r, c')"
  shows "r \<noteq> rdb_next_ok"
proof -
  let ?c = "c\<lparr>rd_ty := rdb_incomplete\<rparr>"
  have nul: "is_ctrl NUL" "rdb_is_separator NUL" "\<not> rdb_key_ch NUL" "\<not> is_digit NUL"
    by (simp_all add: char_defs schar_def)
  note defs = rdb_dispatch_def rdb_assert_st_def Let_def nul rdb_val_end_def
  have "safe (rdb_dispatch D ?c NUL) (\<lambda>(r, c'). r \<noteq> rdb_next_ok)"
  proof (cases "rd_st c")
    case Rst_num
    then obtain n where n: "rd_sd c = Sd_num n" using inv by (auto simp: rdb_inv_defs)
    with Rst_num show ?thesis
      by (cases "sn_part n") (simp_all add: defs rdb_next_num_def rdb_next_num_int_def rdb_next_num_frac_def
          rdb_next_num_exp_def rdb_sd_num_m_def)
  next
    case Rst_bool
    with inv show ?thesis by (auto simp: defs rdb_next_bool_def rdb_sd_bool_m_def rdb_inv_defs)
  qed (use inv in \<open>auto simp: defs rdb_next_idle_def rdb_next_key_def rdb_next_str_def rdb_next_long_str_def
      rdb_sd_key_def rdb_sd_str_m_def rdb_sd_long_str_m_def rdb_inv_defs\<close>)
  with step show ?thesis by (auto simp: rdb_next_def and_then_eq_Inr)
qed

section \<open>Reading texts\<close>

abbreviation rdb_feeds :: "'d double_ops \<Rightarrow> 'd rdb_ctx \<Rightarrow> string \<Rightarrow> 'd rdb_tok list \<Rightarrow> 'd rdb_ctx \<Rightarrow> bool" where
  "rdb_feeds D \<equiv> feeds rdb_next_ok (rdb_next D) (rdb_token D)"

lemma rdb_feeds_step:
  assumes "rdb_dispatch D (c\<lparr>rd_ty := rdb_incomplete\<rparr>) ch = Inr (rdb_next_ok, c1)"
    and "c' = c1\<lparr>rd_pos := rd_pos c1 + 1\<rparr>" and "rdb_token D c' = Inr t"
  shows "rdb_feeds D c [ch] t c'"
  using assms by (intro feeds_single) (simp_all add: rdb_next_def)

text \<open>The demo loop over a text that is fed without error, and what follows it.\<close>

lemma rdb_run_feeds:
  "rdb_feeds D c s ts c' \<Longrightarrow>
   rdb_run D c (s @ u) = and_then (rdb_run D c' u) (\<lambda>(ok, us). Inr (ok, ts @ us))"
proof (induction s arbitrary: c ts)
  case Nil
  then show ?case by (cases "rdb_run D c' u") auto
next
  case (Cons ch s)
  then obtain c1 t ts' where step: "rdb_next D c ch = Inr (rdb_next_ok, c1)" "rdb_token D c1 = Inr t"
    and rest: "rdb_feeds D c1 s ts' c'" and ts: "ts = t @ ts'"
    by (auto simp: feeds_def and_then_eq_Inr split: if_splits option.splits prod.splits)
  show ?case
    using Cons.IH[OF rest] step ts by (cases "rdb_run D c' u") auto
qed

text \<open>
  The states between tokens: at the start of a line, where a value may start, after a value.
  \<open>m\<close> is the size of the string buffer.
\<close>

definition rdb_line :: "nat \<Rightarrow> 'd rdb_ctx \<Rightarrow> bool" where
  "rdb_line m c \<longleftrightarrow> rdb_inv c \<and> rd_str_mlen c = m \<and> rd_st c = Rst_idle \<and> \<not> rd_got_key c"

definition rdb_ready :: "nat \<Rightarrow> 'd rdb_ctx \<Rightarrow> bool" where
  "rdb_ready m c \<longleftrightarrow> rdb_inv c \<and> rd_str_mlen c = m \<and> rd_st c = Rst_idle \<and> rd_got_key c \<and>
     (rd_is_in_arr c \<or> \<not> rd_got_first_val c) \<and> \<not> rd_expect_colon c"

definition rdb_after :: "nat \<Rightarrow> 'd rdb_ctx \<Rightarrow> bool" where
  "rdb_after m c \<longleftrightarrow> rdb_inv c \<and> rd_str_mlen c = m \<and> rd_st c = Rst_idle \<and> rd_got_key c \<and>
     \<not> rd_expect_colon c"

lemmas rdb_state_defs = rdb_line_def rdb_ready_def rdb_after_def

lemma rdb_init_line: "length b = m \<Longrightarrow> 0 < m \<Longrightarrow> rdb_line m (rdb_init b m)"
  by (simp add: rdb_line_def rdb_init_inv) (simp add: rdb_init_def)

lemmas rdb_idle_run = rdb_dispatch_def rdb_next_idle_def rdb_assert_st_def rdb_token_def rdb_cur_ty_def Let_def

lemma not_digit [simp]:
  "\<not> is_digit NUL" "\<not> is_digit NL" "\<not> is_digit SPC" "\<not> is_digit TAB" "\<not> is_digit DQ" "\<not> is_digit BSL"
  "\<not> is_digit (CHR '','')" "\<not> is_digit (CHR '':'')" "\<not> is_digit (CHR ''<'')" "\<not> is_digit (CHR ''>'')"
  "\<not> is_digit (CHR ''-'')" "\<not> is_digit (CHR ''t'')" "\<not> is_digit (CHR ''f'')"
  by (simp_all add: is_digit_def schar_def)

lemma rdb_run_end: "rdb_line m c \<Longrightarrow> rdb_run D c [NUL] = Inr (True, [])"
  by (simp add: rdb_line_def rdb_next_def rdb_idle_run)

lemma rdb_newline:
  "rdb_line m c \<or> rdb_after m c \<Longrightarrow> \<exists>c'. rdb_feeds D c [NL] [] c' \<and> rdb_line m c'"
  by (auto intro!: exI rdb_feeds_step simp: rdb_state_defs rdb_idle_run) (auto simp: rdb_inv_defs)

lemma rdb_comma: "rdb_after m c \<Longrightarrow> \<exists>c'. rdb_feeds D c [CHR '',''] [] c' \<and> rdb_ready m c'"
  by (auto intro!: exI rdb_feeds_step simp: rdb_state_defs rdb_idle_run) (auto simp: rdb_inv_defs)

lemma rdb_space: "rdb_ready m c \<Longrightarrow> \<exists>c'. rdb_feeds D c [SPC] [] c' \<and> rdb_ready m c'"
  by (auto intro!: exI rdb_feeds_step simp: rdb_state_defs rdb_idle_run) (auto simp: rdb_inv_defs)

subsection \<open>Strings\<close>

definition rdb_in_str :: "nat \<Rightarrow> bool \<Rightarrow> string \<Rightarrow> 'd rdb_ctx \<Rightarrow> bool" where
  "rdb_in_str m e p c \<longleftrightarrow> rdb_inv c \<and> rd_str_mlen c = m \<and> rd_st c = Rst_str \<and>
     rd_sd c = Sd_str \<lparr>ss_len = length p, ss_is_escape = e\<rparr> \<and> take (length p) (rd_str_out c) = p"

lemmas rdb_str_run = rdb_dispatch_def rdb_next_str_def rdb_assert_st_def rdb_sd_str_m_def
  rdb_token_def rdb_cur_ty_def Let_def

lemma rdb_str_open: "rdb_ready m c \<Longrightarrow> \<exists>c'. rdb_feeds D c [DQ] [] c' \<and> rdb_in_str m False [] c'"
  by (rule exI, rule conjI, rule rdb_feeds_step)
    (auto simp: rdb_ready_def rdb_idle_run rdb_set_st_def rdb_inv_defs rdb_in_str_def)

lemma rdb_str_plain:
  assumes "rdb_in_str m False p c" "length p < m" "\<not> is_ctrl ch \<or> ch = TAB" "ch \<noteq> DQ" "ch \<noteq> BSL"
  shows "\<exists>c'. rdb_feeds D c [ch] [] c' \<and> rdb_in_str m False (p @ [ch]) c'"
  using assms
  by (intro exI conjI, intro rdb_feeds_step)
    (auto simp: rdb_in_str_def rdb_str_run rdb_inv_defs take_Suc_update)

lemma rdb_str_bsl:
  assumes "rdb_in_str m False p c"
  shows "\<exists>c'. rdb_feeds D c [BSL] [] c' \<and> rdb_in_str m True p c'"
  using assms
  by (intro exI conjI, intro rdb_feeds_step)
    (auto simp: rdb_in_str_def rdb_str_run rdb_inv_defs is_ctrl_def schar_def)

lemma rdb_str_escaped:
  assumes "rdb_in_str m True p c" "length p < m" "\<not> is_ctrl ch"
  shows "\<exists>c'. rdb_feeds D c [ch] [] c' \<and> rdb_in_str m False (p @ [rdb_escape_ch ch]) c'"
  using assms
  by (intro exI conjI, intro rdb_feeds_step)
    (auto simp: rdb_in_str_def rdb_str_run rdb_inv_defs take_Suc_update)

lemma rdb_str_close:
  assumes "rdb_in_str m False p c" "length p < m" "NUL \<notin> set p"
  shows "\<exists>c'. rdb_feeds D c [DQ] [Tok_str p] c' \<and> rdb_after m c'"
proof -
  have "c_str ((rd_str_out c)[length p := NUL]) = p"
    using assms c_str_take[of "length p" "(rd_str_out c)[length p := NUL]"]
    by (auto simp: rdb_in_str_def rdb_inv_def)
  with assms show ?thesis
    by (intro exI conjI, intro rdb_feeds_step)
      (auto simp: rdb_in_str_def rdb_str_run rdb_inv_defs rdb_cur_str_def rdb_after_def is_ctrl_def schar_def)
qed

subsection \<open>Long strings\<close>

definition rdb_in_long :: "nat \<Rightarrow> bool \<Rightarrow> string \<Rightarrow> bool \<Rightarrow> 'd rdb_ctx \<Rightarrow> bool" where
  "rdb_in_long m e p k c \<longleftrightarrow> rdb_inv c \<and> rd_str_mlen c = m \<and> rd_st c = Rst_long_str \<and>
     rd_sd c = Sd_long_str \<lparr>ls_len = length p, ls_is_escape = e, ls_skip_whitespace = False,
       ls_keep_last_newline = k\<rparr> \<and> take (length p) (rd_str_out c) = p"

lemmas rdb_long_run = rdb_dispatch_def rdb_next_long_str_def rdb_assert_st_def rdb_sd_long_str_m_def
  rdb_long_str_store_def rdb_token_def rdb_cur_ty_def Let_def

lemma rdb_long_open: "rdb_ready m c \<Longrightarrow> \<exists>c'. rdb_feeds D c [CHR ''<'', NL] [] c' \<and> rdb_in_long m False [] True c'"
  by (rule exI, rule conjI, rule feeds_Cons[OF _ _ feeds_single])
    (auto simp: rdb_ready_def rdb_next_def rdb_idle_run rdb_set_st_def rdb_inv_defs rdb_in_long_def
      rdb_long_run is_ctrl_def schar_def)

lemma rdb_long_plain:
  assumes "rdb_in_long m False p k c" "length p < m" "\<not> is_ctrl ch \<or> ch = TAB \<or> ch = NL"
    "ch \<noteq> CHR ''>''" "ch \<noteq> BSL"
  shows "\<exists>c'. rdb_feeds D c [ch] [] c' \<and> rdb_in_long m False (p @ [ch]) False c'"
  using assms
  by (intro exI conjI, intro rdb_feeds_step)
    (auto simp: rdb_in_long_def rdb_long_run rdb_inv_defs take_Suc_update)

lemma rdb_long_escaped:
  assumes "rdb_in_long m False p k c" "length p < m" "\<not> is_ctrl ch" "rdb_escape_ch ch \<noteq> NL"
  shows "\<exists>c'. rdb_feeds D c [BSL, ch] [] c' \<and> rdb_in_long m False (p @ [rdb_escape_ch ch]) False c'"
  using assms
  by (intro exI conjI, intro feeds_Cons[OF _ _ feeds_single])
    (auto simp: rdb_in_long_def rdb_next_def rdb_long_run rdb_inv_defs take_Suc_update is_ctrl_def schar_def)

lemma rdb_long_close:
  assumes "rdb_in_long m False (p @ [NL]) False c" "length p < m" "NUL \<notin> set p"
  shows "\<exists>c'. rdb_feeds D c [CHR ''>''] [Tok_str p] c' \<and> rdb_after m c'"
proof -
  have p: "take (Suc (length p)) (rd_str_out c) = p @ [NL]" and len: "length p < length (rd_str_out c)"
    using assms by (auto simp: rdb_in_long_def rdb_inv_def)
  then have last: "rd_str_out c ! length p = NL" and "take (length p) (rd_str_out c) = p"
    by (auto simp: take_Suc_conv_app_nth)
  then have "c_str ((rd_str_out c)[length p := NUL]) = p"
    using assms(3) len c_str_take[of "length p" "(rd_str_out c)[length p := NUL]"] by auto
  with assms last len show ?thesis
    by (intro exI conjI, intro rdb_feeds_step)
      (auto simp: rdb_in_long_def rdb_long_run rdb_long_str_end_def rdb_inv_defs rdb_cur_str_def
        rdb_after_def is_ctrl_def schar_def)
qed

subsection \<open>Integers\<close>

definition rdb_in_num :: "'d double_ops \<Rightarrow> nat \<Rightarrow> bool \<Rightarrow> int \<Rightarrow> nat \<Rightarrow> 'd rdb_ctx \<Rightarrow> bool" where
  "rdb_in_num D m neg a p c \<longleftrightarrow> rdb_inv c \<and> rd_str_mlen c = m \<and> rd_st c = Rst_num \<and>
     (\<exists>n. rd_sd c = Sd_num n \<and> sn_part n = Num_int \<and> sn_num n = d_of_int D a \<and> sn_pos n = int p \<and>
       sn_is_negative n = neg \<and> (0 < p \<or> \<not> sn_got_sign n \<or> neg) \<and> sn_got_sign n = neg \<and>
       sn_exp n = 0 \<and> \<not> sn_exp_is_negative n)"

lemmas rdb_num_run = rdb_dispatch_def rdb_next_num_def rdb_next_num_int_def rdb_assert_st_def rdb_sd_num_m_def
  rdb_token_def rdb_cur_ty_def Let_def

lemma rdb_num_step:
  assumes "exact_ints D" "0 \<le> a" "a * 10 + digit_val ch \<le> 2 ^ 53" "is_digit ch"
  shows "d_add D (d_mul D (d_of_int D a) (d_of_int D 10)) (d_of_int D (digit_val ch)) =
    d_of_int D (a * 10 + digit_val ch)"
  using assms digit_val_range[of ch] by (simp add: exact_mul exact_add)

lemma rdb_num_digit:
  assumes D: "exact_ints D" and c: "rdb_in_num D m neg a p c" and dig: "is_digit ch"
    and a: "0 \<le> a" "a * 10 + digit_val ch \<le> 2 ^ 53"
    and p: "0 < p \<or> ch \<noteq> CHR ''0''" "p < 100"
  shows "\<exists>c'. rdb_feeds D c [ch] [] c' \<and> rdb_in_num D m neg (a * 10 + digit_val ch) (Suc p) c'"
proof -
  from c obtain n where n: "rd_sd c = Sd_num n" "sn_part n = Num_int" "sn_num n = d_of_int D a" "sn_pos n = int p"
    "sn_is_negative n = neg" "sn_got_sign n = neg" "sn_exp n = 0" "\<not> sn_exp_is_negative n"
    and st: "rd_st c = Rst_num" and mlen: "rd_str_mlen c = m" and inv: "rdb_inv c"
    by (auto simp: rdb_in_num_def)
  have pos: "c_int (int p + 1) = Inr (int p + 1)"
    using p(2) by (simp add: c_int_def int_min_def int_max_def)
  show ?thesis
    using n st mlen inv pos p dig rdb_num_step[OF D a dig]
    by (intro exI conjI, intro rdb_feeds_step)
      (auto simp: rdb_num_run rdb_in_num_def rdb_inv_defs int_max_def)
qed

lemma rdb_num_digits:
  assumes D: "exact_ints D" and s: "list_all is_digit s"
  shows "rdb_in_num D m neg a p c \<Longrightarrow> 0 \<le> a \<Longrightarrow> digits_val a s \<le> 2 ^ 53 \<Longrightarrow>
    0 < p \<or> s = [] \<or> hd s \<noteq> CHR ''0'' \<Longrightarrow> p + length s \<le> 100 \<Longrightarrow>
    \<exists>c'. rdb_feeds D c s [] c' \<and> rdb_in_num D m neg (digits_val a s) (p + length s) c'"
  using s
proof (induction s arbitrary: a p c)
  case Nil
  then show ?case by (auto simp: digits_val_def)
next
  case (Cons ch s)
  let ?a = "a * 10 + digit_val ch"
  have dig: "is_digit ch" "list_all is_digit s" using Cons.prems by auto
  have a: "0 \<le> ?a" using digit_val_range[OF dig(1)] Cons.prems by auto
  have eq: "digits_val a (ch # s) = digits_val ?a s" by (simp add: digits_val_def)
  have "?a \<le> 2 ^ 53" using digits_val_ge[OF dig(2) a] Cons.prems eq by auto
  then obtain c1 where c1: "rdb_feeds D c [ch] [] c1" "rdb_in_num D m neg ?a (Suc p) c1"
    using rdb_num_digit[OF D Cons.prems(1) dig(1)] Cons.prems by auto
  from Cons.IH[OF c1(2) a] obtain c2 where "rdb_feeds D c1 s [] c2"
    "rdb_in_num D m neg (digits_val ?a s) (Suc p + length s) c2"
    using Cons.prems eq dig by auto
  then show ?case
    using feeds_append[OF c1(1), of s "[]" c2] eq by auto
qed

lemma rdb_num_open:
  assumes c: "rdb_ready m c" and ch: "is_digit ch \<or> ch = CHR ''-''" and k: "rdb_next_num D c1 ch = Inr (rdb_next_ok, c2)"
    and c1: "c1 = c\<lparr>rd_ty := rdb_incomplete, rd_st := Rst_num, rd_got_first_val := True,
      rd_sd := Sd_num (rdb_num_zero D)\<rparr>" and ty: "rd_ty c2 = rdb_incomplete"
    and c': "c' = c2\<lparr>rd_pos := rd_pos c2 + 1\<rparr>"
  shows "rdb_feeds D c [ch] [] c'"
proof (rule rdb_feeds_step[OF _ c'])
  have num: "is_digit ch \<or> ch = CHR ''-'' \<or> ch = CHR ''+'' \<or> ch = CHR ''.''" using ch by auto
  have val: "rd_is_in_arr c \<or> \<not> rd_got_first_val c" using c by (simp add: rdb_ready_def)
  show "rdb_dispatch D (c\<lparr>rd_ty := rdb_incomplete\<rparr>) ch = Inr (rdb_next_ok, c2)"
    using c k[unfolded c1] by (simp add: num val rdb_ready_def rdb_idle_run rdb_set_st_def)
qed (simp add: ty c' rdb_token_def rdb_cur_ty_def)

lemma rdb_num_minus:
  assumes "rdb_ready m c"
  shows "\<exists>c'. rdb_feeds D c [CHR ''-''] [] c' \<and> rdb_in_num D m True 0 0 c'"
  using assms
  by (intro exI conjI, intro rdb_num_open[OF assms _ _ refl])
    (auto simp: rdb_num_run rdb_num_zero_def rdb_in_num_def rdb_ready_def rdb_inv_defs int_max_def)

text \<open>The first digit goes to the number state through idle.\<close>

lemma rdb_num_first:
  assumes D: "exact_ints D" and c: "rdb_ready m c" and ch: "is_digit ch" "ch \<noteq> CHR ''0''"
  shows "\<exists>c'. rdb_feeds D c [ch] [] c' \<and> rdb_in_num D m False (digit_val ch) 1 c'"
proof -
  have "d_add D (d_mul D (d_of_int D 0) (d_of_int D 10)) (d_of_int D (digit_val ch)) = d_of_int D (digit_val ch)"
    using rdb_num_step[OF D _ _ ch(1), of 0] digit_val_range[OF ch(1)] by simp
  with c ch show ?thesis
    by (intro exI conjI, intro rdb_num_open[OF c _ _ refl])
      (auto simp: rdb_num_run rdb_num_zero_def rdb_in_num_def rdb_ready_def rdb_inv_defs int_max_def
        c_int_def int_min_def)
qed

lemma rdb_num_zero_digit:
  assumes c: "rdb_ready m c"
  shows "\<exists>c'. rdb_feeds D c ''0'' [] c' \<and> rdb_in_num D m False 0 0 c'"
  using assms
  by (intro exI conjI, intro rdb_num_open[OF assms _ _ refl])
    (auto simp: rdb_num_run rdb_num_zero_def rdb_in_num_def rdb_ready_def rdb_inv_defs int_max_def
      is_digit_def schar_def)

text \<open>The separator that ends a value reported in place: a comma or the end of the line.\<close>

definition rdb_next_state :: "nat \<Rightarrow> char \<Rightarrow> 'd rdb_ctx \<Rightarrow> bool" where
  "rdb_next_state m ch c = (if ch = NL then rdb_line m c else rdb_ready m c)"

lemma rdb_val_close:
  assumes disp: "rdb_dispatch D (c\<lparr>rd_ty := rdb_incomplete\<rparr>) ch = rdb_val_end D (c\<lparr>rd_ty := rdb_incomplete\<rparr>) ty ch"
    and inv: "rdb_inv c" "rd_str_mlen c = m" and ch: "ch = CHR '','' \<or> ch = NL"
    and sd: "ty = Rdb_num \<and> (\<exists>n. rd_sd c = Sd_num n) \<or> ty = Rdb_bool \<and> (\<exists>w. rd_sd c = Sd_bool w)"
    and tok: "\<And>c'. rd_ty c' = ty \<Longrightarrow> rd_sd c' = rd_sd c \<Longrightarrow> rdb_token D c' = Inr t"
  shows "\<exists>c'. rdb_feeds D c [ch] t c' \<and> rdb_next_state m ch c'"
proof -
  let ?c = "c\<lparr>rd_ty := ty, rd_st := Rst_idle, rd_expect_colon := False,
    rd_is_in_arr := (ch = CHR '',''), rd_got_key := (ch \<noteq> NL), rd_got_first_val := True\<rparr>"
  let ?c' = "?c\<lparr>rd_pos := rd_pos ?c + 1\<rparr>"
  have "rdb_feeds D c [ch] t ?c'"
  proof (rule rdb_feeds_step[OF _ refl])
    show "rdb_dispatch D (c\<lparr>rd_ty := rdb_incomplete\<rparr>) ch = Inr (rdb_next_ok, ?c)"
      using ch by (auto simp: disp rdb_val_end_def Let_def)
  qed (simp add: tok)
  moreover have "rdb_inv ?c'" using inv sd by (auto simp: rdb_inv_defs)
  ultimately show ?thesis
    using inv(2) ch by (intro exI[of _ ?c']) (auto simp: rdb_next_state_def rdb_line_def rdb_ready_def)
qed

lemma rdb_num_close:
  assumes D: "exact_ints D" and c: "rdb_in_num D m neg a p c" and a: "0 \<le> a" "a \<le> 2 ^ 53"
    and p: "0 < p \<or> \<not> neg" and ch: "ch = CHR '','' \<or> ch = NL"
  shows "\<exists>c'. rdb_feeds D c [ch] [Tok_num (d_of_int D (if neg then - a else a))] c' \<and> rdb_next_state m ch c'"
proof -
  have "d_mul D (d_of_int D (if neg then -1 else 1)) (d_mul D (d_of_int D a) (d_pow10 D 0)) =
    d_of_int D (if neg then - a else a)"
    using D a by (simp add: exact_pow0 exact_mul)
  moreover from c obtain n where n: "rd_sd c = Sd_num n" "sn_part n = Num_int" "sn_num n = d_of_int D a"
    "sn_pos n = int p" "sn_is_negative n = neg" "sn_got_sign n = neg" "sn_exp n = 0" "\<not> sn_exp_is_negative n"
    by (auto simp: rdb_in_num_def)
  moreover have "0 < int p \<or> \<not> neg" using p by auto
  moreover have "rd_st c = Rst_num" "rdb_inv c" "rd_str_mlen c = m" using c by (simp_all add: rdb_in_num_def)
  moreover have "rdb_is_separator ch" "\<not> is_digit ch" "ch \<noteq> CHR ''-''" "ch \<noteq> CHR ''+''" "ch \<noteq> CHR ''.''"
    "ch \<noteq> CHR ''e''" "ch \<noteq> CHR ''E''" "ch \<noteq> NUL" using ch by (auto simp: rdb_is_separator_def)
  ultimately show ?thesis
    by (intro rdb_val_close[OF _ _ _ ch, where ty = Rdb_num])
      (simp_all add: rdb_num_run rdb_cur_num_def)
qed

text \<open>The decimal text of an integer of at most 53 bits, read up to the separator.\<close>

lemma rdb_reads_int:
  assumes D: "exact_ints D" and c: "rdb_ready m c" and i: "\<bar>i\<bar> \<le> 2 ^ 53"
    and ch: "ch = CHR '','' \<or> ch = NL"
  shows "\<exists>c'. rdb_feeds D c (fmt_int i @ [ch]) [Tok_num (d_of_int D i)] c' \<and> rdb_next_state m ch c'"
proof -
  let ?s = "nat_digits (nat \<bar>i\<bar>)"
  have val: "digits_val 0 ?s = \<bar>i\<bar>" by (simp add: nat_digits_val)
  have len: "length ?s \<le> 17" using i by (intro nat_digits_length) (auto simp: nat_less_iff)
  have all: "list_all is_digit ?s" by (rule nat_digits_all_digits)
  consider "i = 0" | "i < 0" | "0 < i" by arith
  then show ?thesis
  proof cases
    case 1
    obtain c1 where c1: "rdb_feeds D c ''0'' [] c1" "rdb_in_num D m False 0 0 c1"
      using rdb_num_zero_digit[OF c, of D] by blast
    obtain c3 where c3: "rdb_feeds D c1 [ch] [Tok_num (d_of_int D i)] c3" "rdb_next_state m ch c3"
      using rdb_num_close[OF D c1(2) _ _ _ ch] 1 by auto
    have "rdb_feeds D c (''0'' @ [ch]) [Tok_num (d_of_int D i)] c3"
      using feeds_append[OF c1(1) c3(1)] by simp
    with c3(2) 1 show ?thesis by (auto simp: fmt_int_def nat_digits.simps digit_char_def)
  next
    case 2
    obtain c1 where c1: "rdb_feeds D c ''-'' [] c1" "rdb_in_num D m True 0 0 c1"
      using rdb_num_minus[OF c, of D] by blast
    obtain c2 where c2: "rdb_feeds D c1 ?s [] c2" "rdb_in_num D m True \<bar>i\<bar> (length ?s) c2"
      using rdb_num_digits[OF D all c1(2)] nat_digits_hd[of "nat \<bar>i\<bar>"] len val i 2 by auto
    obtain c3 where c3: "rdb_feeds D c2 [ch] [Tok_num (d_of_int D i)] c3" "rdb_next_state m ch c3"
      using rdb_num_close[OF D c2(2) _ _ _ ch] i 2 by auto
    have "rdb_feeds D c (''-'' @ ?s @ [ch]) [Tok_num (d_of_int D i)] c3"
      using feeds_append[OF c1(1) feeds_append[OF c2(1) c3(1)]] by simp
    with c3(2) 2 show ?thesis by (auto simp: fmt_int_def)
  next
    case 3
    then have hd: "hd ?s \<noteq> CHR ''0''" by (intro nat_digits_hd) simp
    obtain x xs where s: "?s = x # xs" using nat_digits_nonempty by (cases ?s) auto
    have x: "is_digit x" "list_all is_digit xs" "x \<noteq> CHR ''0''" using all hd s by auto
    have val': "digits_val (digit_val x) xs = i" using val s 3 by (simp add: digits_val_def)
    obtain c1 where c1: "rdb_feeds D c [x] [] c1" "rdb_in_num D m False (digit_val x) 1 c1"
      using rdb_num_first[OF D c x(1,3)] by blast
    obtain c2 where c2: "rdb_feeds D c1 xs [] c2" "rdb_in_num D m False i (Suc (length xs)) c2"
      using rdb_num_digits[OF D x(2) c1(2)] digit_val_range[OF x(1)] len s val' i 3 by auto
    obtain c3 where c3: "rdb_feeds D c2 [ch] [Tok_num (d_of_int D i)] c3" "rdb_next_state m ch c3"
      using rdb_num_close[OF D c2(2) _ _ _ ch] i 3 by auto
    have "rdb_feeds D c ([x] @ xs @ [ch]) [Tok_num (d_of_int D i)] c3"
      using feeds_append[OF c1(1) feeds_append[OF c2(1) c3(1)]] by simp
    with c3(2) 3 s show ?thesis by (auto simp: fmt_int_def)
  qed
qed

subsection \<open>Booleans\<close>

definition rdb_in_bool :: "nat \<Rightarrow> string \<Rightarrow> 'd rdb_ctx \<Rightarrow> bool" where
  "rdb_in_bool m w c \<longleftrightarrow> rdb_inv c \<and> rd_str_mlen c = m \<and> rd_st c = Rst_bool \<and> rd_sd c = Sd_bool w"

lemmas rdb_bool_run = rdb_dispatch_def rdb_next_bool_def rdb_assert_st_def rdb_sd_bool_m_def
  rdb_token_def rdb_cur_ty_def Let_def

lemma rdb_bool_open:
  assumes c: "rdb_ready m c" and ch: "ch = CHR ''t'' \<or> ch = CHR ''f''"
  shows "\<exists>c'. rdb_feeds D c [ch] [] c' \<and> rdb_in_bool m [ch] c'"
proof -
  let ?c = "c\<lparr>rd_ty := rdb_incomplete, rd_st := Rst_bool, rd_got_first_val := True, rd_sd := Sd_bool [ch]\<rparr>"
  let ?c' = "?c\<lparr>rd_pos := rd_pos ?c + 1\<rparr>"
  have val: "rd_is_in_arr c \<or> \<not> rd_got_first_val c" "rd_st c = Rst_idle" "rd_got_key c" "\<not> rd_expect_colon c"
    using c by (simp_all add: rdb_ready_def)
  have "rdb_feeds D c [ch] [] ?c'"
  proof (rule rdb_feeds_step[OF _ refl])
    show "rdb_dispatch D (c\<lparr>rd_ty := rdb_incomplete\<rparr>) ch = Inr (rdb_next_ok, ?c)"
      using ch
      by (elim disjE) (simp_all add: val rdb_dispatch_def rdb_next_idle_def Let_def rdb_assert_st_def
          rdb_next_bool_def rdb_sd_bool_m_def rdb_set_st_def rdb_is_separator_def rdb_word_size_def)
  qed (simp add: rdb_token_def rdb_cur_ty_def)
  moreover have "rdb_in_bool m [ch] ?c'"
    using c ch by (auto simp: rdb_in_bool_def rdb_ready_def rdb_inv_defs rdb_word_size_def)
  ultimately show ?thesis by blast
qed

lemma rdb_bool_chars:
  "rdb_in_bool m w c \<Longrightarrow> list_all (\<lambda>ch. \<not> rdb_is_separator ch) s \<Longrightarrow> length w + length s \<le> rdb_word_size \<Longrightarrow>
   \<exists>c'. rdb_feeds D c s [] c' \<and> rdb_in_bool m (w @ s) c'"
proof (induction s arbitrary: w c)
  case (Cons ch s)
  have "\<exists>c'. rdb_feeds D c [ch] [] c' \<and> rdb_in_bool m (w @ [ch]) c'"
    using Cons.prems
    by (intro exI conjI, intro rdb_feeds_step)
      (auto simp: rdb_bool_run rdb_in_bool_def rdb_inv_defs rdb_is_separator_def)
  then obtain c1 where c1: "rdb_feeds D c [ch] [] c1" "rdb_in_bool m (w @ [ch]) c1" by blast
  from Cons.IH[OF c1(2)] Cons.prems obtain c2
    where "rdb_feeds D c1 s [] c2" "rdb_in_bool m (w @ ch # s) c2" by auto
  then show ?case using feeds_append[OF c1(1)] by (intro exI[of _ c2]) auto
qed auto

lemma rdb_reads_bool:
  assumes c: "rdb_ready m c" and ch: "ch = CHR '','' \<or> ch = NL"
  shows "\<exists>c'. rdb_feeds D c ((if b then ''true'' else ''false'') @ [ch]) [Tok_bool b] c' \<and> rdb_next_state m ch c'"
proof -
  let ?w = "if b then ''true'' else ''false''"
  obtain x xs where w: "?w = x # xs" "x = CHR ''t'' \<or> x = CHR ''f''"
    "list_all (\<lambda>ch. \<not> rdb_is_separator ch) xs" "length xs \<le> 4"
    by (cases b) (auto simp: rdb_is_separator_def)
  obtain c1 where c1: "rdb_feeds D c [x] [] c1" "rdb_in_bool m [x] c1"
    using rdb_bool_open[OF c w(2)] by blast
  obtain c2 where c2: "rdb_feeds D c1 xs [] c2" "rdb_in_bool m ?w c2"
    using rdb_bool_chars[OF c1(2) w(3)] w by (auto simp: rdb_word_size_def)
  have sep: "rdb_is_separator ch" using ch by (auto simp: rdb_is_separator_def)
  have st: "rd_st c2 = Rst_bool" "rd_sd c2 = Sd_bool ?w" "rdb_inv c2" "rd_str_mlen c2 = m"
    using c2(2) by (auto simp: rdb_in_bool_def)
  have "\<exists>c'. rdb_feeds D c2 [ch] [Tok_bool b] c' \<and> rdb_next_state m ch c'"
    using st sep
    by (intro rdb_val_close[OF _ _ _ ch, where ty = Rdb_bool])
      (auto simp: rdb_bool_run rdb_cur_is_true_def numeral_eq_Suc)
  then obtain c3 where c3: "rdb_feeds D c2 [ch] [Tok_bool b] c3" "rdb_next_state m ch c3" by blast
  have "rdb_feeds D c ([x] @ xs @ [ch]) [Tok_bool b] c3"
    using feeds_append[OF c1(1) feeds_append[OF c2(1) c3(1)]] by simp
  with c3(2) show ?thesis unfolding w(1) by auto
qed

subsection \<open>Keys\<close>

definition rdb_in_key :: "nat \<Rightarrow> string \<Rightarrow> 'd rdb_ctx \<Rightarrow> bool" where
  "rdb_in_key m p c \<longleftrightarrow> rdb_inv c \<and> rd_str_mlen c = m \<and> rd_st c = Rst_key \<and>
     rd_sd c = Sd_key (length p) \<and> take (length p) (rd_str_out c) = p"

lemmas rdb_key_run = rdb_dispatch_def rdb_next_key_def rdb_assert_st_def rdb_sd_key_def
  rdb_token_def rdb_cur_ty_def Let_def

lemma rdb_key_ch_others:
  assumes "rdb_key_ch ch"
  shows "ch \<noteq> CHR '':''" "ch \<noteq> SPC" "ch \<noteq> TAB" "ch \<noteq> NUL" "ch \<noteq> NL" "ch \<noteq> CHR '',''" "ch \<noteq> DQ"
    "ch \<noteq> CHR ''<''" "ch \<noteq> CHR ''+''"
  using assms by (auto simp: rdb_key_ch_def schar_def)

text \<open>The characters a key may start with: in idle a digit, a sign or a dot opens a number.\<close>

definition rdb_key_start :: "char \<Rightarrow> bool" where
  "rdb_key_start ch \<longleftrightarrow> rdb_key_ch ch \<and> \<not> is_digit ch \<and> ch \<noteq> CHR ''.'' \<and> ch \<noteq> CHR ''-''"

lemma rdb_key_open:
  assumes c: "rdb_line m c" and ch: "rdb_key_start ch" and m: "0 < m"
  shows "\<exists>c'. rdb_feeds D c [ch] [] c' \<and> rdb_in_key m [ch] c'"
proof -
  have "rdb_key_ch ch" "\<not> is_digit ch" "ch \<noteq> CHR ''.''" "ch \<noteq> CHR ''-''"
    using ch by (auto simp: rdb_key_start_def)
  note ch = this rdb_key_ch_others[OF this(1)]
  have "rd_str_out c \<noteq> []" using c by (auto simp: rdb_line_def rdb_inv_def)
  then have len: "take (Suc 0) ((rd_str_out c)[0 := ch]) = [ch]"
    by (simp add: take_Suc_update)
  show ?thesis
    using c ch m len
    by (intro exI conjI, intro rdb_feeds_step)
      (auto simp: rdb_line_def rdb_idle_run rdb_key_run rdb_set_st_def rdb_in_key_def rdb_inv_defs)
qed

lemma rdb_key_char:
  assumes c: "rdb_in_key m p c" and ch: "rdb_key_ch ch" and m: "length p < m"
  shows "\<exists>c'. rdb_feeds D c [ch] [] c' \<and> rdb_in_key m (p @ [ch]) c'"
  using c ch m rdb_key_ch_others[OF ch]
  by (intro exI conjI, intro rdb_feeds_step)
    (auto simp: rdb_key_run rdb_in_key_def rdb_inv_defs take_Suc_update)

lemma rdb_key_chars:
  "rdb_in_key m p c \<Longrightarrow> list_all rdb_key_ch s \<Longrightarrow> length p + length s \<le> m \<Longrightarrow>
   \<exists>c'. rdb_feeds D c s [] c' \<and> rdb_in_key m (p @ s) c'"
proof (induction s arbitrary: p c)
  case (Cons ch s)
  then obtain c1 where c1: "rdb_feeds D c [ch] [] c1" "rdb_in_key m (p @ [ch]) c1"
    using rdb_key_char[OF Cons.prems(1), of ch D] by auto
  from Cons.IH[OF c1(2)] Cons.prems obtain c2
    where "rdb_feeds D c1 s [] c2" "rdb_in_key m (p @ ch # s) c2" by auto
  then show ?case using feeds_append[OF c1(1)] by (intro exI[of _ c2]) auto
qed auto

lemma rdb_key_close:
  assumes c: "rdb_in_key m p c" and p: "p \<noteq> []" "NUL \<notin> set p" and m: "length p < m"
  shows "\<exists>c'. rdb_feeds D c [CHR '':''] [Tok_key p] c' \<and> rdb_ready m c'"
proof -
  have "c_str ((rd_str_out c)[length p := NUL]) = p"
    using c p m c_str_take[of "length p" "(rd_str_out c)[length p := NUL]"]
    by (auto simp: rdb_in_key_def rdb_inv_def)
  with c p m show ?thesis
    by (intro exI conjI, intro rdb_feeds_step)
      (auto simp: rdb_in_key_def rdb_key_run rdb_inv_defs rdb_cur_str_def rdb_ready_def)
qed

definition rdb_key_ok :: "string \<Rightarrow> bool" where
  "rdb_key_ok k \<longleftrightarrow> k \<noteq> [] \<and> rdb_key_start (hd k) \<and> list_all rdb_key_ch k"

lemma rdb_reads_key:
  assumes c: "rdb_line m c" and k: "rdb_key_ok k" "length k < m"
  shows "\<exists>c'. rdb_feeds D c (k @ '': '') [Tok_key k] c' \<and> rdb_ready m c'"
proof -
  obtain x xs where k': "k = x # xs" "rdb_key_start x" "list_all rdb_key_ch xs"
    using k by (cases k) (auto simp: rdb_key_ok_def)
  have nul: "NUL \<notin> set k" using k rdb_key_ch_others(4) by (auto simp: rdb_key_ok_def list_all_iff)
  obtain c1 where c1: "rdb_feeds D c [x] [] c1" "rdb_in_key m [x] c1"
    using rdb_key_open[OF c k'(2)] k by auto
  obtain c2 where c2: "rdb_feeds D c1 xs [] c2" "rdb_in_key m k c2"
    using rdb_key_chars[OF c1(2) k'(3)] k k' by auto
  obtain c3 where c3: "rdb_feeds D c2 [CHR '':''] [Tok_key k] c3" "rdb_ready m c3"
    using rdb_key_close[OF c2(2)] k k' nul by auto
  obtain c4 where c4: "rdb_feeds D c3 [SPC] [] c4" "rdb_ready m c4"
    using rdb_space[OF c3(2)] by blast
  have "rdb_feeds D c ([x] @ xs @ [CHR '':''] @ [SPC]) [Tok_key k] c4"
    using feeds_append[OF c1(1) feeds_append[OF c2(1) feeds_append[OF c3(1) c4(1)]]] by simp
  with c4(2) k' show ?thesis by auto
qed

section \<open>Properties\<close>

text \<open>
  C28: Feeding one character to the reader in a good context never panics, never writes outside
  the string buffer and never reads a union member that is not the active one: it returns a
  good context again. The one possible fault is the overflow of an \<^verbatim>\<open>int\<close> counter, and only
  at a digit inside a number.
\<close>

theorem rdb_next_safe:
  assumes "rdb_inv c"
  shows "case rdb_next D c ch of
      Inl f \<Rightarrow> f = Signed_overflow \<and> rd_st c = Rst_num \<and> is_digit ch
    | Inr (r, c') \<Rightarrow> rdb_inv c'"
  using rdb_next_keeps[OF assms, of ch D]
  by (cases "rdb_next D c ch") (auto split: if_splits)

theorem rdb_next_safe_witness:
  "case rdb_next int_double (rdb_init ''xyz'' 3) (CHR ''k'') of
      Inl f \<Rightarrow> f = Signed_overflow \<and> rd_st (rdb_init ''xyz'' 3 :: int rdb_ctx) = Rst_num \<and> is_digit (CHR ''k'')
    | Inr (r, c') \<Rightarrow> rdb_inv c'"
  using rdb_next_safe[where c = "rdb_init ''xyz'' 3" and D = int_double and ch = "CHR ''k''"] by (simp add: rdb_init_inv)

lemma rdb_run_ends:
  "rdb_inv c \<Longrightarrow> rdb_run D c (s @ [NUL]) = Inl f \<Longrightarrow> f = Signed_overflow"
proof (induction s arbitrary: c)
  case Nil
  show ?case
  proof (cases "rdb_next D c NUL")
    case (Inl g)
    then show ?thesis using Nil.prems rdb_next_keeps[OF Nil.prems(1), of NUL D] by (simp split: if_splits)
  next
    case (Inr x)
    obtain r c1 where x: "x = (r, c1)" by (cases x)
    obtain t where "rdb_token D c1 = Inr t"
      using Inr x rdb_next_keeps[OF Nil.prems(1), of NUL D] rdb_token_returns by fastforce
    then show ?thesis
      using Inr x Nil.prems(2) rdb_next_NUL[OF Nil.prems(1)] by (cases r) auto
  qed
next
  case (Cons ch s)
  show ?case
  proof (cases "rdb_next D c ch")
    case (Inl g)
    then show ?thesis using Cons.prems rdb_next_keeps[OF Cons.prems(1), of ch D] by (simp split: if_splits)
  next
    case (Inr x)
    obtain r c1 where x: "x = (r, c1)" by (cases x)
    then have inv: "rdb_inv c1" using Inr rdb_next_keeps[OF Cons.prems(1), of ch D] by simp
    obtain t where "rdb_token D c1 = Inr t" using rdb_token_returns[OF inv] by blast
    then show ?thesis
      using Inr x Cons.prems(2) Cons.IH[OF inv] by (cases r) (auto simp: and_then_eq_Inl)
  qed
qed

text \<open>
  C29: The demo loop, from a fresh reader with a nonempty string buffer, ends on every
  terminated text: with the tokens up to the end or up to a syntax error, or in the overflow
  of the previous property. It never reaches its panic for input that ends without \<^verbatim>\<open>fin\<close>.
\<close>

theorem rdb_run_terminates:
  assumes "length buf = n" "0 < n"
  shows "(\<exists>ok ts. rdb_run D (rdb_init buf n) (s @ [NUL]) = Inr (ok, ts)) \<or>
    rdb_run D (rdb_init buf n) (s @ [NUL]) = Inl Signed_overflow"
  using rdb_run_ends[OF rdb_init_inv[OF assms], of D s]
  by (cases "rdb_run D (rdb_init buf n) (s @ [NUL])") auto

theorem rdb_run_terminates_witness:
  "(\<exists>ok ts. rdb_run int_double (rdb_init ''xyz'' 3) (''a: 1'' @ [NUL]) = Inr (ok, ts)) \<or>
    rdb_run int_double (rdb_init ''xyz'' 3) (''a: 1'' @ [NUL]) = Inl Signed_overflow"
  using rdb_run_terminates[of "''xyz''" 3 int_double "''a: 1''"] by simp

text \<open>
  C40: With a string buffer of length 0 the reader writes outside it: the first character of a
  key makes \<^verbatim>\<open>set_st_\<close> store a terminator at \<^verbatim>\<open>str_out[0]\<close>.
\<close>

theorem rdb_empty_buffer_overrun:
  assumes "rdb_key_start ch"
  shows "rdb_next D (rdb_init [] 0) ch = Inl Out_of_bounds"
proof -
  have "rdb_key_ch ch" "\<not> is_digit ch" "ch \<noteq> CHR ''.''" "ch \<noteq> CHR ''-''"
    using assms by (auto simp: rdb_key_start_def)
  then show ?thesis
    using rdb_key_ch_others[of ch]
    by (simp add: rdb_next_def rdb_idle_run rdb_init_def rdb_set_st_def poke_def)
qed

theorem rdb_empty_buffer_overrun_witness:
  "rdb_next int_double (rdb_init [] 0) (CHR ''k'') = Inl Out_of_bounds"
  by (rule rdb_empty_buffer_overrun) code_simp

text \<open>
  A word is taken for a boolean when it is a prefix of \<^verbatim>\<open>true\<close> or \<^verbatim>\<open>false\<close>, not only
  when it is the whole word: \<^verbatim>\<open>strncmp\<close> compares as many characters as were read.
\<close>

theorem rdb_bool_prefixes:
  "list_all (\<lambda>w. rdb_run int_double (rdb_init (replicate 4 NUL) 4) (''k: '' @ w @ [NUL]) =
      Inr (True, [Tok_key ''k'', Tok_bool True])) [''t'', ''tr'', ''tru'', ''true''] \<and>
   list_all (\<lambda>w. rdb_run int_double (rdb_init (replicate 4 NUL) 4) (''k: '' @ w @ [NUL]) =
      Inr (True, [Tok_key ''k'', Tok_bool False])) [''f'', ''fa'', ''fal'', ''fals'', ''false''] \<and>
   list_all (\<lambda>w. rdb_run int_double (rdb_init (replicate 4 NUL) 4) (''k: '' @ w @ [NUL]) =
      Inr (False, [Tok_key ''k''])) [''x'', ''truee'', ''yes'']"
  by code_simp

text \<open>
  The exponent of a number is an \<^verbatim>\<open>int\<close> that is multiplied by 10 for every digit without
  a check: ten nines overflow it.
\<close>

theorem rdb_exponent_overflow:
  "rdb_run int_double (rdb_init (replicate 4 NUL) 4) (''k: 1e9999999999'' @ [NUL]) = Inl Signed_overflow \<and>
   rdb_run int_double (rdb_init (replicate 4 NUL) 4) (''k: 1e5'' @ [NUL]) =
     Inr (True, [Tok_key ''k'', Tok_num 100000])"
  by code_simp

end
