(* ===== verification/Db.thy ===== *)
theory Db
  imports Wdb Rdb
begin

text \<open>
  The writer and the reader of the database format together: what \<^verbatim>\<open>wdb.c\<close> writes,
  \<^verbatim>\<open>rdb.c\<close> reads back.
\<close>

section \<open>Files\<close>

text \<open>
  A file is a list of entries, each a key with its values; a value is a call of the writer.
  \<open>db_val_ok m\<close> says which values survive: strings without a backslash (the writer does
  not escape it), that fit the reader's buffer of \<open>m\<close> bytes; integers a double holds exactly.
\<close>

type_synonym 'd db_entry = "string \<times> 'd wdb_call list"

fun db_val_ok :: "nat \<Rightarrow> 'd wdb_call \<Rightarrow> bool" where
  "db_val_ok m (Wstr v) = (wdb_valid wdb_str_ch v \<and> BSL \<notin> set v \<and> length v < m)"
| "db_val_ok m (Wlong_str v) = (wdb_valid wdb_long_str_ch v \<and> BSL \<notin> set v \<and> length v < m)"
| "db_val_ok m (Wint v) = (\<bar>sint v\<bar> \<le> 2 ^ 53)"
| "db_val_ok m (Wbool v) = True"
| "db_val_ok m _ = False"

fun db_tok :: "'d double_ops \<Rightarrow> 'd wdb_call \<Rightarrow> 'd rdb_tok" where
  "db_tok D (Wstr v) = Tok_str v"
| "db_tok D (Wlong_str v) = Tok_str v"
| "db_tok D (Wint v) = Tok_num (d_of_int D (sint v))"
| "db_tok D (Wnum v) = Tok_num v"
| "db_tok D (Wbool v) = Tok_bool v"
| "db_tok D (Wkey v) = Tok_key v"
| "db_tok D Wfin = Tok_str []"

definition db_entry_ok :: "nat \<Rightarrow> 'd db_entry \<Rightarrow> bool" where
  "db_entry_ok m e \<longleftrightarrow> rdb_key_ok (fst e) \<and> length (fst e) < m \<and> snd e \<noteq> [] \<and> list_all (db_val_ok m) (snd e)"

definition db_calls :: "'d db_entry list \<Rightarrow> 'd wdb_call list" where
  "db_calls es = concat (map (\<lambda>(k, vs). Wkey k # vs) es) @ [Wfin]"

definition db_toks :: "'d double_ops \<Rightarrow> 'd db_entry list \<Rightarrow> 'd rdb_tok list" where
  "db_toks D es = concat (map (\<lambda>(k, vs). Tok_key k # map (db_tok D) vs) es)"

fun db_val_text :: "'d wdb_call \<Rightarrow> string" where
  "db_val_text (Wstr v) = [DQ] @ wdb_escs wdb_str_ch v @ [DQ]"
| "db_val_text (Wlong_str v) = [CHR ''<'', NL] @ wdb_escs wdb_long_str_ch v @ [NL, CHR ''>'']"
| "db_val_text (Wint v) = fmt_int (sint v)"
| "db_val_text (Wbool v) = (if v then ''true'' else ''false'')"
| "db_val_text _ = []"

fun db_vals_text :: "'d wdb_call list \<Rightarrow> string" where
  "db_vals_text [] = []"
| "db_vals_text [x] = db_val_text x"
| "db_vals_text (x # y # xs) = db_val_text x @ '', '' @ db_vals_text (y # xs)"

definition db_entry_text :: "'d db_entry \<Rightarrow> string" where
  "db_entry_text e = fst e @ '': '' @ db_vals_text (snd e)"

fun db_entries_text :: "'d db_entry list \<Rightarrow> string" where
  "db_entries_text [] = []"
| "db_entries_text [e] = db_entry_text e"
| "db_entries_text (e # e' # es) = db_entry_text e @ [NL] @ db_entries_text (e' # es)"

definition db_text :: "'d db_entry list \<Rightarrow> string" where
  "db_text es = db_entries_text es @ [NL, NUL]"

section \<open>Writing\<close>

lemma db_render_val:
  "db_val_ok m x \<Longrightarrow> wdb_render D True f x = Some ((if f then [] else '', '') @ db_val_text x)"
  by (cases x) (auto simp: wdb_render_val_def)

lemma db_flags_val: "db_val_ok m x \<Longrightarrow> wdb_flags_after g f x = (g, False)"
  by (cases x) auto

lemma db_renders_vals:
  assumes "list_all (db_val_ok m) vs" "vs \<noteq> []" "wdb_renders D True False rest = Some s"
  shows "wdb_renders D True f (vs @ rest) = Some ((if f then [] else '', '') @ db_vals_text vs @ s)"
  using assms(1,2)
proof (induction vs arbitrary: f rule: db_vals_text.induct)
  case (2 x)
  then show ?case using assms(3) db_render_val[of m x D f] db_flags_val[of m x] by simp
next
  case (3 x y xs)
  have "wdb_renders D True False ((y # xs) @ rest) = Some ('', '' @ db_vals_text (y # xs) @ s)"
    using 3 by (simp del: wdb_renders.simps)
  then show ?case using 3(2) db_render_val[of m x D f] db_flags_val[of m x] by simp
qed simp

lemma wdb_rdb_key_ch: "wdb_key_ch = rdb_key_ch"
  by (simp add: wdb_key_ch_def rdb_key_ch_def fun_eq_iff)

lemma db_renders:
  "list_all (db_entry_ok m) es \<Longrightarrow> \<not> g \<or> \<not> f \<Longrightarrow>
   wdb_renders D g f (db_calls es) = Some ((if g \<and> es \<noteq> [] then [NL] else []) @ db_text es)"
proof (induction es arbitrary: g f rule: db_entries_text.induct)
  case 1
  then show ?case by (auto simp: db_calls_def db_text_def)
next
  case (2 e)
  then show ?case
    using db_renders_vals[of m "snd e" D "[Wfin]" "[NL, NUL]" True]
    by (auto simp: db_calls_def db_text_def db_entry_text_def db_entry_ok_def rdb_key_ok_def
        wdb_rdb_key_ch split: prod.splits)
next
  case (3 e e' es)
  have "wdb_renders D True False (db_calls (e' # es)) = Some ([NL] @ db_text (e' # es))"
    using 3 by simp
  from db_renders_vals[of m "snd e", OF _ _ this, of True] 3 show ?case
    by (auto simp: db_calls_def db_text_def db_entry_text_def db_entry_ok_def rdb_key_ok_def
        wdb_rdb_key_ch split: prod.splits)
qed

lemma db_write:
  assumes "list_all (db_entry_ok m) es" "wdb_inv c" "\<not> wd_got_key c" "length (db_text es) \<le> wdb_room c"
  shows "\<exists>c'. wdb_execs D c (db_calls es) = Inr (wdb_ok, c') \<and> wdb_inv c' \<and> wdb_text c' = wdb_text c @ db_text es \<and> wd_mlen c' = wd_mlen c"
  using wdb_execs_renders[OF assms(2), of D "db_calls es"] db_renders[OF assms(1)] assms(3,4) by auto

text \<open>From a fresh writer on: the text stands at the start of the buffer.\<close>

lemma db_written:
  assumes "list_all (db_entry_ok m) es" "length (db_text es) \<le> length buf"
  obtains c c' where "wdb_init buf (length buf) = Inr c" "wdb_execs D c (db_calls es) = Inr (wdb_ok, c')" "wdb_text c' = db_text es"
    "length (wd_out c') = length buf" "wd_len c' = length (db_text es)"
proof -
  obtain c where c: "wdb_init buf (length buf) = Inr c" "wdb_inv c" "\<not> wd_got_key c" "wdb_text c = []" "wdb_room c = length buf"
    "wd_mlen c = length buf"
    using wdb_init_ok by blast
  with db_write[OF assms(1) c(2,3), of D] assms(2) obtain c' where
    c': "wdb_execs D c (db_calls es) = Inr (wdb_ok, c')" "wdb_inv c'" "wdb_text c' = db_text es" "wd_mlen c' = length buf"
    by auto
  have "length (wd_out c') = wd_mlen c'" "wd_len c' = length (wdb_text c')" using c'(2) by (simp_all add: wdb_inv_def wdb_text_def)
  then show thesis using that[OF c(1) c'(1,3)] c'(3,4) by simp
qed

section \<open>Reading\<close>

text \<open>One character of a string value, with its escape.\<close>

lemma db_reads_str_ch:
  assumes c: "rdb_in_str m False p c" and ch: "wdb_str_ch ch \<noteq> None" "ch \<noteq> BSL" and m: "length p < m"
  shows "\<exists>c'. rdb_feeds D c (wdb_esc wdb_str_ch ch) [] c' \<and> rdb_in_str m False (p @ [ch]) c'"
proof -
  have esc: "\<exists>c'. rdb_feeds D c [BSL, x] [] c' \<and> rdb_in_str m False (p @ [rdb_escape_ch x]) c'"
    if x: "\<not> is_ctrl x" for x
  proof -
    obtain c1 where c1: "rdb_feeds D c [BSL] [] c1" "rdb_in_str m True p c1"
      using rdb_str_bsl[OF c] by blast
    obtain c2 where "rdb_feeds D c1 [x] [] c2" "rdb_in_str m False (p @ [rdb_escape_ch x]) c2"
      using rdb_str_escaped[OF c1(2) m x] by blast
    then show ?thesis using feeds_append[OF c1(1)] by (intro exI[of _ c2]) auto
  qed
  consider "ch = DQ" | "ch = NL" | "ch = CR" | "ch \<noteq> DQ" "ch \<noteq> NL" "ch \<noteq> CR" by blast
  then show ?thesis
  proof cases
    case 1
    then show ?thesis using esc[of DQ]
      by (simp add: wdb_esc_def wdb_str_ch_def rdb_escape_ch_def is_ctrl_def schar_def)
  next
    case 2
    then show ?thesis using esc[of "CHR ''n''"]
      by (simp add: wdb_esc_def wdb_str_ch_def rdb_escape_ch_def is_ctrl_def schar_def)
  next
    case 3
    then show ?thesis using esc[of "CHR ''r''"]
      by (simp add: wdb_esc_def wdb_str_ch_def rdb_escape_ch_def is_ctrl_def schar_def)
  next
    case 4
    then have "\<not> is_ctrl ch \<or> ch = TAB" "wdb_esc wdb_str_ch ch = [ch]"
      using ch by (auto simp: wdb_esc_def wdb_str_ch_def split: if_splits)
    then show ?thesis using rdb_str_plain[OF c m _ 4(1) ch(2)] by simp
  qed
qed

lemma db_reads_long_ch:
  assumes c: "rdb_in_long m False p k c" and ch: "wdb_long_str_ch ch \<noteq> None" "ch \<noteq> BSL" and m: "length p < m"
  shows "\<exists>c'. rdb_feeds D c (wdb_esc wdb_long_str_ch ch) [] c' \<and> rdb_in_long m False (p @ [ch]) False c'"
proof -
  consider "ch = CHR ''<'' \<or> ch = CHR ''>''" | "ch = CR" | "ch \<noteq> CHR ''<''" "ch \<noteq> CHR ''>''" "ch \<noteq> CR" by blast
  then show ?thesis
  proof cases
    case 1
    then show ?thesis using rdb_long_escaped[OF c m, of ch]
      by (elim disjE) (simp_all add: wdb_esc_def wdb_long_str_ch_def rdb_escape_ch_def is_ctrl_def schar_def)
  next
    case 2
    then show ?thesis using rdb_long_escaped[OF c m, of "CHR ''r''"]
      by (simp add: wdb_esc_def wdb_long_str_ch_def rdb_escape_ch_def is_ctrl_def schar_def)
  next
    case 3
    then have "\<not> is_ctrl ch \<or> ch = TAB \<or> ch = NL" "wdb_esc wdb_long_str_ch ch = [ch]"
      using ch by (auto simp: wdb_esc_def wdb_long_str_ch_def split: if_splits)
    then show ?thesis using rdb_long_plain[OF c m _ 3(2) ch(2)] by simp
  qed
qed

lemma db_reads_str_chars:
  "rdb_in_str m False p c \<Longrightarrow> wdb_valid wdb_str_ch v \<Longrightarrow> BSL \<notin> set v \<Longrightarrow> length p + length v \<le> m \<Longrightarrow>
   \<exists>c'. rdb_feeds D c (wdb_escs wdb_str_ch v) [] c' \<and> rdb_in_str m False (p @ v) c'"
proof (induction v arbitrary: p c)
  case (Cons ch v)
  then obtain c1 where c1: "rdb_feeds D c (wdb_esc wdb_str_ch ch) [] c1" "rdb_in_str m False (p @ [ch]) c1"
    using db_reads_str_ch[OF Cons.prems(1), of ch D] by auto
  from Cons.IH[OF c1(2)] Cons.prems obtain c2
    where "rdb_feeds D c1 (wdb_escs wdb_str_ch v) [] c2" "rdb_in_str m False (p @ ch # v) c2" by auto
  then show ?case using feeds_append[OF c1(1)] by (intro exI[of _ c2]) auto
qed auto

lemma db_reads_long_chars:
  "rdb_in_long m False p k c \<Longrightarrow> wdb_valid wdb_long_str_ch v \<Longrightarrow> BSL \<notin> set v \<Longrightarrow> length p + length v \<le> m \<Longrightarrow>
   \<exists>c' k'. rdb_feeds D c (wdb_escs wdb_long_str_ch v) [] c' \<and> rdb_in_long m False (p @ v) k' c'"
proof (induction v arbitrary: p k c)
  case (Cons ch v)
  then obtain c1 where c1: "rdb_feeds D c (wdb_esc wdb_long_str_ch ch) [] c1"
      "rdb_in_long m False (p @ [ch]) False c1"
    using db_reads_long_ch[OF Cons.prems(1), of ch D] by auto
  from Cons.IH[OF c1(2)] Cons.prems obtain c2 k2
    where "rdb_feeds D c1 (wdb_escs wdb_long_str_ch v) [] c2" "rdb_in_long m False (p @ ch # v) k2 c2" by auto
  then show ?case using feeds_append[OF c1(1)] by (intro exI[of _ c2] exI[of _ k2]) auto
qed auto

lemma db_valid_no_NUL: "wdb_valid wdb_str_ch v \<Longrightarrow> NUL \<notin> set v" "wdb_valid wdb_long_str_ch v \<Longrightarrow> NUL \<notin> set v"
  by (auto simp: wdb_valid_def list_all_iff wdb_str_ch_def wdb_long_str_ch_def is_ctrl_def schar_def)

lemma db_reads_str:
  assumes c: "rdb_ready m c" and v: "db_val_ok m (Wstr v)"
  shows "\<exists>c'. rdb_feeds D c (db_val_text (Wstr v)) [Tok_str v] c' \<and> rdb_after m c'"
proof -
  obtain c1 where c1: "rdb_feeds D c [DQ] [] c1" "rdb_in_str m False [] c1"
    using rdb_str_open[OF c] by blast
  obtain c2 where c2: "rdb_feeds D c1 (wdb_escs wdb_str_ch v) [] c2" "rdb_in_str m False v c2"
    using db_reads_str_chars[OF c1(2), of v D] v by auto
  obtain c3 where c3: "rdb_feeds D c2 [DQ] [Tok_str v] c3" "rdb_after m c3"
    using rdb_str_close[OF c2(2), of D] v db_valid_no_NUL by auto
  show ?thesis
    using feeds_append[OF c1(1) feeds_append[OF c2(1) c3(1)]] c3(2) by (intro exI[of _ c3]) auto
qed

lemma db_reads_long:
  assumes c: "rdb_ready m c" and v: "db_val_ok m (Wlong_str v)"
  shows "\<exists>c'. rdb_feeds D c (db_val_text (Wlong_str v)) [Tok_str v] c' \<and> rdb_after m c'"
proof -
  obtain c1 where c1: "rdb_feeds D c [CHR ''<'', NL] [] c1" "rdb_in_long m False [] True c1"
    using rdb_long_open[OF c] by blast
  obtain c2 k where c2: "rdb_feeds D c1 (wdb_escs wdb_long_str_ch v) [] c2" "rdb_in_long m False v k c2"
    using db_reads_long_chars[OF c1(2), of v D] v by auto
  obtain c3 where c3: "rdb_feeds D c2 [NL] [] c3" "rdb_in_long m False (v @ [NL]) False c3"
    using rdb_long_plain[OF c2(2), of NL D] v by auto
  obtain c4 where c4: "rdb_feeds D c3 [CHR ''>''] [Tok_str v] c4" "rdb_after m c4"
    using rdb_long_close[OF c3(2), of D] v db_valid_no_NUL by auto
  show ?thesis
    using feeds_append[OF c1(1) feeds_append[OF c2(1) feeds_append[OF c3(1) c4(1)]]] c4(2)
    by (intro exI[of _ c4]) auto
qed

text \<open>A value and the comma or newline after it.\<close>

lemma db_reads_val:
  assumes D: "exact_ints D" and c: "rdb_ready m c" and v: "db_val_ok m x" and ch: "ch = CHR '','' \<or> ch = NL"
  shows "\<exists>c'. rdb_feeds D c (db_val_text x @ [ch]) [db_tok D x] c' \<and> rdb_next_state m ch c'"
proof -
  have sep: "\<exists>c'. rdb_feeds D c (s @ [ch]) ts c' \<and> rdb_next_state m ch c'"
    if "\<exists>c'. rdb_feeds D c s ts c' \<and> rdb_after m c'" for s ts
  proof -
    from that obtain c1 where c1: "rdb_feeds D c s ts c1" "rdb_after m c1" by blast
    then obtain c2 where "rdb_feeds D c1 [ch] [] c2" "rdb_next_state m ch c2"
      using ch rdb_comma[of m c1 D] rdb_newline[of m c1 D] by (auto simp: rdb_next_state_def)
    then show ?thesis using feeds_append[OF c1(1), of "[ch]" "[]" c2] by (intro exI[of _ c2]) auto
  qed
  show ?thesis
    using v sep[OF db_reads_str[OF c]] sep[OF db_reads_long[OF c]] rdb_reads_int[OF D c _ ch] rdb_reads_bool[OF c ch]
    by (cases x) auto
qed

lemma db_reads_vals:
  assumes D: "exact_ints D"
  shows "rdb_ready m c \<Longrightarrow> list_all (db_val_ok m) vs \<Longrightarrow> vs \<noteq> [] \<Longrightarrow>
    \<exists>c'. rdb_feeds D c (db_vals_text vs @ [NL]) (map (db_tok D) vs) c' \<and> rdb_line m c'"
proof (induction vs arbitrary: c rule: db_vals_text.induct)
  case (2 x)
  then show ?case using db_reads_val[OF D 2(1), of x NL] by (auto simp: rdb_next_state_def)
next
  case (3 x y xs)
  obtain c1 where c1: "rdb_feeds D c (db_val_text x @ '','') [db_tok D x] c1" "rdb_ready m c1"
    using db_reads_val[OF D 3(2), of x "CHR '',''"] 3(3) by (auto simp: rdb_next_state_def)
  obtain c2 where c2: "rdb_feeds D c1 [SPC] [] c2" "rdb_ready m c2"
    using rdb_space[OF c1(2)] by blast
  obtain c3 where c3: "rdb_feeds D c2 (db_vals_text (y # xs) @ [NL]) (map (db_tok D) (y # xs)) c3" "rdb_line m c3"
    using 3(1)[OF c2(2)] 3(3) by auto
  show ?case
    using feeds_append[OF c1(1) feeds_append[OF c2(1) c3(1)]] c3(2) by (intro exI[of _ c3]) auto
qed simp

lemma db_reads_entry:
  assumes D: "exact_ints D" and c: "rdb_line m c" and e: "db_entry_ok m e"
  shows "\<exists>c'. rdb_feeds D c (db_entry_text e @ [NL]) (Tok_key (fst e) # map (db_tok D) (snd e)) c' \<and> rdb_line m c'"
proof -
  obtain c1 where c1: "rdb_feeds D c (fst e @ '': '') [Tok_key (fst e)] c1" "rdb_ready m c1"
    using rdb_reads_key[OF c, of "fst e" D] e by (auto simp: db_entry_ok_def)
  obtain c2 where c2: "rdb_feeds D c1 (db_vals_text (snd e) @ [NL]) (map (db_tok D) (snd e)) c2" "rdb_line m c2"
    using db_reads_vals[OF D c1(2)] e by (auto simp: db_entry_ok_def)
  show ?thesis
    using feeds_append[OF c1(1) c2(1)] c2(2) by (intro exI[of _ c2]) (auto simp: db_entry_text_def)
qed

lemma db_reads_entries:
  assumes D: "exact_ints D"
  shows "rdb_line m c \<Longrightarrow> list_all (db_entry_ok m) es \<Longrightarrow>
    \<exists>c'. rdb_feeds D c (db_entries_text es @ [NL]) (db_toks D es) c' \<and> rdb_line m c'"
proof (induction es arbitrary: c rule: db_entries_text.induct)
  case 1
  then show ?case using rdb_newline[of m c D] by (simp add: db_toks_def)
next
  case (2 e)
  then show ?case using db_reads_entry[OF D 2(1), of e] by (simp add: db_toks_def split_beta)
next
  case (3 e e' es)
  obtain c1 where c1: "rdb_feeds D c (db_entry_text e @ [NL]) (Tok_key (fst e) # map (db_tok D) (snd e)) c1"
      "rdb_line m c1"
    using db_reads_entry[OF D 3(2), of e] 3(3) by auto
  obtain c2 where c2: "rdb_feeds D c1 (db_entries_text (e' # es) @ [NL]) (db_toks D (e' # es)) c2" "rdb_line m c2"
    using 3(1)[OF c1(2)] 3(3) by auto
  show ?case
    using feeds_append[OF c1(1) c2(1)] c2(2)
    by (intro exI[of _ c2]) (auto simp: db_toks_def split_beta)
qed

lemma db_reads_text:
  assumes "exact_ints D" "list_all (db_entry_ok m) es" "rdb_line m c"
  shows "rdb_run D c (db_text es) = Inr (True, db_toks D es)"
proof -
  obtain c1 where "rdb_feeds D c (db_entries_text es @ [NL]) (db_toks D es) c1" "rdb_line m c1"
    using db_reads_entries[OF assms(1,3,2)] by blast
  then show ?thesis
    using rdb_run_feeds[of D c "db_entries_text es @ [NL]" "db_toks D es" c1 "[NUL]"]
    by (simp add: db_text_def rdb_run_end del: rdb_run.simps)
qed

lemma db_loaded:
  assumes "exact_ints D" "list_all (db_entry_ok (length sbuf)) es" "sbuf \<noteq> []"
  shows "rdb_run D (rdb_init sbuf (length sbuf)) (db_text es) = Inr (True, db_toks D es)"
  using assms(3) by (intro db_reads_text[OF assms(1,2)] rdb_init_line) auto

text \<open>The reader stops at the end mark, whatever comes after it.\<close>

lemma rdb_run_rest: "rdb_run D c s = Inr (True, ts) \<Longrightarrow> rdb_run D c (s @ rest) = Inr (True, ts)"
proof (induction s arbitrary: c ts)
  case (Cons ch s)
  then obtain r c1 where n: "rdb_next D c ch = Inr (r, c1)" by (auto simp: and_then_eq_Inr)
  with Cons.prems obtain t where t: "r \<noteq> rdb_next_syntax" "rdb_token D c1 = Inr t" by (auto simp: and_then_eq_Inr split: if_splits)
  show ?case
  proof (cases "r = rdb_next_fin")
    case False
    with Cons.prems n t obtain us where "rdb_run D c1 s = Inr (True, us)" "ts = t @ us" by (auto simp: and_then_eq_Inr)
    with Cons.IH[of c1 us] n t False show ?thesis by simp
  qed (use Cons.prems n t in simp)
qed (simp add: sob_panic_def)

section \<open>The round trip\<close>

text \<open>
  Write the calls \<open>xs\<close> into \<open>buf\<close> and read the text back with the string buffer
  \<open>sbuf\<close>; \<open>None\<close> if the writer refuses a call.
\<close>

definition db_write_read :: "'d double_ops \<Rightarrow> string \<Rightarrow> string \<Rightarrow> 'd wdb_call list \<Rightarrow>
    (bool \<times> 'd rdb_tok list) option outcome" where
  "db_write_read D buf sbuf xs =
     and_then (wdb_init buf (length buf)) (\<lambda>c.
     and_then (wdb_execs D c xs) (\<lambda>(r, c).
       if r \<noteq> wdb_ok then Inr None
       else and_then (rdb_run D (rdb_init sbuf (length sbuf)) (wdb_text c)) (\<lambda>x. Inr (Some x))))"

text \<open>
  C2: Every file made of good entries that fits the output buffer is written without error,
  and reading what was written reports exactly the keys and values that were passed to the
  writer, in their order, and ends with \<^verbatim>\<open>fin\<close>. The arithmetic \<open>D\<close> is any that is
  exact on integers of 53 bits.
\<close>

theorem db_round_trip:
  assumes "exact_ints D" and "list_all (db_entry_ok (length sbuf)) es" and "sbuf \<noteq> []"
    and "length (db_text es) \<le> length buf"
  shows "db_write_read D buf sbuf (db_calls es) = Inr (Some (True, db_toks D es))"
proof -
  obtain c c' where "wdb_init buf (length buf) = Inr c" "wdb_execs D c (db_calls es) = Inr (wdb_ok, c')" "wdb_text c' = db_text es"
    by (rule db_written[OF assms(2,4)])
  moreover note db_loaded[OF assms(1-3)]
  ultimately show ?thesis by (simp add: db_write_read_def)
qed

theorem db_round_trip_witness:
  "db_write_read int_double (replicate 80 NUL) (replicate 8 NUL)
     (db_calls [(''name'', [Wstr [CHR ''a'', DQ, NL], Wint (-5), Wbool True]), (''_b'', [Wlong_str ''x<y''])]) =
   Inr (Some (True, [Tok_key ''name'', Tok_str [CHR ''a'', DQ, NL], Tok_num (-5), Tok_bool True,
     Tok_key ''_b'', Tok_str ''x<y'']))"
proof -
  let ?es = "[(''name'', [Wstr [CHR ''a'', DQ, NL], Wint (-5), Wbool True]), (''_b'', [Wlong_str ''x<y''])]"
  have "list_all (db_entry_ok (length (replicate 8 NUL))) ?es" by code_simp
  moreover have "length (db_text ?es) \<le> length (replicate 80 NUL)" by code_simp
  moreover have "db_toks int_double ?es = [Tok_key ''name'', Tok_str [CHR ''a'', DQ, NL], Tok_num (-5),
    Tok_bool True, Tok_key ''_b'', Tok_str ''x<y'']" by code_simp
  ultimately show ?thesis
    using db_round_trip[OF exact_int_double, of "replicate 8 NUL" ?es "replicate 80 NUL"] by simp
qed

text \<open>
  A backslash does not survive: the writer copies it as it is, and the reader takes it for
  an escape. A backslash and an \<open>n\<close> come back as a newline; a value that ends in a
  backslash swallows its own closing quote, and the file cannot be read back.
\<close>

theorem db_backslash_lost:
  "db_write_read int_double (replicate 20 NUL) (replicate 8 NUL) (db_calls [(''k'', [Wstr [BSL, CHR ''n'']])]) =
     Inr (Some (True, [Tok_key ''k'', Tok_str [NL]])) \<and>
   db_write_read int_double (replicate 20 NUL) (replicate 8 NUL) (db_calls [(''k'', [Wstr [BSL]])]) =
     Inr (Some (False, [Tok_key ''k'']))"
  by code_simp

text \<open>
  The writer accepts keys the reader refuses: the empty key, and a key that starts with a
  digit, a minus or a dot, which the reader takes for a number where none is expected.
\<close>

theorem db_key_refused:
  "list_all (\<lambda>k. db_write_read int_double (replicate 20 NUL) (replicate 8 NUL) (db_calls [(k, [Wbool True])]) =
     Inr (Some (False, []))) [[], ''1a'', ''-a'', ''.a'']"
  by code_simp

end
