(* ===== verification/Wjson.thy ===== *)
theory Wjson
  imports Prelude
begin

text \<open>
  The JSON writer (\<^verbatim>\<open>src/src/wjson.h\<close>, \<^verbatim>\<open>src/src/wjson.c\<close>): it appends to a caller's buffer
  and keeps the stack of open objects and arrays, what the next call must be, and whether a
  comma is due. Every function of the file is here. The theorems: a refinement to an abstract
  machine that says which text a call appends, what it does to the stack, and which calls
  are refused; freedom from panics below the depth limit; the bounds of the buffer.
\<close>

section \<open>Types\<close>

datatype wjson_res = wjson_bad_arg | wjson_syntax | wjson_overflow | wjson_ok

datatype wj_st = Wj_none | Wj_want_key | Wj_want_val

datatype wj_lvl_ty = Lvl_none | Lvl_obj | Lvl_arr

definition wj_max_depth :: nat where "wj_max_depth = 24"
definition wj_indentation :: nat where "wj_indentation = 4"

text \<open>
  The array \<^verbatim>\<open>lvls\<close> with its length is the list of its used part, the last element first.
\<close>

record wjson_ctx =
  wj_is_pretty :: bool
  wj_str :: string
  wj_mlen :: nat
  wj_len :: nat
  wj_lvls :: "wj_lvl_ty list"
  wj_st :: wj_st
  wj_need_comma :: bool
  wj_is_first :: bool

type_synonym wjson_ret = "(wjson_res \<times> wjson_ctx) outcome"

section \<open>Operations\<close>

definition wj_check :: "wjson_ret \<Rightarrow> (wjson_ctx \<Rightarrow> wjson_ret) \<Rightarrow> wjson_ret" where
  "wj_check m k = and_then m (\<lambda>(r, c). if r \<noteq> wjson_ok then Inr (r, c) else k c)"

text \<open>
  \<^verbatim>\<open>wjson_init\<close> leaves the fields \<^verbatim>\<open>lvls\<close>, \<^verbatim>\<open>lvls_len\<close> and \<^verbatim>\<open>is_first\<close> of the
  struct as they were: the struct it is given is an argument.
\<close>

definition wjson_init :: "wjson_ctx \<Rightarrow> string \<Rightarrow> nat \<Rightarrow> bool \<Rightarrow> wjson_ctx outcome" where
  "wjson_init c out_str out_str_max_len is_pretty =
     (let c = c\<lparr>wj_is_pretty := is_pretty, wj_str := out_str, wj_mlen := out_str_max_len, wj_len := 0,
                wj_st := Wj_none, wj_need_comma := False\<rparr> in
      and_then (if wj_mlen c \<ge> 1 then poke (wj_str c) 0 NUL else Inr (wj_str c)) (\<lambda>b.
      and_then (if wj_mlen c \<ge> 2 then poke b (wj_mlen c - 1) NUL else Inr b) (\<lambda>b.
      Inr (c\<lparr>wj_str := b\<rparr>))))"

definition wjson_out_str :: "wjson_ctx \<Rightarrow> string" where
  "wjson_out_str c = wj_str c"

definition wj_add_ch :: "wjson_ctx \<Rightarrow> char \<Rightarrow> wjson_ret" where
  "wj_add_ch c ch =
     (if wj_len c + 2 > wj_mlen c then Inr (wjson_overflow, c)
      else and_then (poke (wj_str c) (wj_len c) ch) (\<lambda>b.
        Inr (wjson_ok, c\<lparr>wj_str := b, wj_len := wj_len c + 1\<rparr>)))"

definition wj_maybe_comma :: "wjson_ctx \<Rightarrow> wjson_ret" where
  "wj_maybe_comma c =
     (if wj_need_comma c then
        wj_check (wj_add_ch c (CHR '','')) (\<lambda>c.
        wj_check (if wj_is_pretty c then wj_add_ch c NL else Inr (wjson_ok, c)) (\<lambda>c.
        Inr (wjson_ok, c\<lparr>wj_need_comma := False\<rparr>)))
      else Inr (wjson_ok, c))"

text \<open>The two loops of \<^verbatim>\<open>maybe_indent_\<close>: the spaces of one level, and the levels.\<close>

fun wj_spaces :: "nat \<Rightarrow> wjson_ctx \<Rightarrow> wjson_ctx outcome" where
  "wj_spaces 0 c = Inr c"
| "wj_spaces (Suc j) c =
     and_then (poke (wj_str c) (wj_len c) SPC) (\<lambda>b.
     wj_spaces j (c\<lparr>wj_str := b, wj_len := wj_len c + 1\<rparr>))"

fun wj_indents :: "nat \<Rightarrow> wjson_ctx \<Rightarrow> wjson_ret" where
  "wj_indents 0 c = Inr (wjson_ok, c)"
| "wj_indents (Suc i) c =
     (if wj_len c + wj_indentation + 1 > wj_mlen c then Inr (wjson_overflow, c)
      else and_then (wj_spaces wj_indentation c) (wj_indents i))"

definition wj_maybe_indent :: "wjson_ctx \<Rightarrow> wjson_ret" where
  "wj_maybe_indent c =
     (if wj_is_pretty c \<and> wj_st c \<noteq> Wj_want_val then wj_indents (length (wj_lvls c)) c
      else Inr (wjson_ok, c))"

definition wj_lvl :: "wjson_ctx \<Rightarrow> wj_lvl_ty" where
  "wj_lvl c = (case wj_lvls c of [] \<Rightarrow> Lvl_none | l # _ \<Rightarrow> l)"

definition wj_add_lvl :: "wjson_ctx \<Rightarrow> wj_lvl_ty \<Rightarrow> wjson_ctx outcome" where
  "wj_add_lvl c lvl =
     (if length (wj_lvls c) = wj_max_depth then sob_panic
      else if length (wj_lvls c) < wj_max_depth then Inr (c\<lparr>wj_lvls := lvl # wj_lvls c\<rparr>)
      else Inl Out_of_bounds)"

definition wj_pop_lvl :: "wjson_ctx \<Rightarrow> wjson_ctx outcome" where
  "wj_pop_lvl c = (case wj_lvls c of [] \<Rightarrow> sob_panic | _ # ls \<Rightarrow> Inr (c\<lparr>wj_lvls := ls\<rparr>))"

text \<open>\<^verbatim>\<open>escape_ch_\<close>: whether a backslash goes first, and the character.\<close>

definition wj_escape_ch :: "char \<Rightarrow> bool \<times> char" where
  "wj_escape_ch ch =
     (if ch = BS then (True, CHR ''b'') else if ch = FF then (True, CHR ''f'')
      else if ch = NL then (True, CHR ''n'') else if ch = CR then (True, CHR ''r'')
      else if ch = TAB then (True, CHR ''t'') else if ch = DQ then (True, DQ)
      else if ch = BSL then (True, BSL) else (False, ch))"

text \<open>The three statements every value starts with: the comma, the newline, the indent.\<close>

definition wj_opening :: "wjson_ctx \<Rightarrow> (wjson_ctx \<Rightarrow> wjson_ret) \<Rightarrow> wjson_ret" where
  "wj_opening c k =
     wj_check (wj_maybe_comma c) (\<lambda>c.
     wj_check (if wj_is_pretty c \<and> wj_is_first c then wj_add_ch c NL else Inr (wjson_ok, c)) (\<lambda>c.
     wj_check (wj_maybe_indent c) k))"

fun wj_chars :: "wjson_ctx \<Rightarrow> string \<Rightarrow> wjson_ret" where
  "wj_chars c [] = Inr (wjson_ok, c)"
| "wj_chars c (ch # str) =
     (case wj_escape_ch ch of (need_escape, ch') \<Rightarrow>
        wj_check (if need_escape then wj_add_ch c BSL else Inr (wjson_ok, c)) (\<lambda>c.
        wj_check (wj_add_ch c ch') (\<lambda>c.
        wj_chars c str)))"

definition wjson_str :: "wjson_ctx \<Rightarrow> string \<Rightarrow> wjson_ret" where
  "wjson_str c str =
     wj_opening c (\<lambda>c.
     let c = c\<lparr>wj_is_first := False\<rparr> in
     wj_check (wj_add_ch c DQ) (\<lambda>c.
     wj_check (wj_chars c str) (\<lambda>c.
     wj_check (wj_add_ch c DQ) (\<lambda>c.
     case wj_st c of
       Wj_want_val \<Rightarrow> Inr (wjson_ok, c\<lparr>wj_st := Wj_want_key, wj_need_comma := True\<rparr>)
     | Wj_want_key \<Rightarrow>
         let c = c\<lparr>wj_need_comma := False\<rparr> in
         if wj_lvl c = Lvl_obj then
           wj_check (wj_add_ch c (CHR '':'')) (\<lambda>c.
           wj_check (if wj_is_pretty c then wj_add_ch c SPC else Inr (wjson_ok, c)) (\<lambda>c.
           Inr (wjson_ok, c\<lparr>wj_st := Wj_want_val\<rparr>)))
         else sob_panic
     | Wj_none \<Rightarrow> Inr (wjson_ok, c\<lparr>wj_need_comma := True\<rparr>)))))"

fun wj_literal_chars :: "wjson_ctx \<Rightarrow> string \<Rightarrow> wjson_ret" where
  "wj_literal_chars c [] = Inr (wjson_ok, c)"
| "wj_literal_chars c (ch # str) = wj_check (wj_add_ch c ch) (\<lambda>c. wj_literal_chars c str)"

declare wj_literal_chars.simps [simp del]

definition wj_add_literal :: "wjson_ctx \<Rightarrow> string \<Rightarrow> wjson_ret" where
  "wj_add_literal c str =
     (if wj_st c \<noteq> Wj_none \<and> wj_st c \<noteq> Wj_want_val then Inr (wjson_syntax, c)
      else wj_opening c (\<lambda>c.
        let c = c\<lparr>wj_is_first := False, wj_need_comma := True\<rparr> in
        wj_check (wj_literal_chars c str) (\<lambda>c.
        Inr (wjson_ok, if wj_st c = Wj_want_val then c\<lparr>wj_st := Wj_want_key\<rparr> else c))))"

definition wj_printed :: "nat \<Rightarrow> wjson_ctx \<Rightarrow> string \<Rightarrow> wjson_ret" where
  "wj_printed bufsize c buf =
     (if wj_st c \<noteq> Wj_none \<and> wj_st c \<noteq> Wj_want_val then Inr (wjson_syntax, c)
      else if length buf \<ge> bufsize then Inr (wjson_overflow, c)
      else wj_add_literal c buf)"

definition wjson_int :: "wjson_ctx \<Rightarrow> 64 word \<Rightarrow> wjson_ret" where
  "wjson_int c num = wj_printed 50 c (fmt_int (sint num))"

definition wjson_double :: "'d double_ops \<Rightarrow> wjson_ctx \<Rightarrow> 'd \<Rightarrow> wjson_ret" where
  "wjson_double D c num = wj_printed 100 c (d_fmt_f D num)"

definition wjson_bool :: "wjson_ctx \<Rightarrow> bool \<Rightarrow> wjson_ret" where
  "wjson_bool c is_true = (if is_true then wj_add_literal c ''true'' else wj_add_literal c ''false'')"

definition wjson_null :: "wjson_ctx \<Rightarrow> wjson_ret" where
  "wjson_null c = wj_add_literal c ''null''"

definition wjson_obj_start :: "wjson_ctx \<Rightarrow> wjson_ret" where
  "wjson_obj_start c =
     (if wj_st c \<noteq> Wj_none \<and> wj_st c \<noteq> Wj_want_val then Inr (wjson_syntax, c)
      else wj_opening c (\<lambda>c.
        wj_check (wj_add_ch c (CHR ''{'')) (\<lambda>c.
        let c = c\<lparr>wj_st := Wj_want_key, wj_is_first := True, wj_need_comma := False\<rparr> in
        and_then (wj_add_lvl c Lvl_obj) (\<lambda>c. Inr (wjson_ok, c)))))"

text \<open>The newline and indent before a closing bracket.\<close>

definition wj_closing :: "wjson_ctx \<Rightarrow> (wjson_ctx \<Rightarrow> wjson_ret) \<Rightarrow> wjson_ret" where
  "wj_closing c k =
     (if wj_is_pretty c \<and> \<not> wj_is_first c then
        wj_check (wj_add_ch c NL) (\<lambda>c. wj_check (wj_maybe_indent c) k)
      else k c)"

definition wjson_obj_end :: "wjson_ctx \<Rightarrow> wjson_ret" where
  "wjson_obj_end c =
     (if wj_lvl c \<noteq> Lvl_obj then Inr (wjson_syntax, c)
      else if wj_st c = Wj_want_val then Inr (wjson_syntax, c)
      else and_then (wj_pop_lvl c) (\<lambda>c.
        wj_closing c (\<lambda>c.
        let c = c\<lparr>wj_is_first := False, wj_st := (if wj_lvl c = Lvl_obj then Wj_want_key else Wj_none),
                  wj_need_comma := True\<rparr> in
        wj_check (wj_add_ch c (CHR ''}'')) (\<lambda>c. Inr (wjson_ok, c)))))"

definition wjson_arr_start :: "wjson_ctx \<Rightarrow> wjson_ret" where
  "wjson_arr_start c =
     (if wj_st c = Wj_want_key then Inr (wjson_syntax, c)
      else wj_opening c (\<lambda>c.
        wj_check (wj_add_ch c (CHR ''['')) (\<lambda>c.
        and_then (wj_add_lvl c Lvl_arr) (\<lambda>c.
        Inr (wjson_ok, c\<lparr>wj_need_comma := False, wj_st := Wj_none, wj_is_first := True\<rparr>)))))"

definition wjson_arr_end :: "wjson_ctx \<Rightarrow> wjson_ret" where
  "wjson_arr_end c =
     (if wj_lvl c \<noteq> Lvl_arr then Inr (wjson_syntax, c)
      else and_then (wj_pop_lvl c) (\<lambda>c.
        wj_closing c (\<lambda>c.
        let c = c\<lparr>wj_is_first := False\<rparr>;
            c = (if wj_lvl c = Lvl_obj then c\<lparr>wj_st := Wj_want_key, wj_need_comma := False\<rparr>
                 else if wj_lvl c = Lvl_arr then c\<lparr>wj_need_comma := True\<rparr>
                 else c) in
        wj_check (wj_add_ch c (CHR '']'')) (\<lambda>c. Inr (wjson_ok, c)))))"

datatype 'd wj_call =
    Jstr string
  | Jint "64 word"
  | Jdouble 'd
  | Jbool bool
  | Jnull
  | Jobj_start
  | Jobj_end
  | Jarr_start
  | Jarr_end

fun wj_exec :: "'d double_ops \<Rightarrow> wjson_ctx \<Rightarrow> 'd wj_call \<Rightarrow> wjson_ret" where
  "wj_exec D c (Jstr v) = wjson_str c v"
| "wj_exec D c (Jint v) = wjson_int c v"
| "wj_exec D c (Jdouble v) = wjson_double D c v"
| "wj_exec D c (Jbool v) = wjson_bool c v"
| "wj_exec D c Jnull = wjson_null c"
| "wj_exec D c Jobj_start = wjson_obj_start c"
| "wj_exec D c Jobj_end = wjson_obj_end c"
| "wj_exec D c Jarr_start = wjson_arr_start c"
| "wj_exec D c Jarr_end = wjson_arr_end c"

fun wj_execs :: "'d double_ops \<Rightarrow> wjson_ctx \<Rightarrow> 'd wj_call list \<Rightarrow> wjson_ret" where
  "wj_execs D c [] = Inr (wjson_ok, c)"
| "wj_execs D c (x # xs) = wj_check (wj_exec D c x) (\<lambda>c. wj_execs D c xs)"

section \<open>The buffer\<close>

definition wj_buf :: "wjson_ctx \<Rightarrow> bool" where
  "wj_buf c \<longleftrightarrow> length (wj_str c) = wj_mlen c \<and> wj_len c \<le> wj_mlen c - 1"

definition wj_text :: "wjson_ctx \<Rightarrow> string" where
  "wj_text c = take (wj_len c) (wj_str c)"

text \<open>One byte is kept for the terminator \<^verbatim>\<open>wjson_init\<close> stores at the end.\<close>

definition wj_room :: "wjson_ctx \<Rightarrow> nat" where
  "wj_room c = wj_mlen c - 1 - wj_len c"

definition wj_put :: "wjson_ctx \<Rightarrow> string \<Rightarrow> wjson_ctx" where
  "wj_put c s = c\<lparr>wj_str := overwrite (wj_str c) (wj_len c) s, wj_len := wj_len c + length s\<rparr>"

lemmas wj_defs = wj_buf_def wj_text_def wj_room_def wj_put_def

interpretation wj: out_buffer wjson_ok wjson_overflow wj_buf wj_room wj_text wj_put
  wj_add_ch wj_literal_chars
proof unfold_locales
  fix c and s t :: string
  assume "wj_buf c" "length s + length t \<le> wj_room c"
  then have "wj_len c + length s + length t \<le> length (wj_str c)"
    by (auto simp: wj_defs)
  then show "wj_put (wj_put c s) t = wj_put c (s @ t)"
    using overwrite_overwrite by (simp add: wj_defs add.assoc)
next
  fix c and ch :: char
  show "wj_buf c \<Longrightarrow> 0 < wj_room c \<Longrightarrow> wj_add_ch c ch = Inr (wjson_ok, wj_put c [ch])"
    by (simp add: wj_defs wj_add_ch_def overwrite_single)
qed (auto simp: wj_defs wj_add_ch_def wj_literal_chars.simps wj_check_def)

lemma wj_put_flags [simp]:
  "wj_is_pretty (wj_put c s) = wj_is_pretty c" "wj_lvls (wj_put c s) = wj_lvls c" "wj_st (wj_put c s) = wj_st c"
  "wj_need_comma (wj_put c s) = wj_need_comma c" "wj_is_first (wj_put c s) = wj_is_first c"
  "wj_mlen (wj_put c s) = wj_mlen c" "wj_lvl (wj_put c s) = wj_lvl c"
  by (simp_all add: wj_put_def wj_lvl_def)

text \<open>The buffer part of a context does not depend on the other fields.\<close>

lemma wj_flag_updates [simp]:
  "wj_buf (c\<lparr>wj_need_comma := b\<rparr>) = wj_buf c" "wj_buf (c\<lparr>wj_is_first := b\<rparr>) = wj_buf c"
  "wj_buf (c\<lparr>wj_st := st\<rparr>) = wj_buf c" "wj_buf (c\<lparr>wj_lvls := ls\<rparr>) = wj_buf c"
  "wj_room (c\<lparr>wj_need_comma := b\<rparr>) = wj_room c" "wj_room (c\<lparr>wj_is_first := b\<rparr>) = wj_room c"
  "wj_room (c\<lparr>wj_st := st\<rparr>) = wj_room c" "wj_room (c\<lparr>wj_lvls := ls\<rparr>) = wj_room c"
  "wj_text (c\<lparr>wj_need_comma := b\<rparr>) = wj_text c" "wj_text (c\<lparr>wj_is_first := b\<rparr>) = wj_text c"
  "wj_text (c\<lparr>wj_st := st\<rparr>) = wj_text c" "wj_text (c\<lparr>wj_lvls := ls\<rparr>) = wj_text c"
  "wj_put (c\<lparr>wj_need_comma := b\<rparr>) s = (wj_put c s)\<lparr>wj_need_comma := b\<rparr>"
  "wj_put (c\<lparr>wj_is_first := b\<rparr>) s = (wj_put c s)\<lparr>wj_is_first := b\<rparr>"
  "wj_put (c\<lparr>wj_st := st\<rparr>) s = (wj_put c s)\<lparr>wj_st := st\<rparr>"
  "wj_put (c\<lparr>wj_lvls := ls\<rparr>) s = (wj_put c s)\<lparr>wj_lvls := ls\<rparr>"
  by (simp_all add: wj_defs)

text \<open>
  \<open>wj_appends c s m k\<close>: the statement \<open>m\<close>, run in \<open>c\<close>, appends \<open>s\<close> and goes on with
  \<open>k\<close> if \<open>s\<close> fits, and otherwise reports the overflow.
\<close>

definition wj_appends :: "wjson_ctx \<Rightarrow> string \<Rightarrow> wjson_ret \<Rightarrow> (wjson_ctx \<Rightarrow> wjson_ret) \<Rightarrow> bool" where
  "wj_appends c s m k \<longleftrightarrow>
     (if length s \<le> wj_room c then m = k (wj_put c s)
      else \<exists>c'. m = Inr (wjson_overflow, c') \<and> wj_buf c')"

lemma wj_appends_nothing: "wj_buf c \<Longrightarrow> wj_appends c [] (k c) k"
  by (simp add: wj_appends_def wj.put_Nil)

lemma wj_appends_ch: "wj_buf c \<Longrightarrow> wj_appends c [ch] (wj_check (wj_add_ch c ch) k) k"
  by (auto simp: wj_appends_def wj_check_def wj.add_ch_eq)

lemma wj_appends_literal: "wj_buf c \<Longrightarrow> wj_appends c s (wj_check (wj_literal_chars c s) k) k"
  by (auto simp: wj_appends_def wj_check_def wj.add_str_eq intro!: wj.inv_put)

lemma wj_appends_trans:
  assumes "wj_buf c" "wj_appends c s m k"
    and "length s \<le> wj_room c \<Longrightarrow> wj_buf (wj_put c s) \<Longrightarrow> wj_appends (wj_put c s) t (k (wj_put c s)) k'"
  shows "wj_appends c (s @ t) m k'"
proof (cases "length s \<le> wj_room c")
  case True
  then have "wj_buf (wj_put c s)" "wj_room (wj_put c s) = wj_room c - length s"
    using assms(1) by (simp_all add: wj.inv_put wj.room_put)
  with True assms(2) assms(3)[OF True] show ?thesis
    using wj.put_put[OF assms(1), of s t] by (auto simp: wj_appends_def)
next
  case False
  with assms(2) show ?thesis by (auto simp: wj_appends_def)
qed

text \<open>Updates of the other fields commute with the buffer.\<close>

definition wj_upd :: "(wjson_ctx \<Rightarrow> wjson_ctx) \<Rightarrow> bool" where
  "wj_upd f \<longleftrightarrow> (\<forall>c. wj_buf (f c) = wj_buf c \<and> wj_room (f c) = wj_room c \<and> wj_text (f c) = wj_text c \<and>
     wj_mlen (f c) = wj_mlen c \<and> (\<forall>s. wj_put (f c) s = f (wj_put c s)))"

lemma wj_upd_fields:
  "wj_upd (\<lambda>c. c\<lparr>wj_need_comma := b\<rparr>)" "wj_upd (\<lambda>c. c\<lparr>wj_is_first := b\<rparr>)" "wj_upd (\<lambda>c. c\<lparr>wj_st := st\<rparr>)"
  "wj_upd (\<lambda>c. c\<lparr>wj_lvls := ls\<rparr>)"
  by (simp_all add: wj_upd_def)

lemma wj_upd_comp: "wj_upd f \<Longrightarrow> wj_upd g \<Longrightarrow> wj_upd (\<lambda>c. f (g c))"
  by (simp add: wj_upd_def)

lemma wj_appends_upd:
  "wj_upd f \<Longrightarrow> wj_appends (f c) s m k \<Longrightarrow> wj_appends c s m (\<lambda>c. k (f c))"
  by (simp add: wj_appends_def wj_upd_def)

definition wj_comma_text :: "wjson_ctx \<Rightarrow> string" where
  "wj_comma_text c = (if wj_need_comma c then '','' @ (if wj_is_pretty c then [NL] else []) else [])"

lemma wj_maybe_comma_appends:
  assumes "wj_buf c"
  shows "wj_appends c (wj_comma_text c) (wj_check (wj_maybe_comma c) k) (\<lambda>c. k (c\<lparr>wj_need_comma := False\<rparr>))"
proof (cases "wj_need_comma c")
  case False
  then have "k c = k (c\<lparr>wj_need_comma := False\<rparr>)" by (cases c) simp
  with False assms show ?thesis
    by (auto simp: wj_appends_def wj_comma_text_def wj_maybe_comma_def wj_check_def wj.put_Nil)
next
  case True
  let ?k = "\<lambda>c. wj_check (Inr (wjson_ok, c\<lparr>wj_need_comma := False\<rparr>)) k"
  let ?nl = "\<lambda>c. wj_check (if wj_is_pretty c then wj_add_ch c NL else Inr (wjson_ok, c)) ?k"
  have eq: "wj_check (wj_maybe_comma c) k = wj_check (wj_add_ch c (CHR '','')) ?nl"
    using True by (auto simp: wj_maybe_comma_def wj_check_def and_then_def split: sum.splits prod.splits)
  have nl: "wj_appends c (if wj_is_pretty c then [NL] else []) (?nl c) ?k" if "wj_buf c" for c
    using wj_appends_ch[OF that, of NL ?k] wj_appends_nothing[OF that, of ?k]
    by (auto simp: wj_check_def)
  have "wj_appends c ('','' @ (if wj_is_pretty c then [NL] else [])) (wj_check (wj_maybe_comma c) k) ?k"
    unfolding eq
    by (rule wj_appends_trans[OF assms wj_appends_ch[OF assms]]) (use nl[of "wj_put c '',''"] in simp)
  then show ?thesis
    using True by (simp add: wj_comma_text_def wj_check_def)
qed

lemma wj_spaces_put:
  "wj_buf c \<Longrightarrow> n \<le> wj_room c \<Longrightarrow> wj_spaces n c = Inr (wj_put c (replicate n SPC))"
proof (induction n arbitrary: c)
  case (Suc n)
  let ?c = "wj_put c [SPC]"
  have "wj_buf ?c" "wj_room ?c = wj_room c - 1" using Suc.prems by (simp_all add: wj.inv_put wj.room_put)
  moreover have "wj_put ?c (replicate n SPC) = wj_put c (SPC # replicate n SPC)"
    using wj.put_put[OF Suc.prems(1), of "[SPC]" "replicate n SPC"] Suc.prems by simp
  moreover have "c\<lparr>wj_str := (wj_str c)[wj_len c := SPC], wj_len := wj_len c + 1\<rparr> = ?c" "wj_len c < length (wj_str c)"
    using Suc.prems by (auto simp: wj_defs overwrite_single)
  ultimately show ?case using Suc by simp
qed (simp add: wj.put_Nil)

lemma wj_indents_appends:
  "wj_buf c \<Longrightarrow> wj_appends c (replicate (n * wj_indentation) SPC) (wj_check (wj_indents n c) k) k"
proof (induction n arbitrary: c)
  case 0
  then show ?case using wj_appends_nothing[OF 0, of k] by (simp add: wj_check_def)
next
  case (Suc n)
  let ?s = "replicate wj_indentation SPC"
  have "0 < wj_indentation" by (simp add: wj_indentation_def)
  then have "wj_appends c ?s (wj_check (wj_indents (Suc n) c) k) (\<lambda>c. wj_check (wj_indents n c) k)"
    using Suc.prems wj_spaces_put[OF Suc.prems, of wj_indentation]
    by (auto simp: wj_appends_def wj_check_def wj_defs)
  from wj_appends_trans[OF Suc.prems this Suc.IH] show ?case
    by (simp add: replicate_add)
qed

definition wj_indent_text :: "wjson_ctx \<Rightarrow> string" where
  "wj_indent_text c = (if wj_is_pretty c \<and> wj_st c \<noteq> Wj_want_val
     then replicate (length (wj_lvls c) * wj_indentation) SPC else [])"

lemma wj_indent_text_simps [simp]:
  "wj_indent_text (wj_put c s) = wj_indent_text c" "wj_indent_text (c\<lparr>wj_need_comma := b\<rparr>) = wj_indent_text c"
  "wj_indent_text (c\<lparr>wj_is_first := b\<rparr>) = wj_indent_text c"
  by (simp_all add: wj_indent_text_def)

lemma wj_maybe_indent_appends:
  "wj_buf c \<Longrightarrow> wj_appends c (wj_indent_text c) (wj_check (wj_maybe_indent c) k) k"
  using wj_indents_appends[of c "length (wj_lvls c)" k] wj_appends_nothing[of c k]
  by (auto simp: wj_indent_text_def wj_maybe_indent_def wj_check_def)

definition wj_opening_text :: "wjson_ctx \<Rightarrow> string" where
  "wj_opening_text c = wj_comma_text c @ (if wj_is_pretty c \<and> wj_is_first c then [NL] else []) @ wj_indent_text c"

lemma wj_opening_appends:
  assumes "wj_buf c"
  shows "wj_appends c (wj_opening_text c) (wj_opening c k) (\<lambda>c. k (c\<lparr>wj_need_comma := False\<rparr>))"
proof -
  let ?nl = "\<lambda>c. wj_check (if wj_is_pretty c \<and> wj_is_first c then wj_add_ch c NL else Inr (wjson_ok, c))
    (\<lambda>c. wj_check (wj_maybe_indent c) k)"
  have nl: "wj_appends c ((if wj_is_pretty c \<and> wj_is_first c then [NL] else []) @ wj_indent_text c) (?nl c) k"
    if buf: "wj_buf c" for c
  proof (rule wj_appends_trans[OF buf])
    show "wj_appends c (if wj_is_pretty c \<and> wj_is_first c then [NL] else []) (?nl c) (\<lambda>c. wj_check (wj_maybe_indent c) k)"
      using wj_appends_ch[OF buf, of NL "\<lambda>c. wj_check (wj_maybe_indent c) k"]
        wj_appends_nothing[OF buf, of "\<lambda>c. wj_check (wj_maybe_indent c) k"]
      by (simp add: wj_check_def)
  next
    let ?c = "wj_put c (if wj_is_pretty c \<and> wj_is_first c then [NL] else [])"
    assume "wj_buf ?c"
    from wj_maybe_indent_appends[OF this, of k] show "wj_appends ?c (wj_indent_text c) (wj_check (wj_maybe_indent ?c) k) k"
      unfolding wj_indent_text_simps .
  qed
  show ?thesis
    unfolding wj_opening_def wj_opening_text_def
  proof (rule wj_appends_trans[OF assms wj_maybe_comma_appends[OF assms]])
    assume "wj_buf (wj_put c (wj_comma_text c))"
    then show "wj_appends (wj_put c (wj_comma_text c)) ((if wj_is_pretty c \<and> wj_is_first c then [NL] else []) @ wj_indent_text c)
      (?nl ((wj_put c (wj_comma_text c))\<lparr>wj_need_comma := False\<rparr>)) (\<lambda>c. k (c\<lparr>wj_need_comma := False\<rparr>))"
      using nl[of "(wj_put c (wj_comma_text c))\<lparr>wj_need_comma := False\<rparr>"]
      by (intro wj_appends_upd[OF wj_upd_fields(1)]) simp
  qed
qed

lemma wj_appends_then:
  assumes "wj_buf c" "wj_upd f" "wj_appends c s m (\<lambda>c. k (f c))"
    and "wj_buf (wj_put c s) \<Longrightarrow> wj_appends (f (wj_put c s)) t (k (f (wj_put c s))) k'"
  shows "wj_appends c (s @ t) m (\<lambda>c. k' (f c))"
  by (rule wj_appends_trans[OF assms(1,3)], rule wj_appends_upd[OF assms(2)], rule assms(4))

section \<open>The abstract machine\<close>

text \<open>
  What is left of a context without the buffer: the mode, the open levels, what comes next
  and whether a comma is due. \<open>wa_step\<close> is the specification of every call: the text it
  appends and the state after it, the answer if it is refused, or the text after which it
  panics because the levels are full.
\<close>

record wj_abs =
  wa_pretty :: bool
  wa_lvls :: "wj_lvl_ty list"
  wa_st :: wj_st
  wa_comma :: bool
  wa_first :: bool

datatype wj_out = Refuses wjson_res | Emits string wj_abs | Too_deep string

definition wj_abs_of :: "wjson_ctx \<Rightarrow> wj_abs" where
  "wj_abs_of c = \<lparr>wa_pretty = wj_is_pretty c, wa_lvls = wj_lvls c, wa_st = wj_st c,
     wa_comma = wj_need_comma c, wa_first = wj_is_first c\<rparr>"

definition wa_lvl :: "wj_abs \<Rightarrow> wj_lvl_ty" where
  "wa_lvl a = (case wa_lvls a of [] \<Rightarrow> Lvl_none | l # _ \<Rightarrow> l)"

definition wa_indent :: "wj_abs \<Rightarrow> string" where
  "wa_indent a = (if wa_pretty a \<and> wa_st a \<noteq> Wj_want_val
     then replicate (length (wa_lvls a) * wj_indentation) SPC else [])"

definition wa_opening :: "wj_abs \<Rightarrow> string" where
  "wa_opening a =
     (if wa_comma a then '','' @ (if wa_pretty a then [NL] else []) else []) @
     (if wa_pretty a \<and> wa_first a then [NL] else []) @ wa_indent a"

definition wa_closing :: "wj_abs \<Rightarrow> string" where
  "wa_closing a = (if wa_pretty a \<and> \<not> wa_first a then [NL] @ wa_indent a else [])"

definition wj_esc :: "char \<Rightarrow> string" where
  "wj_esc ch = (case wj_escape_ch ch of (e, ch') \<Rightarrow> if e then [BSL, ch'] else [ch'])"

definition wj_quoted :: "string \<Rightarrow> string" where
  "wj_quoted v = [DQ] @ concat (map wj_esc v) @ [DQ]"

definition wa_literal :: "wj_abs \<Rightarrow> string \<Rightarrow> wj_out" where
  "wa_literal a s =
     (if wa_st a = Wj_want_key then Refuses wjson_syntax
      else Emits (wa_opening a @ s)
        (a\<lparr>wa_first := False, wa_comma := True, wa_st := (if wa_st a = Wj_want_val then Wj_want_key else wa_st a)\<rparr>))"

fun wa_step :: "'d double_ops \<Rightarrow> wj_abs \<Rightarrow> 'd wj_call \<Rightarrow> wj_out" where
  "wa_step D a (Jstr v) =
     (case wa_st a of
        Wj_want_key \<Rightarrow> Emits (wa_opening a @ wj_quoted v @ '':'' @ (if wa_pretty a then [SPC] else []))
          (a\<lparr>wa_first := False, wa_comma := False, wa_st := Wj_want_val\<rparr>)
      | Wj_want_val \<Rightarrow> Emits (wa_opening a @ wj_quoted v) (a\<lparr>wa_first := False, wa_comma := True, wa_st := Wj_want_key\<rparr>)
      | Wj_none \<Rightarrow> Emits (wa_opening a @ wj_quoted v) (a\<lparr>wa_first := False, wa_comma := True\<rparr>))"
| "wa_step D a (Jint v) = wa_literal a (fmt_int (sint v))"
| "wa_step D a (Jdouble v) =
     (if wa_st a \<noteq> Wj_want_key \<and> length (d_fmt_f D v) \<ge> 100 then Refuses wjson_overflow
      else wa_literal a (d_fmt_f D v))"
| "wa_step D a (Jbool v) = wa_literal a (if v then ''true'' else ''false'')"
| "wa_step D a Jnull = wa_literal a ''null''"
| "wa_step D a Jobj_start =
     (if wa_st a = Wj_want_key then Refuses wjson_syntax
      else if length (wa_lvls a) = wj_max_depth then Too_deep (wa_opening a @ ''{'')
      else Emits (wa_opening a @ ''{'')
        (a\<lparr>wa_st := Wj_want_key, wa_first := True, wa_comma := False, wa_lvls := Lvl_obj # wa_lvls a\<rparr>))"
| "wa_step D a Jobj_end =
     (if wa_lvl a \<noteq> Lvl_obj \<or> wa_st a = Wj_want_val then Refuses wjson_syntax
      else let a = a\<lparr>wa_lvls := tl (wa_lvls a)\<rparr> in
        Emits (wa_closing a @ ''}'')
          (a\<lparr>wa_first := False, wa_st := (if wa_lvl a = Lvl_obj then Wj_want_key else Wj_none), wa_comma := True\<rparr>))"
| "wa_step D a Jarr_start =
     (if wa_st a = Wj_want_key then Refuses wjson_syntax
      else if length (wa_lvls a) = wj_max_depth then Too_deep (wa_opening a @ ''['')
      else Emits (wa_opening a @ ''['')
        (a\<lparr>wa_st := Wj_none, wa_first := True, wa_comma := False, wa_lvls := Lvl_arr # wa_lvls a\<rparr>))"
| "wa_step D a Jarr_end =
     (if wa_lvl a \<noteq> Lvl_arr then Refuses wjson_syntax
      else let a = a\<lparr>wa_lvls := tl (wa_lvls a)\<rparr> in
        Emits (wa_closing a @ '']'')
          (case wa_lvl a of
             Lvl_obj \<Rightarrow> a\<lparr>wa_first := False, wa_st := Wj_want_key, wa_comma := False\<rparr>
           | Lvl_arr \<Rightarrow> a\<lparr>wa_first := False, wa_comma := True\<rparr>
           | Lvl_none \<Rightarrow> a\<lparr>wa_first := False\<rparr>))"

text \<open>Inside an object a key or a value is due; elsewhere neither. At most 24 levels.\<close>

definition wa_ok :: "wj_abs \<Rightarrow> bool" where
  "wa_ok a \<longleftrightarrow> length (wa_lvls a) \<le> wj_max_depth \<and> Lvl_none \<notin> set (wa_lvls a) \<and>
     (wa_lvl a = Lvl_obj \<longleftrightarrow> wa_st a \<noteq> Wj_none)"

lemma wa_step_ok: "wa_ok a \<Longrightarrow> wa_step D a x = Emits s a' \<Longrightarrow> wa_ok a' \<and> wa_pretty a' = wa_pretty a"
  by (cases x; cases "wa_st a"; cases "wa_lvls a")
    (auto simp: wa_ok_def wa_literal_def wa_lvl_def Let_def split: if_splits wj_lvl_ty.splits list.splits)

section \<open>Refinement\<close>

definition wj_meets :: "wjson_ctx \<Rightarrow> wjson_ret \<Rightarrow> wj_out \<Rightarrow> bool" where
  "wj_meets c m out = (case out of
     Refuses r \<Rightarrow> m = Inr (r, c)
   | Emits s a \<Rightarrow>
       if length s \<le> wj_room c
       then \<exists>c'. m = Inr (wjson_ok, c') \<and> wj_buf c' \<and> wj_text c' = wj_text c @ s \<and> wj_mlen c' = wj_mlen c \<and>
         wj_abs_of c' = a
       else \<exists>c'. m = Inr (wjson_overflow, c') \<and> wj_buf c'
   | Too_deep s \<Rightarrow>
       if length s \<le> wj_room c then m = Inl Panic
       else \<exists>c'. m = Inr (wjson_overflow, c') \<and> wj_buf c')"

lemma wj_meets_emits:
  assumes "wj_buf c" "wj_appends c s m (\<lambda>c. Inr (wjson_ok, f c))" "wj_upd f" "wj_abs_of (f (wj_put c s)) = a"
  shows "wj_meets c m (Emits s a)"
  using assms wj.inv_put[of c s] wj.text_put[of c s]
  by (auto simp: wj_meets_def wj_appends_def wj_upd_def)

lemma wj_meets_too_deep:
  "wj_appends c s m (\<lambda>c. Inl Panic) \<Longrightarrow> wj_meets c m (Too_deep s)"
  by (simp add: wj_meets_def wj_appends_def)

lemma wj_opening_abs: "wj_opening_text c = wa_opening (wj_abs_of c)"
  by (simp add: wj_opening_text_def wa_opening_def wj_abs_of_def wj_comma_text_def wj_indent_text_def wa_indent_def)

lemma wj_lvl_abs: "wj_lvl c = wa_lvl (wj_abs_of c)"
  by (simp add: wj_lvl_def wa_lvl_def wj_abs_of_def)

lemma wj_chars_appends:
  "wj_buf c \<Longrightarrow> wj_appends c (concat (map wj_esc v)) (wj_check (wj_chars c v) k) k"
proof (induction v arbitrary: c)
  case Nil
  then show ?case using wj_appends_nothing[of c k] by (simp add: wj_check_def)
next
  case (Cons ch v)
  obtain e ch' where e: "wj_escape_ch ch = (e, ch')" by (cases "wj_escape_ch ch")
  let ?k = "\<lambda>c. wj_check (wj_chars c v) k"
  have one: "wj_appends c [ch'] (wj_check (wj_add_ch c ch') ?k) ?k" if "wj_buf c" for c
    using that by (rule wj_appends_ch)
  have "wj_appends c (wj_esc ch) (wj_check (wj_chars c (ch # v)) k) ?k"
  proof (cases e)
    case True
    have "wj_check (wj_chars c (ch # v)) k = wj_check (wj_add_ch c BSL) (\<lambda>c. wj_check (wj_add_ch c ch') ?k)"
      using e True by (auto simp: wj_check_def and_then_def split: sum.splits prod.splits)
    with True e show ?thesis
      using wj_appends_trans[OF Cons.prems wj_appends_ch[OF Cons.prems, where ch = BSL
            and k = "\<lambda>c. wj_check (wj_add_ch c ch') ?k"] one] by (simp add: wj_esc_def)
  next
    case False
    have "wj_check (wj_chars c (ch # v)) k = wj_check (wj_add_ch c ch') ?k"
      using e False by (auto simp: wj_check_def and_then_def split: sum.splits prod.splits)
    with False e show ?thesis using one[OF Cons.prems] by (simp add: wj_esc_def)
  qed
  from wj_appends_trans[OF Cons.prems this Cons.IH] show ?case by simp
qed

text \<open>A value: its opening, then the rest in a context that differs by the comma only.\<close>

lemma wj_opening_appends_then:
  assumes buf: "wj_buf c"
    and body: "\<And>c1. wj_buf c1 \<Longrightarrow> wj_abs_of c1 = (wj_abs_of c)\<lparr>wa_comma := False\<rparr> \<Longrightarrow> wj_appends c1 t (k c1) k'"
  shows "wj_appends c (wa_opening (wj_abs_of c) @ t) (wj_opening c k) (\<lambda>c. k' (c\<lparr>wj_need_comma := False\<rparr>))"
  unfolding wj_opening_abs[symmetric]
proof (rule wj_appends_then[OF buf wj_upd_fields(1) wj_opening_appends[OF buf]])
  let ?c = "(wj_put c (wj_opening_text c))\<lparr>wj_need_comma := False\<rparr>"
  assume "wj_buf (wj_put c (wj_opening_text c))"
  then show "wj_appends ?c t (k ?c) k'"
    by (intro body) (simp_all add: wj_abs_of_def)
qed

lemma wj_opening_meets:
  assumes buf: "wj_buf c" and upd: "wj_upd h"
    and body: "\<And>c1. wj_buf c1 \<Longrightarrow> wj_abs_of c1 = (wj_abs_of c)\<lparr>wa_comma := False\<rparr> \<Longrightarrow>
      wj_appends c1 t (k c1) (\<lambda>c. Inr (wjson_ok, h c))"
    and abs: "\<And>c1. wj_abs_of c1 = (wj_abs_of c)\<lparr>wa_comma := False\<rparr> \<Longrightarrow> wj_abs_of (h c1) = a"
  shows "wj_meets c (wj_opening c k) (Emits (wa_opening (wj_abs_of c) @ t) a)"
  by (rule wj_meets_emits[OF buf wj_opening_appends_then[OF buf body]], assumption+,
      rule wj_upd_comp[OF upd wj_upd_fields(1)], rule abs, simp add: wj_abs_of_def)

lemma wj_abs_eqD:
  "wj_abs_of c1 = (wj_abs_of c)\<lparr>wa_comma := False\<rparr> \<Longrightarrow>
   wj_is_pretty c1 = wj_is_pretty c \<and> wj_lvls c1 = wj_lvls c \<and> wj_st c1 = wj_st c \<and> wj_is_first c1 = wj_is_first c"
  by (simp add: wj_abs_of_def)

lemma wj_add_literal_meets:
  assumes buf: "wj_buf c"
  shows "wj_meets c (wj_add_literal c s) (wa_literal (wj_abs_of c) s)"
proof (cases "wj_st c = Wj_want_key")
  case True
  then show ?thesis by (simp add: wj_add_literal_def wa_literal_def wj_meets_def wj_abs_of_def)
next
  case False
  let ?g = "\<lambda>c. c\<lparr>wj_is_first := False, wj_need_comma := True\<rparr>"
  let ?st = "if wj_st c = Wj_want_val then Wj_want_key else wj_st c"
  let ?k = "\<lambda>c. Inr (wjson_ok, if wj_st c = Wj_want_val then c\<lparr>wj_st := Wj_want_key\<rparr> else c)"
  have eq: "wj_add_literal c s = wj_opening c (\<lambda>c. wj_check (wj_literal_chars (?g c) s) ?k)"
    using False by (cases "wj_st c") (simp_all add: wj_add_literal_def Let_def)
  have "wj_appends c1 s (wj_check (wj_literal_chars (?g c1) s) ?k) (\<lambda>c. Inr (wjson_ok, (?g c)\<lparr>wj_st := ?st\<rparr>))"
    if c1: "wj_buf c1" "wj_abs_of c1 = (wj_abs_of c)\<lparr>wa_comma := False\<rparr>" for c1
  proof -
    have "wj_appends c1 s (wj_check (wj_literal_chars (?g c1) s) ?k) (\<lambda>c. ?k (?g c))"
      using c1(1) by (intro wj_appends_upd[where f = ?g] wj_appends_literal) (simp_all add: wj_upd_def)
    moreover have "?k (?g (wj_put c1 s)) = Inr (wjson_ok, (?g (wj_put c1 s))\<lparr>wj_st := ?st\<rparr>)"
      using wj_abs_eqD[OF c1(2)] by simp
    ultimately show ?thesis by (simp add: wj_appends_def)
  qed
  from wj_opening_meets[OF buf _ this] False show ?thesis
    unfolding eq by (simp add: wj_upd_def wa_literal_def wj_abs_of_def)
qed

lemma wj_str_body:
  assumes buf: "wj_buf c1" and f: "wj_upd f"
  shows "wj_appends c1 (wj_quoted v)
    (wj_check (wj_add_ch (f c1) DQ) (\<lambda>c. wj_check (wj_chars c v) (\<lambda>c. wj_check (wj_add_ch c DQ) k))) (\<lambda>c. k (f c))"
proof (rule wj_appends_upd[OF f])
  have buf': "wj_buf (f c1)" using buf f by (simp add: wj_upd_def)
  show "wj_appends (f c1) (wj_quoted v)
    (wj_check (wj_add_ch (f c1) DQ) (\<lambda>c. wj_check (wj_chars c v) (\<lambda>c. wj_check (wj_add_ch c DQ) k))) k"
    unfolding wj_quoted_def
    by (rule wj_appends_trans[OF buf' wj_appends_ch[OF buf']], rule wj_appends_trans, assumption,
        rule wj_chars_appends, assumption, rule wj_appends_ch, assumption)
qed

lemma wj_str_meets:
  assumes buf: "wj_buf c" and ok: "wa_ok (wj_abs_of c)"
  shows "wj_meets c (wjson_str c v) (wa_step D (wj_abs_of c) (Jstr v))"
proof -
  let ?f = "\<lambda>c. c\<lparr>wj_is_first := False\<rparr>"
  let ?k = "\<lambda>c. case wj_st c of
       Wj_want_val \<Rightarrow> Inr (wjson_ok, c\<lparr>wj_st := Wj_want_key, wj_need_comma := True\<rparr>)
     | Wj_want_key \<Rightarrow>
         let c = c\<lparr>wj_need_comma := False\<rparr> in
         if wj_lvl c = Lvl_obj then
           wj_check (wj_add_ch c (CHR '':'')) (\<lambda>c.
           wj_check (if wj_is_pretty c then wj_add_ch c SPC else Inr (wjson_ok, c)) (\<lambda>c.
           Inr (wjson_ok, c\<lparr>wj_st := Wj_want_val\<rparr>)))
         else sob_panic
     | Wj_none \<Rightarrow> Inr (wjson_ok, c\<lparr>wj_need_comma := True\<rparr>)"
  let ?body = "\<lambda>c. wj_check (wj_add_ch (?f c) DQ) (\<lambda>c. wj_check (wj_chars c v) (\<lambda>c. wj_check (wj_add_ch c DQ) ?k))"
  have eq: "wjson_str c v = wj_opening c ?body" by (simp add: wjson_str_def Let_def)
  have quoted: "wj_appends c1 (wj_quoted v) (?body c1) (\<lambda>c. ?k (?f c))" if "wj_buf c1" for c1
    using wj_str_body[OF that wj_upd_fields(2)] .
  show ?thesis
  proof (cases "wj_st c")
    case Wj_none
    let ?h = "\<lambda>c. c\<lparr>wj_is_first := False, wj_need_comma := True\<rparr>"
    have "wj_appends c1 (wj_quoted v) (?body c1) (\<lambda>c. Inr (wjson_ok, ?h c))"
      if "wj_buf c1" "wj_abs_of c1 = (wj_abs_of c)\<lparr>wa_comma := False\<rparr>" for c1
      using quoted[OF that(1)] wj_abs_eqD[OF that(2)] Wj_none by (simp add: wj_appends_def)
    from wj_opening_meets[OF buf _ this] Wj_none show ?thesis
      unfolding eq by (simp add: wj_upd_def wj_abs_of_def)
  next
    case Wj_want_val
    let ?h = "\<lambda>c. c\<lparr>wj_is_first := False, wj_st := Wj_want_key, wj_need_comma := True\<rparr>"
    have "wj_appends c1 (wj_quoted v) (?body c1) (\<lambda>c. Inr (wjson_ok, ?h c))"
      if "wj_buf c1" "wj_abs_of c1 = (wj_abs_of c)\<lparr>wa_comma := False\<rparr>" for c1
      using quoted[OF that(1)] wj_abs_eqD[OF that(2)] Wj_want_val by (simp add: wj_appends_def)
    from wj_opening_meets[OF buf _ this] Wj_want_val show ?thesis
      unfolding eq by (simp add: wj_upd_def wj_abs_of_def)
  next
    case Wj_want_key
    let ?sp = "if wj_is_pretty c then [SPC] else []"
    let ?g = "\<lambda>c. c\<lparr>wj_is_first := False, wj_need_comma := False\<rparr>"
    let ?k2 = "\<lambda>c. wj_check (if wj_is_pretty c then wj_add_ch c SPC else Inr (wjson_ok, c)) (\<lambda>c.
           Inr (wjson_ok, c\<lparr>wj_st := Wj_want_val\<rparr>))"
    have lvl: "wj_lvl c = Lvl_obj" using ok Wj_want_key by (simp add: wa_ok_def wj_lvl_abs) (simp add: wj_abs_of_def)
    have sp: "wj_appends c1 ?sp (?k2 c1) (\<lambda>c. Inr (wjson_ok, c\<lparr>wj_st := Wj_want_val\<rparr>))"
      if "wj_buf c1" "wj_is_pretty c1 = wj_is_pretty c" for c1
      using wj_appends_ch[OF that(1), of SPC] wj_appends_nothing[OF that(1), of "\<lambda>c. Inr (wjson_ok, c\<lparr>wj_st := Wj_want_val\<rparr>)"] that(2)
      by (simp add: wj_check_def[of "Inr _"])
    have colon: "wj_appends c1 ('':'' @ ?sp) (?k (?f c1)) (\<lambda>c. Inr (wjson_ok, (?g c)\<lparr>wj_st := Wj_want_val\<rparr>))"
      if c1: "wj_buf c1" "wj_is_pretty c1 = wj_is_pretty c" "wj_st c1 = Wj_want_key" "wj_lvl c1 = Lvl_obj" for c1
    proof -
      have k: "?k (?f c1) = wj_check (wj_add_ch (?g c1) (CHR '':'')) ?k2"
        using c1 by (simp add: wj_lvl_def)
      have b: "wj_buf (?g c1)" using c1 by simp
      have "wj_appends (?g c1) ('':'' @ ?sp) (?k (?f c1)) (\<lambda>c. Inr (wjson_ok, c\<lparr>wj_st := Wj_want_val\<rparr>))"
        unfolding k by (rule wj_appends_trans[OF b wj_appends_ch[OF b]], rule sp) (use c1 in simp_all)
      then show ?thesis
        by (rule wj_appends_upd[rotated]) (simp add: wj_upd_def)
    qed
    have body: "wj_appends c1 (wj_quoted v @ '':'' @ ?sp) (?body c1) (\<lambda>c. Inr (wjson_ok, (?g c)\<lparr>wj_st := Wj_want_val\<rparr>))"
      if "wj_buf c1" "wj_abs_of c1 = (wj_abs_of c)\<lparr>wa_comma := False\<rparr>" for c1
      using wj_abs_eqD[OF that(2)] lvl Wj_want_key
      by (intro wj_appends_trans[OF that(1) quoted[OF that(1)]] colon) (simp_all add: wj_lvl_def)
    from wj_opening_meets[OF buf _ body] Wj_want_key show ?thesis
      unfolding eq by (simp add: wj_upd_def wj_abs_of_def)
  qed
qed

lemma wj_printed_meets:
  assumes "wj_buf c"
  shows "wj_meets c (wj_printed n c s)
    (if wj_st c \<noteq> Wj_want_key \<and> n \<le> length s then Refuses wjson_overflow else wa_literal (wj_abs_of c) s)"
  using wj_add_literal_meets[OF assms, of s]
  by (cases "wj_st c") (auto simp: wj_printed_def wj_meets_def wa_literal_def wj_abs_of_def)

text \<open>The two openings of a level, up to the level itself.\<close>

lemma wj_add_lvl_cases:
  "wa_ok (wj_abs_of c) \<Longrightarrow> wj_lvls c1 = wj_lvls c \<Longrightarrow>
   wj_add_lvl c1 l = (if length (wj_lvls c) = wj_max_depth then Inl Panic else Inr (c1\<lparr>wj_lvls := l # wj_lvls c\<rparr>))"
  by (auto simp: wj_add_lvl_def wa_ok_def wj_abs_of_def sob_panic_def)

lemma wj_start_meets:
  assumes buf: "wj_buf c" and ok: "wa_ok (wj_abs_of c)"
    and k: "\<And>c1. k c1 = wj_check (wj_add_ch c1 ch) (\<lambda>c. and_then (wj_add_lvl (f c) l) (\<lambda>c. Inr (wjson_ok, g c)))"
    and f: "wj_upd f" "\<And>c. wj_lvls (f c) = wj_lvls c" and g: "wj_upd g"
    and abs: "\<And>c1. wj_abs_of c1 = (wj_abs_of c)\<lparr>wa_comma := False\<rparr> \<Longrightarrow>
      wj_abs_of (g ((f c1)\<lparr>wj_lvls := l # wj_lvls c\<rparr>)) = a"
  shows "wj_meets c (wj_opening c k) (if length (wj_lvls c) = wj_max_depth then Too_deep (wa_opening (wj_abs_of c) @ [ch])
    else Emits (wa_opening (wj_abs_of c) @ [ch]) a)"
proof -
  let ?K = "\<lambda>c'. if length (wj_lvls c) = wj_max_depth then Inl Panic else Inr (wjson_ok, g ((f c')\<lparr>wj_lvls := l # wj_lvls c\<rparr>))"
  have body: "wj_appends c1 [ch] (k c1) ?K"
    if c1: "wj_buf c1" "wj_abs_of c1 = (wj_abs_of c)\<lparr>wa_comma := False\<rparr>" for c1
  proof -
    have "wj_appends c1 [ch] (k c1) (\<lambda>c. and_then (wj_add_lvl (f c) l) (\<lambda>c. Inr (wjson_ok, g c)))"
      unfolding k by (rule wj_appends_ch[OF c1(1)])
    then show ?thesis
      using wj_abs_eqD[OF c1(2)] f(2) by (simp add: wj_appends_def wj_add_lvl_cases[OF ok])
  qed
  show ?thesis
  proof (cases "length (wj_lvls c) = wj_max_depth")
    case True
    with wj_opening_appends_then[OF buf body] show ?thesis by (simp add: wj_meets_too_deep)
  next
    case False
    have "wj_upd (\<lambda>c'. g ((f c')\<lparr>wj_lvls := l # wj_lvls c\<rparr>))"
      by (rule wj_upd_comp[OF g wj_upd_comp[OF wj_upd_fields(4) f(1)]])
    from wj_opening_meets[OF buf this _ abs] body False show ?thesis by simp
  qed
qed

lemma wj_obj_start_meets:
  assumes buf: "wj_buf c" and ok: "wa_ok (wj_abs_of c)"
  shows "wj_meets c (wjson_obj_start c) (wa_step D (wj_abs_of c) Jobj_start)"
proof (cases "wj_st c = Wj_want_key")
  case True
  then show ?thesis by (simp add: wjson_obj_start_def wj_meets_def wj_abs_of_def)
next
  case False
  let ?f = "\<lambda>c. c\<lparr>wj_st := Wj_want_key, wj_is_first := True, wj_need_comma := False\<rparr>"
  have eq: "wjson_obj_start c = wj_opening c (\<lambda>c. wj_check (wj_add_ch c (CHR ''{''))
      (\<lambda>c. and_then (wj_add_lvl (?f c) Lvl_obj) (\<lambda>c. Inr (wjson_ok, c))))"
    using False by (cases "wj_st c") (simp_all add: wjson_obj_start_def Let_def)
  from wj_start_meets[OF buf ok refl, of ?f "\<lambda>c. c" Lvl_obj] False show ?thesis
    unfolding eq by (auto simp: wj_upd_def wj_abs_of_def)
qed

lemma wj_arr_start_meets:
  assumes buf: "wj_buf c" and ok: "wa_ok (wj_abs_of c)"
  shows "wj_meets c (wjson_arr_start c) (wa_step D (wj_abs_of c) Jarr_start)"
proof (cases "wj_st c = Wj_want_key")
  case True
  then show ?thesis by (simp add: wjson_arr_start_def wj_meets_def wj_abs_of_def)
next
  case False
  let ?g = "\<lambda>c. c\<lparr>wj_need_comma := False, wj_st := Wj_none, wj_is_first := True\<rparr>"
  have eq: "wjson_arr_start c = wj_opening c (\<lambda>c. wj_check (wj_add_ch c (CHR ''[''))
      (\<lambda>c. and_then (wj_add_lvl c Lvl_arr) (\<lambda>c. Inr (wjson_ok, ?g c))))"
    using False by (simp add: wjson_arr_start_def)
  from wj_start_meets[OF buf ok refl, of "\<lambda>c. c" ?g Lvl_arr] False show ?thesis
    unfolding eq by (auto simp: wj_upd_def wj_abs_of_def)
qed

text \<open>Closing a level: the optional newline and indent, an update, the bracket.\<close>

lemma wj_closing_appends:
  assumes "wj_buf c"
  shows "wj_appends c (wa_closing (wj_abs_of c)) (wj_closing c k) k"
proof (cases "wj_is_pretty c \<and> \<not> wj_is_first c")
  case True
  have "wj_appends c ([NL] @ wj_indent_text c) (wj_check (wj_add_ch c NL) (\<lambda>c. wj_check (wj_maybe_indent c) k)) k"
    using wj_maybe_indent_appends[of "wj_put c [NL]" k]
    by (intro wj_appends_trans[OF assms wj_appends_ch[OF assms]]) simp
  with True show ?thesis
    by (auto simp: wj_closing_def wa_closing_def wj_indent_text_def wa_indent_def wj_abs_of_def split: if_splits)
next
  case False
  with wj_appends_nothing[OF assms, of k] show ?thesis
    by (auto simp: wj_closing_def wa_closing_def wj_abs_of_def)
qed

lemma wj_closing_meets:
  assumes buf: "wj_buf c" and f: "wj_upd f"
    and k: "\<And>s. wj_buf (wj_put c s) \<Longrightarrow> k (wj_put c s) = wj_check (wj_add_ch (f (wj_put c s)) ch) (\<lambda>c. Inr (wjson_ok, c))"
    and abs: "\<And>s. wj_abs_of (f (wj_put c s)) = a"
  shows "wj_meets c (wj_closing c k) (Emits (wa_closing (wj_abs_of c) @ [ch]) a)"
proof (rule wj_meets_emits[OF buf _ f abs])
  show "wj_appends c (wa_closing (wj_abs_of c) @ [ch]) (wj_closing c k) (\<lambda>c. Inr (wjson_ok, f c))"
  proof (rule wj_appends_trans[OF buf wj_closing_appends[OF buf]])
    let ?c = "wj_put c (wa_closing (wj_abs_of c))"
    assume b: "wj_buf ?c"
    then have "wj_buf (f ?c)" using f by (simp add: wj_upd_def)
    from wj_appends_upd[OF f wj_appends_ch[OF this]] show "wj_appends ?c [ch] (k ?c) (\<lambda>c. Inr (wjson_ok, f c))"
      unfolding k[OF b] .
  qed
qed

lemma wj_pop_obtains:
  assumes "wj_lvl c \<noteq> Lvl_none" "wj_buf c"
  obtains c1 where "wj_pop_lvl c = Inr c1" "wj_buf c1" "wj_room c1 = wj_room c" "wj_text c1 = wj_text c"
    "wj_mlen c1 = wj_mlen c" "wj_abs_of c1 = (wj_abs_of c)\<lparr>wa_lvls := tl (wa_lvls (wj_abs_of c))\<rparr>"
  using assms by (cases "wj_lvls c") (auto simp: wj_lvl_def wj_pop_lvl_def wj_abs_of_def)

lemma wj_meets_popped:
  "wj_meets c1 m (Emits s a) \<Longrightarrow> wj_room c1 = wj_room c \<Longrightarrow> wj_text c1 = wj_text c \<Longrightarrow> wj_mlen c1 = wj_mlen c \<Longrightarrow>
   wj_meets c m (Emits s a)"
  by (simp add: wj_meets_def split: if_splits)

lemma wj_obj_end_meets:
  assumes buf: "wj_buf c"
  shows "wj_meets c (wjson_obj_end c) (wa_step D (wj_abs_of c) Jobj_end)"
proof (cases "wj_lvl c \<noteq> Lvl_obj \<or> wj_st c = Wj_want_val")
  case True
  then show ?thesis by (auto simp: wjson_obj_end_def wj_meets_def wj_lvl_abs) (auto simp: wj_abs_of_def)
next
  case False
  then obtain c1 where c1: "wj_pop_lvl c = Inr c1" "wj_buf c1" "wj_room c1 = wj_room c" "wj_text c1 = wj_text c"
    "wj_mlen c1 = wj_mlen c" "wj_abs_of c1 = (wj_abs_of c)\<lparr>wa_lvls := tl (wa_lvls (wj_abs_of c))\<rparr>"
    using wj_pop_obtains[of c] buf by auto
  let ?f = "\<lambda>c. c\<lparr>wj_is_first := False, wj_st := (if wj_lvl c1 = Lvl_obj then Wj_want_key else Wj_none),
    wj_need_comma := True\<rparr>"
  let ?k = "\<lambda>c. let c = c\<lparr>wj_is_first := False, wj_st := (if wj_lvl c = Lvl_obj then Wj_want_key else Wj_none),
      wj_need_comma := True\<rparr> in wj_check (wj_add_ch c (CHR ''}'')) (\<lambda>c. Inr (wjson_ok, c))"
  have "wj_meets c1 (wj_closing c1 ?k) (Emits (wa_closing (wj_abs_of c1) @ ''}'')
      ((wj_abs_of c1)\<lparr>wa_first := False, wa_st := (if wa_lvl (wj_abs_of c1) = Lvl_obj then Wj_want_key else Wj_none),
        wa_comma := True\<rparr>))"
    unfolding wj_lvl_abs[symmetric]
    by (rule wj_closing_meets[OF c1(2), of ?f]) (simp add: wj_upd_def, simp add: Let_def, simp add: wj_abs_of_def)
  from wj_meets_popped[OF this c1(3,4,5)] False c1(1,6) show ?thesis
    by (simp add: wjson_obj_end_def wj_lvl_abs Let_def) (simp add: wj_abs_of_def)
qed

lemma wj_arr_end_meets:
  assumes buf: "wj_buf c"
  shows "wj_meets c (wjson_arr_end c) (wa_step D (wj_abs_of c) Jarr_end)"
proof (cases "wj_lvl c = Lvl_arr")
  case False
  then show ?thesis by (simp add: wjson_arr_end_def wj_meets_def wj_lvl_abs)
next
  case True
  then obtain c1 where c1: "wj_pop_lvl c = Inr c1" "wj_buf c1" "wj_room c1 = wj_room c" "wj_text c1 = wj_text c"
    "wj_mlen c1 = wj_mlen c" "wj_abs_of c1 = (wj_abs_of c)\<lparr>wa_lvls := tl (wa_lvls (wj_abs_of c))\<rparr>"
    using wj_pop_obtains[of c] buf by auto
  let ?f = "\<lambda>c. case wj_lvl c1 of
      Lvl_obj \<Rightarrow> c\<lparr>wj_is_first := False, wj_st := Wj_want_key, wj_need_comma := False\<rparr>
    | Lvl_arr \<Rightarrow> c\<lparr>wj_is_first := False, wj_need_comma := True\<rparr>
    | Lvl_none \<Rightarrow> c\<lparr>wj_is_first := False\<rparr>"
  let ?k = "\<lambda>c. let c = c\<lparr>wj_is_first := False\<rparr>;
            c = (if wj_lvl c = Lvl_obj then c\<lparr>wj_st := Wj_want_key, wj_need_comma := False\<rparr>
                 else if wj_lvl c = Lvl_arr then c\<lparr>wj_need_comma := True\<rparr>
                 else c) in
        wj_check (wj_add_ch c (CHR '']'')) (\<lambda>c. Inr (wjson_ok, c))"
  have "wj_meets c1 (wj_closing c1 ?k) (Emits (wa_closing (wj_abs_of c1) @ '']'')
      (case wa_lvl (wj_abs_of c1) of
         Lvl_obj \<Rightarrow> (wj_abs_of c1)\<lparr>wa_first := False, wa_st := Wj_want_key, wa_comma := False\<rparr>
       | Lvl_arr \<Rightarrow> (wj_abs_of c1)\<lparr>wa_first := False, wa_comma := True\<rparr>
       | Lvl_none \<Rightarrow> (wj_abs_of c1)\<lparr>wa_first := False\<rparr>))"
  proof (rule wj_closing_meets[OF c1(2), of ?f])
    show "wj_upd ?f" by (cases "wj_lvl c1") (simp_all add: wj_upd_def)
    show "?k (wj_put c1 s) = wj_check (wj_add_ch (?f (wj_put c1 s)) (CHR '']'')) (\<lambda>c. Inr (wjson_ok, c))" for s
      by (cases "wj_lvls c1") (auto simp: wj_lvl_def Let_def split: wj_lvl_ty.splits)
    show "wj_abs_of (?f (wj_put c1 s)) = (case wa_lvl (wj_abs_of c1) of
         Lvl_obj \<Rightarrow> (wj_abs_of c1)\<lparr>wa_first := False, wa_st := Wj_want_key, wa_comma := False\<rparr>
       | Lvl_arr \<Rightarrow> (wj_abs_of c1)\<lparr>wa_first := False, wa_comma := True\<rparr>
       | Lvl_none \<Rightarrow> (wj_abs_of c1)\<lparr>wa_first := False\<rparr>)" for s
      unfolding wj_lvl_abs[symmetric] by (cases "wj_lvl c1") (simp_all add: wj_abs_of_def)
  qed
  moreover have "wjson_arr_end c = wj_closing c1 ?k"
    using True c1(1) by (simp add: wjson_arr_end_def)
  moreover have "wa_step D (wj_abs_of c) Jarr_end = Emits (wa_closing (wj_abs_of c1) @ '']'')
      (case wa_lvl (wj_abs_of c1) of
         Lvl_obj \<Rightarrow> (wj_abs_of c1)\<lparr>wa_first := False, wa_st := Wj_want_key, wa_comma := False\<rparr>
       | Lvl_arr \<Rightarrow> (wj_abs_of c1)\<lparr>wa_first := False, wa_comma := True\<rparr>
       | Lvl_none \<Rightarrow> (wj_abs_of c1)\<lparr>wa_first := False\<rparr>)"
    using True unfolding c1(6) by (simp add: wj_lvl_abs Let_def)
  ultimately show ?thesis using wj_meets_popped[OF _ c1(3,4,5)] by simp
qed

lemma wj_exec_meets:
  assumes "wj_buf c" "wa_ok (wj_abs_of c)"
  shows "wj_meets c (wj_exec D c x) (wa_step D (wj_abs_of c) x)"
proof (cases x)
  case (Jint v)
  have "length (fmt_int (sint v)) < 50" using fmt_int_length[of v] by simp
  with Jint wj_printed_meets[OF assms(1), of 50 "fmt_int (sint v)"] show ?thesis
    by (simp add: wjson_int_def)
next
  case (Jdouble v)
  have "wa_st (wj_abs_of c) = wj_st c" by (simp add: wj_abs_of_def)
  with Jdouble wj_printed_meets[OF assms(1), of 100 "d_fmt_f D v"] show ?thesis
    by (simp only: wj_exec.simps wjson_double_def wa_step.simps)
next
  case (Jbool v)
  then show ?thesis using wj_add_literal_meets[OF assms(1)] by (simp add: wjson_bool_def)
next
  case Jnull
  then show ?thesis using wj_add_literal_meets[OF assms(1)] by (simp add: wjson_null_def)
qed (simp_all only: wj_exec.simps wj_str_meets[OF assms] wj_obj_start_meets[OF assms] wj_obj_end_meets[OF assms(1)]
    wj_arr_start_meets[OF assms] wj_arr_end_meets[OF assms(1)])

section \<open>Sequences of calls\<close>

fun wa_run :: "'d double_ops \<Rightarrow> wj_abs \<Rightarrow> 'd wj_call list \<Rightarrow> (string \<times> wj_abs) option" where
  "wa_run D a [] = Some ([], a)"
| "wa_run D a (x # xs) =
     (case wa_step D a x of
        Emits s a' \<Rightarrow> (case wa_run D a' xs of None \<Rightarrow> None | Some (t, a'') \<Rightarrow> Some (s @ t, a''))
      | _ \<Rightarrow> None)"

lemma wa_run_append:
  "wa_run D a xs = Some (s, a1) \<Longrightarrow> wa_run D a1 ys = Some (t, a2) \<Longrightarrow> wa_run D a (xs @ ys) = Some (s @ t, a2)"
  by (induction xs arbitrary: a s) (auto split: wj_out.splits option.splits)

lemma wj_room_step:
  assumes "wj_buf c" "wj_buf c'" "wj_text c' = wj_text c @ s" "wj_mlen c' = wj_mlen c" "length s \<le> wj_room c"
  shows "wj_room c' = wj_room c - length s"
proof -
  have "length (wj_text c') = wj_len c'" "length (wj_text c) = wj_len c"
    using assms(1,2) by (auto simp: wj_text_def wj_buf_def)
  then have "wj_len c' = wj_len c + length s" using assms(3) by simp
  then show ?thesis using assms(4) by (simp add: wj_room_def)
qed

text \<open>
  A sequence the abstract machine accepts succeeds exactly when its text fits, and has then
  appended it.
\<close>

lemma wj_execs_run:
  "wj_buf c \<Longrightarrow> wa_ok (wj_abs_of c) \<Longrightarrow> wa_run D (wj_abs_of c) xs = Some (s, a) \<Longrightarrow>
   if length s \<le> wj_room c
   then \<exists>c'. wj_execs D c xs = Inr (wjson_ok, c') \<and> wj_buf c' \<and> wj_text c' = wj_text c @ s \<and>
     wj_mlen c' = wj_mlen c \<and> wj_abs_of c' = a
   else \<exists>c'. wj_execs D c xs = Inr (wjson_overflow, c') \<and> wj_buf c'"
proof (induction xs arbitrary: c s)
  case Nil
  then show ?case by simp
next
  case (Cons x xs)
  obtain s1 a1 t where step: "wa_step D (wj_abs_of c) x = Emits s1 a1" and run: "wa_run D a1 xs = Some (t, a)"
    and s: "s = s1 @ t"
    using Cons.prems(3) by (auto split: wj_out.splits option.splits)
  note meets = wj_exec_meets[OF Cons.prems(1,2), of D x, unfolded step]
  show ?case
  proof (cases "length s1 \<le> wj_room c")
    case False
    with meets s show ?thesis by (auto simp: wj_meets_def wj_check_def)
  next
    case True
    with meets obtain c1 where c1: "wj_exec D c x = Inr (wjson_ok, c1)" "wj_buf c1" "wj_text c1 = wj_text c @ s1"
      "wj_mlen c1 = wj_mlen c" "wj_abs_of c1 = a1" by (auto simp: wj_meets_def)
    have "wa_ok (wj_abs_of c1)" using wa_step_ok[OF Cons.prems(2) step] c1(5) by simp
    from Cons.IH[OF c1(2) this, of t] run c1 s True wj_room_step[OF Cons.prems(1) c1(2,3,4) True]
    show ?thesis by (auto simp: wj_check_def split: if_splits)
  qed
qed

section \<open>Properties\<close>

text \<open>
  C4: Every call of the writer, in a context whose buffer part is good and whose state is
  consistent, does what the abstract machine says: it is refused with nothing changed; or it
  appends exactly the text the machine emits and moves to the machine's next state, which is
  consistent again; or it reports that the text does not fit; or, only where a 25th level
  would be opened, it panics. No call writes outside the buffer.
\<close>

theorem wjson_refinement:
  assumes "wj_buf c" "wa_ok (wj_abs_of c)"
  shows "wj_meets c (wj_exec D c x) (wa_step D (wj_abs_of c) x) \<and>
    (case wa_step D (wj_abs_of c) x of
       Emits s a \<Rightarrow> wa_ok a
     | Too_deep s \<Rightarrow> length (wj_lvls c) = 24 \<and> (x = Jobj_start \<or> x = Jarr_start)
     | Refuses r \<Rightarrow> True)"
proof -
  have "wa_ok a" if "wa_step D (wj_abs_of c) x = Emits s a" for s a
    using wa_step_ok[OF assms(2) that] by simp
  moreover have "length (wj_lvls c) = 24 \<and> (x = Jobj_start \<or> x = Jarr_start)"
    if "wa_step D (wj_abs_of c) x = Too_deep s" for s
    using that by (cases x) (auto simp: wa_literal_def wj_abs_of_def wj_max_depth_def Let_def split: if_splits wj_st.splits)
  ultimately have "case wa_step D (wj_abs_of c) x of Emits s a \<Rightarrow> wa_ok a
      | Too_deep s \<Rightarrow> length (wj_lvls c) = 24 \<and> (x = Jobj_start \<or> x = Jarr_start) | Refuses r \<Rightarrow> True"
    by (cases "wa_step D (wj_abs_of c) x") auto
  with wj_exec_meets[OF assms] show ?thesis by blast
qed

definition wj_demo_ctx :: wjson_ctx where
  "wj_demo_ctx = \<lparr>wj_is_pretty = False, wj_str = replicate 40 (CHR ''x''), wj_mlen = 40, wj_len = 0, wj_lvls = [],
     wj_st = Wj_none, wj_need_comma = False, wj_is_first = False\<rparr>"

theorem wjson_refinement_witness:
  "wj_meets wj_demo_ctx (wj_exec int_double wj_demo_ctx Jobj_start) (wa_step int_double (wj_abs_of wj_demo_ctx) Jobj_start) \<and>
    (case wa_step int_double (wj_abs_of wj_demo_ctx) Jobj_start of
       Emits s a \<Rightarrow> wa_ok a
     | Too_deep s \<Rightarrow> length (wj_lvls wj_demo_ctx) = 24 \<and>
         ((Jobj_start :: int wj_call) = Jobj_start \<or> (Jobj_start :: int wj_call) = Jarr_start)
     | Refuses r \<Rightarrow> True)"
  by (rule wjson_refinement) code_simp+

text \<open>
  After an array that is a value in an object the writer forgets the comma: the member
  after it is written right behind the bracket, and the text is not JSON.
\<close>

theorem wjson_array_comma_missing:
  "wj_execs int_double wj_demo_ctx
     [Jobj_start, Jstr ''a'', Jarr_start, Jint 1, Jarr_end, Jstr ''b'', Jnull, Jobj_end] =
   Inr (wjson_ok, wj_demo_ctx\<lparr>wj_str := [CHR ''{'', DQ, CHR ''a'', DQ, CHR '':'', CHR ''['', CHR ''1'', CHR '']'',
     DQ, CHR ''b'', DQ] @ '':null}'' @ replicate 23 (CHR ''x''), wj_len := 17, wj_need_comma := True\<rparr>)"
  by code_simp

text \<open>
  \<^verbatim>\<open>wjson_init\<close> does not set the level count: on a struct whose old count is 24 the first
  \<^verbatim>\<open>wjson_obj_start\<close> after a fresh init panics.
\<close>

theorem wjson_init_stale_levels:
  assumes "length (wj_lvls c) = 24" "8 \<le> length b"
  shows "and_then (wjson_init c b (length b) False) wjson_obj_start = Inl Panic"
proof -
  let ?b = "b[0 := NUL, length b - 1 := NUL]"
  have "0 < length b" "length b - 1 < length b" "2 \<le> length b" "1 \<le> length b" using assms(2) by auto
  then have "wjson_init c b (length b) False = Inr (c\<lparr>wj_is_pretty := False, wj_str := ?b,
      wj_mlen := length b, wj_len := 0, wj_st := Wj_none, wj_need_comma := False\<rparr>)"
    by (simp add: wjson_init_def Let_def poke_def del: length_greater_0_conv)
  moreover have "poke ?b 0 (CHR ''{'') = Inr (?b[0 := CHR ''{''])"
    using \<open>0 < length b\<close> by (intro poke_ok) simp
  ultimately show ?thesis
    using assms by (simp add: wjson_obj_start_def wj_opening_def wj_maybe_comma_def wj_maybe_indent_def wj_check_def
        wj_add_ch_def wj_add_lvl_def wj_max_depth_def sob_panic_def Let_def)
qed

theorem wjson_init_stale_levels_witness:
  "and_then (wjson_init (wj_demo_ctx\<lparr>wj_lvls := replicate 24 Lvl_arr\<rparr>) ''xxxxxxxx'' (length ''xxxxxxxx'') False)
     wjson_obj_start = Inl Panic"
  by (rule wjson_init_stale_levels) code_simp+

text \<open>
  The text is not terminated: in a buffer that held other bytes, the C string the caller
  reads runs on behind the text up to the terminator at the end of the buffer.
\<close>

theorem wjson_not_terminated:
  "and_then (wjson_init wj_demo_ctx (replicate 8 (CHR ''x'')) 8 False) (\<lambda>c.
     and_then (wj_execs int_double c [Jobj_start, Jobj_end]) (\<lambda>(r, c). Inr (r, c_str (wjson_out_str c)))) =
   Inr (wjson_ok, ''{}xxxxx'')"
  by code_simp

end
