(* ===== verification/Rjson.thy ===== *)
theory Rjson
  imports Prelude
begin

text \<open>
  The JSON reader (\<^verbatim>\<open>src/src/rjson.h\<close>, \<^verbatim>\<open>src/src/rjson.c\<close>): a state machine fed one
  character at a time that reports strings, numbers, booleans, nulls and the brackets. A
  number ends at the character after it, which is buffered, so the reader may run one
  character behind. Every function of the file is here. The theorems: the mutual recursion
  through the buffered character ends; no state the reader can reach panics below the depth
  limit, leaves the string buffer or reads an inactive union member; where the reader departs
  from JSON.
\<close>

section \<open>Types\<close>

datatype rjson_ty = rjson_incomplete | Rjson_str | Rjson_num | Rjson_bool | Rjson_null
  | Rjson_obj_start | Rjson_obj_end | Rjson_arr_start | Rjson_arr_end

datatype rjson_next_res = rjson_next_syntax | rjson_next_fin | rjson_next_ok

datatype rj_lvl_ty = Rl_none | Rl_obj | Rl_arr

datatype rj_st = Rj_idle | Rj_want_key | Rj_want_colon | Rj_str | Rj_num | Rj_true | Rj_false | Rj_null

datatype rj_num_part = Part_leading_zero | Part_int | Part_frac | Part_exp

definition rj_max_depth :: nat where "rj_max_depth = 24"

record rj_sd_str =
  js_len :: nat
  js_is_escape :: bool
  js_is_key :: bool

record 'd rj_sd_num =
  jn_num :: 'd
  jn_digit_pos :: int
  jn_is_neg :: bool
  jn_exp :: int
  jn_part :: rj_num_part

text \<open>
  The union \<^verbatim>\<open>sd\<close>: the constructor is the member last written, \<open>Js_none\<close> before the first
  write. \<open>Js_special\<close> holds \<^verbatim>\<open>word_pos\<close> and \<^verbatim>\<open>bool_is_true\<close>, which is not written for
  a null.
\<close>

datatype 'd rj_sd = Js_none | Js_str rj_sd_str | Js_num "'d rj_sd_num" | Js_special nat "bool option"

text \<open>
  The levels are the used part of the array, the last one first. \<open>rj_buffered\<close> is the
  \<^verbatim>\<open>int\<close> that holds a \<^verbatim>\<open>char\<close> or -1.
\<close>

record 'd rjson_ctx =
  rj_str :: string
  rj_str_mlen :: nat
  rj_lvls :: "rj_lvl_ty list"
  rj_sd :: "'d rj_sd"
  rj_st :: rj_st
  rj_buffered :: int
  rj_cur :: rjson_ty
  rj_is_val_expected :: bool
  rj_pos :: nat

type_synonym 'd rjson_ret = "(rjson_next_res \<times> 'd rjson_ctx) outcome"

definition rj_sd_str_m :: "'d rjson_ctx \<Rightarrow> rj_sd_str outcome" where
  "rj_sd_str_m c = (case rj_sd c of Js_str s \<Rightarrow> Inr s | _ \<Rightarrow> Inl Inactive_member)"

definition rj_sd_num_m :: "'d rjson_ctx \<Rightarrow> 'd rj_sd_num outcome" where
  "rj_sd_num_m c = (case rj_sd c of Js_num n \<Rightarrow> Inr n | _ \<Rightarrow> Inl Inactive_member)"

definition rj_word_pos :: "'d rjson_ctx \<Rightarrow> nat outcome" where
  "rj_word_pos c = (case rj_sd c of Js_special p b \<Rightarrow> Inr p | _ \<Rightarrow> Inl Inactive_member)"

text \<open>\<^verbatim>\<open>(char) i\<close>\<close>

definition to_char :: "int \<Rightarrow> char" where
  "to_char i = char_of (i mod 256)"

section \<open>Helpers\<close>

definition rj_set_st :: "'d double_ops \<Rightarrow> 'd rjson_ctx \<Rightarrow> rj_st \<Rightarrow> 'd rjson_ctx" where
  "rj_set_st D c st =
     (let c = (if rj_st c \<noteq> st then
        (case st of
           Rj_str \<Rightarrow> c\<lparr>rj_sd := Js_str \<lparr>js_len = 0, js_is_escape = False, js_is_key = False\<rparr>\<rparr>
         | Rj_num \<Rightarrow> c\<lparr>rj_sd := Js_num \<lparr>jn_num = d_of_int D 0, jn_digit_pos = 0, jn_is_neg = False, jn_exp = 0,
             jn_part = Part_int\<rparr>\<rparr>
         | Rj_true \<Rightarrow> c\<lparr>rj_sd := Js_special 0 (Some True)\<rparr>
         | Rj_false \<Rightarrow> c\<lparr>rj_sd := Js_special 0 (Some False)\<rparr>
         | Rj_null \<Rightarrow> c\<lparr>rj_sd := Js_special 0 None\<rparr>
         | _ \<Rightarrow> c)
        else c) in
      c\<lparr>rj_st := st\<rparr>)"

definition rjson_init :: "string \<Rightarrow> nat \<Rightarrow> 'd rjson_ctx" where
  "rjson_init str_out_buf str_mlen =
     \<lparr>rj_str = str_out_buf, rj_str_mlen = str_mlen, rj_lvls = [], rj_sd = Js_none, rj_st = Rj_idle,
      rj_buffered = -1, rj_cur = rjson_incomplete, rj_is_val_expected = True, rj_pos = 0\<rparr>"

definition rj_lvl :: "'d rjson_ctx \<Rightarrow> rj_lvl_ty" where
  "rj_lvl c = (case rj_lvls c of [] \<Rightarrow> Rl_none | l # _ \<Rightarrow> l)"

definition rj_add_lvl :: "'d rjson_ctx \<Rightarrow> rj_lvl_ty \<Rightarrow> 'd rjson_ctx outcome" where
  "rj_add_lvl c lvl =
     (if length (rj_lvls c) = rj_max_depth then sob_panic
      else if length (rj_lvls c) < rj_max_depth then Inr (c\<lparr>rj_lvls := lvl # rj_lvls c\<rparr>)
      else Inl Out_of_bounds)"

definition rj_pop_lvl :: "'d rjson_ctx \<Rightarrow> 'd rjson_ctx outcome" where
  "rj_pop_lvl c = (case rj_lvls c of [] \<Rightarrow> sob_panic | _ # ls \<Rightarrow> Inr (c\<lparr>rj_lvls := ls\<rparr>))"

definition rj_assert :: "bool \<Rightarrow> 'd rjson_ret \<Rightarrow> 'd rjson_ret" where
  "rj_assert b k = (if b then k else sob_panic)"

definition rj_is_whitespace :: "char \<Rightarrow> bool" where
  [char_defs]: "rj_is_whitespace ch \<longleftrightarrow> ch = SPC \<or> ch = NL \<or> ch = CR \<or> ch = TAB"

definition rj_is_num_start :: "char \<Rightarrow> bool" where
  [char_defs]: "rj_is_num_start ch \<longleftrightarrow> is_digit ch \<or> ch = CHR ''-''"

text \<open>\<open>strchr_in s ch\<close> is \<^verbatim>\<open>strchr(s, ch) != NULL\<close>, which also finds the terminator.\<close>

definition strchr_in :: "string \<Rightarrow> char \<Rightarrow> bool" where
  "strchr_in s ch \<longleftrightarrow> ch = NUL \<or> ch \<in> set s"

definition rj_add_str_ch :: "'d rjson_ctx \<Rightarrow> char \<Rightarrow> (bool \<times> 'd rjson_ctx) outcome" where
  "rj_add_str_ch c ch =
     and_then (rj_sd_str_m c) (\<lambda>sd.
     if js_len sd = rj_str_mlen c then Inr (False, c)
     else and_then (poke (rj_str c) (js_len sd) ch) (\<lambda>b.
       Inr (True, c\<lparr>rj_str := b, rj_sd := Js_str (sd\<lparr>js_len := js_len sd + 1\<rparr>)\<rparr>)))"

text \<open>
  \<^verbatim>\<open>str_escape_\<close>: the character an escape stands for; \<open>None\<close> is an invalid escape or the
  unimplemented \<^verbatim>\<open>u\<close>, which the caller treats alike.
\<close>

definition rj_str_escape :: "char \<Rightarrow> char option" where
  "rj_str_escape ch =
     (if ch = CHR ''u'' then None
      else if ch = DQ then Some DQ else if ch = BSL then Some BSL else if ch = CHR ''/'' then Some (CHR ''/'')
      else if ch = CHR ''b'' then Some BS else if ch = CHR ''f'' then Some FF
      else if ch = CHR ''n'' then Some NL else if ch = CHR ''r'' then Some CR
      else if ch = CHR ''t'' then Some TAB else None)"

section \<open>The state functions\<close>

definition rj_next_str :: "'d double_ops \<Rightarrow> 'd rjson_ctx \<Rightarrow> char \<Rightarrow> 'd rjson_ret" where
  "rj_next_str D c ch =
     rj_assert (rj_st c = Rj_str) (and_then (rj_sd_str_m c) (\<lambda>sd.
     rj_assert (js_is_key sd \<longrightarrow> rj_lvl c = Rl_obj) (
     let c = c\<lparr>rj_cur := rjson_incomplete\<rparr>;
         add = (\<lambda>c ch. and_then (rj_add_str_ch c ch) (\<lambda>(ok, c).
           Inr (if ok then rjson_next_ok else rjson_next_syntax, c))) in
     if is_ctrl ch then Inr (rjson_next_syntax, c)
     else if js_is_escape sd then
       (case rj_str_escape ch of
          None \<Rightarrow> Inr (rjson_next_syntax, c)
        | Some ch' \<Rightarrow> add (c\<lparr>rj_sd := Js_str (sd\<lparr>js_is_escape := False\<rparr>)\<rparr>) ch')
     else if ch = BSL then Inr (rjson_next_ok, c\<lparr>rj_sd := Js_str (sd\<lparr>js_is_escape := True\<rparr>)\<rparr>)
     else if ch = DQ then
       add (rj_set_st D (c\<lparr>rj_cur := Rjson_str, rj_is_val_expected := False\<rparr>)
              (if js_is_key sd then Rj_want_colon else Rj_idle)) NUL
     else add c ch)))"

definition rj_sign :: "bool \<Rightarrow> int" where
  "rj_sign neg = (if neg then -1 else 1)"

definition rj_num_ok :: "'d rjson_ctx \<Rightarrow> 'd rj_sd_num \<Rightarrow> 'd rjson_ret" where
  "rj_num_ok c sd = Inr (rjson_next_ok, c\<lparr>rj_sd := Js_num sd\<rparr>)"

definition rj_num_end :: "'d double_ops \<Rightarrow> 'd rjson_ctx \<Rightarrow> 'd rj_sd_num \<Rightarrow> char \<Rightarrow> 'd rjson_ret" where
  "rj_num_end D c sd ch =
     (if jn_digit_pos sd > 0 then
        let sd = (if jn_part sd = Part_exp then sd\<lparr>jn_num := d_mul D (jn_num sd) (d_pow10 D (jn_exp sd))\<rparr> else sd);
            c = c\<lparr>rj_sd := Js_num sd, rj_cur := Rjson_num\<rparr> in
        rj_assert (rj_buffered c = -1) (
        Inr (rjson_next_ok, rj_set_st D (c\<lparr>rj_buffered := schar ch, rj_is_val_expected := False\<rparr>) Rj_idle))
      else Inr (rjson_next_syntax, c))"

definition rj_num_int :: "'d double_ops \<Rightarrow> 'd rjson_ctx \<Rightarrow> 'd rj_sd_num \<Rightarrow> char \<Rightarrow> 'd rjson_ret" where
  "rj_num_int D c sd ch =
     (if ch = CHR ''-'' then
        if jn_digit_pos sd = 0 then rj_num_ok c (sd\<lparr>jn_is_neg := True\<rparr>) else Inr (rjson_next_syntax, c)
      else if ch = CHR ''.'' then
        if jn_digit_pos sd > 0 then rj_num_ok c (sd\<lparr>jn_digit_pos := 0, jn_part := Part_frac\<rparr>)
        else Inr (rjson_next_syntax, c)
      else if ch = CHR ''e'' \<or> ch = CHR ''E'' then
        if jn_digit_pos sd > 0 then rj_num_ok c (sd\<lparr>jn_digit_pos := 0, jn_part := Part_exp\<rparr>)
        else Inr (rjson_next_syntax, c)
      else if is_digit ch then
        and_then (c_int (jn_digit_pos sd + 1)) (\<lambda>p.
        rj_num_ok c (sd\<lparr>jn_num := d_add D (d_mul D (jn_num sd) (d_of_int D 10))
            (d_of_int D (digit_val ch * rj_sign (jn_is_neg sd))), jn_digit_pos := p\<rparr>))
      else Inr (rjson_next_syntax, c))"

definition rj_num_frac :: "'d double_ops \<Rightarrow> 'd rjson_ctx \<Rightarrow> 'd rj_sd_num \<Rightarrow> char \<Rightarrow> 'd rjson_ret" where
  "rj_num_frac D c sd ch =
     (if ch = CHR ''e'' \<or> ch = CHR ''E'' then
        if jn_digit_pos sd > 0 then
          rj_num_ok c (sd\<lparr>jn_digit_pos := 0, jn_is_neg := False, jn_exp := 0, jn_part := Part_exp\<rparr>)
        else Inr (rjson_next_syntax, c)
      else if is_digit ch then
        and_then (c_int (jn_digit_pos sd + 1)) (\<lambda>p.
        rj_num_ok c (sd\<lparr>jn_num := d_add D (jn_num sd)
            (d_mul D (d_mul D (d_of_int D (digit_val ch)) (d_pow10 D (- p))) (d_of_int D (rj_sign (jn_is_neg sd)))),
          jn_digit_pos := p\<rparr>))
      else Inr (rjson_next_syntax, c))"

definition rj_num_exp :: "'d double_ops \<Rightarrow> 'd rjson_ctx \<Rightarrow> 'd rj_sd_num \<Rightarrow> char \<Rightarrow> 'd rjson_ret" where
  "rj_num_exp D c sd ch =
     (if ch = CHR ''+'' then
        if jn_digit_pos sd = 0 then rj_num_ok c (sd\<lparr>jn_is_neg := False\<rparr>) else Inr (rjson_next_syntax, c)
      else if ch = CHR ''-'' then
        if jn_digit_pos sd = 0 then rj_num_ok c (sd\<lparr>jn_is_neg := True\<rparr>) else Inr (rjson_next_syntax, c)
      else if is_digit ch then
        and_then (c_int (jn_exp sd * 10)) (\<lambda>e10.
        and_then (c_int (e10 + digit_val ch * rj_sign (jn_is_neg sd))) (\<lambda>e.
        and_then (c_int (jn_digit_pos sd + 1)) (\<lambda>p.
        rj_num_ok c (sd\<lparr>jn_exp := e, jn_digit_pos := p\<rparr>))))
      else Inr (rjson_next_syntax, c))"

definition rj_next_num :: "'d double_ops \<Rightarrow> 'd rjson_ctx \<Rightarrow> char \<Rightarrow> 'd rjson_ret" where
  "rj_next_num D c ch =
     rj_assert (rj_st c = Rj_num) (rj_assert (rj_is_val_expected c) (
     and_then (rj_sd_num_m c) (\<lambda>sd.
     if rj_is_whitespace ch \<or> ch = CHR ''}'' \<or> ch = CHR '']'' \<or> ch = CHR '','' then rj_num_end D c sd ch
     else if jn_part sd = Part_int \<and> ch = CHR ''0'' \<and> jn_digit_pos sd = 0 then
       rj_num_ok c (sd\<lparr>jn_part := Part_leading_zero\<rparr>)
     else case jn_part sd of
       Part_leading_zero \<Rightarrow>
         if ch = CHR ''.'' then rj_num_ok c (sd\<lparr>jn_part := Part_frac\<rparr>) else Inr (rjson_next_syntax, c)
     | Part_int \<Rightarrow> rj_num_int D c sd ch
     | Part_frac \<Rightarrow> rj_num_frac D c sd ch
     | Part_exp \<Rightarrow> rj_num_exp D c sd ch)))"

text \<open>
  \<^verbatim>\<open>next_bool_\<close> and \<^verbatim>\<open>next_null_\<close>: the next character of the word, or its end, which
  reports \<open>ty\<close>.
\<close>

definition rj_next_word :: "'d double_ops \<Rightarrow> 'd rjson_ctx \<Rightarrow> char \<Rightarrow> string \<Rightarrow> rjson_ty \<Rightarrow> 'd rjson_ret" where
  "rj_next_word D c ch word ty =
     rj_assert (rj_is_val_expected c) (
     and_then (rj_word_pos c) (\<lambda>p.
     and_then (peek (word @ [NUL]) p) (\<lambda>w.
     if ch \<noteq> w then Inr (rjson_next_syntax, c)
     else if p = length word - 1 then
       Inr (rjson_next_ok, rj_set_st D (c\<lparr>rj_cur := ty, rj_is_val_expected := False\<rparr>) Rj_idle)
     else Inr (rjson_next_ok, c\<lparr>rj_sd := (case rj_sd c of Js_special p b \<Rightarrow> Js_special (p + 1) b | s \<Rightarrow> s)\<rparr>))))"

definition rj_next_true :: "'d double_ops \<Rightarrow> 'd rjson_ctx \<Rightarrow> char \<Rightarrow> 'd rjson_ret" where
  "rj_next_true D c ch = rj_assert (rj_st c = Rj_true) (rj_next_word D c ch ''true'' Rjson_bool)"

definition rj_next_false :: "'d double_ops \<Rightarrow> 'd rjson_ctx \<Rightarrow> char \<Rightarrow> 'd rjson_ret" where
  "rj_next_false D c ch = rj_assert (rj_st c = Rj_false) (rj_next_word D c ch ''false'' Rjson_bool)"

definition rj_next_null :: "'d double_ops \<Rightarrow> 'd rjson_ctx \<Rightarrow> char \<Rightarrow> 'd rjson_ret" where
  "rj_next_null D c ch = rj_assert (rj_st c = Rj_null) (rj_next_word D c ch ''null'' Rjson_null)"

text \<open>The switch of \<^verbatim>\<open>next_idle_\<close> over the brackets, the quote and the comma.\<close>

definition rj_idle_punct :: "'d double_ops \<Rightarrow> 'd rjson_ctx \<Rightarrow> char \<Rightarrow> 'd rjson_ret" where
  "rj_idle_punct D c ch =
     (if ch = CHR ''{'' then
        if rj_is_val_expected c then
          and_then (rj_add_lvl (c\<lparr>rj_is_val_expected := True\<rparr>) Rl_obj) (\<lambda>c.
          Inr (rjson_next_ok, (rj_set_st D c Rj_want_key)\<lparr>rj_cur := Rjson_obj_start\<rparr>))
        else Inr (rjson_next_syntax, c)
      else if ch = CHR ''['' then
        if rj_is_val_expected c then
          and_then (rj_add_lvl c Rl_arr) (\<lambda>c.
          Inr (rjson_next_ok, (rj_set_st D c Rj_idle)\<lparr>rj_cur := Rjson_arr_start, rj_is_val_expected := True\<rparr>))
        else Inr (rjson_next_syntax, c)
      else if ch = CHR ''}'' then
        if rj_lvl c = Rl_obj \<and> \<not> rj_is_val_expected c then
          and_then (rj_pop_lvl c) (\<lambda>c.
          let c = (rj_set_st D c Rj_idle)\<lparr>rj_cur := Rjson_obj_end\<rparr> in
          Inr (if rj_lvl c = Rl_none then rjson_next_fin else rjson_next_ok, c))
        else Inr (rjson_next_syntax, c)
      else if ch = CHR '']'' then
        if rj_lvl c = Rl_arr \<and> \<not> rj_is_val_expected c then
          and_then (rj_pop_lvl c) (\<lambda>c.
          Inr (rjson_next_ok, (rj_set_st D c Rj_idle)\<lparr>rj_cur := Rjson_arr_end\<rparr>))
        else Inr (rjson_next_syntax, c)
      else if ch = DQ then
        if rj_is_val_expected c then
          Inr (rjson_next_ok, (rj_set_st D c Rj_str)\<lparr>rj_cur := rjson_incomplete, rj_is_val_expected := False\<rparr>)
        else Inr (rjson_next_syntax, c)
      else if ch = CHR '','' then
        if \<not> rj_is_val_expected c then
          let c = c\<lparr>rj_is_val_expected := True\<rparr> in
          if rj_lvl c = Rl_obj then
            Inr (rjson_next_ok, (rj_set_st D c Rj_want_key)\<lparr>rj_cur := rjson_incomplete\<rparr>)
          else if rj_lvl c = Rl_arr then Inr (rjson_next_ok, c\<lparr>rj_cur := rjson_incomplete\<rparr>)
          else Inr (rjson_next_syntax, c)
        else Inr (rjson_next_syntax, c)
      else Inr (rjson_next_syntax, c))"

definition rj_next_idle :: "'d double_ops \<Rightarrow> 'd rjson_ctx \<Rightarrow> char \<Rightarrow> 'd rjson_ret" where
  "rj_next_idle D c ch =
     rj_assert (rj_st c = Rj_idle) (
     let c = c\<lparr>rj_cur := rjson_incomplete\<rparr> in
     if rj_is_whitespace ch then Inr (rjson_next_ok, c)
     else if rj_lvl c = Rl_none \<and> ch \<noteq> CHR ''{'' then Inr (rjson_next_syntax, c)
     else if rj_is_val_expected c \<and> strchr_in ''true'' ch then rj_next_true D (rj_set_st D c Rj_true) ch
     else if rj_is_val_expected c \<and> strchr_in ''false'' ch then rj_next_false D (rj_set_st D c Rj_false) ch
     else if rj_is_val_expected c \<and> strchr_in ''null'' ch then rj_next_null D (rj_set_st D c Rj_null) ch
     else if rj_is_val_expected c \<and> rj_is_num_start ch then rj_next_num D (rj_set_st D c Rj_num) ch
     else rj_idle_punct D c ch)"

definition rj_next_want_key :: "'d double_ops \<Rightarrow> 'd rjson_ctx \<Rightarrow> char \<Rightarrow> 'd rjson_ret" where
  "rj_next_want_key D c ch =
     rj_assert (rj_st c = Rj_want_key) (rj_assert (rj_lvl c = Rl_obj) (rj_assert (rj_is_val_expected c) (
     if rj_is_whitespace ch then Inr (rjson_next_ok, c)
     else if ch = DQ then
       let c = rj_set_st D c Rj_str in
       and_then (rj_sd_str_m c) (\<lambda>sd.
       Inr (rjson_next_ok, c\<lparr>rj_sd := Js_str (sd\<lparr>js_is_key := True\<rparr>), rj_cur := rjson_incomplete\<rparr>))
     else if ch = CHR ''}'' then
       and_then (rj_pop_lvl (rj_set_st D c Rj_idle)) (\<lambda>c.
       let c = c\<lparr>rj_cur := Rjson_obj_end, rj_is_val_expected := False\<rparr> in
       Inr (if rj_lvl c = Rl_none then rjson_next_fin else rjson_next_ok, c))
     else Inr (rjson_next_syntax, c))))"

definition rj_next_want_colon :: "'d double_ops \<Rightarrow> 'd rjson_ctx \<Rightarrow> char \<Rightarrow> 'd rjson_ret" where
  "rj_next_want_colon D c ch =
     rj_assert (rj_st c = Rj_want_colon) (rj_assert (rj_lvl c = Rl_obj) (rj_assert (\<not> rj_is_val_expected c) (
     if rj_is_whitespace ch then Inr (rjson_next_ok, c)
     else if ch = CHR '':'' then
       Inr (rjson_next_ok, (rj_set_st D c Rj_idle)\<lparr>rj_cur := rjson_incomplete, rj_is_val_expected := True\<rparr>)
     else Inr (rjson_next_syntax, c))))"

definition rj_dispatch :: "'d double_ops \<Rightarrow> 'd rjson_ctx \<Rightarrow> char \<Rightarrow> 'd rjson_ret" where
  "rj_dispatch D c ch = (case rj_st c of
       Rj_idle \<Rightarrow> rj_next_idle D c ch
     | Rj_want_key \<Rightarrow> rj_next_want_key D c ch
     | Rj_want_colon \<Rightarrow> rj_next_want_colon D c ch
     | Rj_str \<Rightarrow> rj_next_str D c ch
     | Rj_num \<Rightarrow> rj_next_num D c ch
     | Rj_true \<Rightarrow> rj_next_true D c ch
     | Rj_false \<Rightarrow> rj_next_false D c ch
     | Rj_null \<Rightarrow> rj_next_null D c ch)"

section \<open>The recursion of the step function\<close>

text \<open>
  \<^verbatim>\<open>rjson_next\<close> calls itself on the buffered character. The call is made with an empty
  buffer, and from an empty buffer only the end of a number fills it again, which reports the
  number: no second call follows.
\<close>

lemma rj_set_st_buffered [simp]: "rj_buffered (rj_set_st D c st) = rj_buffered c"
  by (simp add: rj_set_st_def split: rj_st.split)

lemma rj_set_st_cur [simp]: "rj_cur (rj_set_st D c st) = rj_cur c"
  by (simp add: rj_set_st_def split: rj_st.split)

abbreviation rj_quiet :: "'d rjson_ctx \<Rightarrow> 'd rjson_ret \<Rightarrow> bool" where
  "rj_quiet c m \<equiv> allows UNIV m (\<lambda>(r, c'). rj_buffered c' = rj_buffered c)"

lemma allows_UNIV_panic [simp]: "allows UNIV (sob_panic) Q"
  by (simp add: sob_panic_def)

lemma allows_UNIV_c_int [simp]: "allows UNIV (c_int i) Q = (int_min \<le> i \<and> i \<le> int_max \<longrightarrow> Q i)"
  by (auto simp: c_int_def)

lemma allows_UNIV_poke [simp]: "allows UNIV (poke b i ch) Q = (i < length b \<longrightarrow> Q (b[i := ch]))"
  by (simp add: poke_def)

lemma allows_UNIV_peek [simp]: "allows UNIV (peek b i) Q = (i < length b \<longrightarrow> Q (b ! i))"
  by (simp add: peek_def)

lemma allows_UNIV_case [simp]:
  "allows UNIV (case rj_sd c of Js_none \<Rightarrow> Inl f | Js_str s \<Rightarrow> Inl f | Js_num n \<Rightarrow> Inl f | Js_special p b \<Rightarrow> Inr p) Q =
     (\<forall>p b. rj_sd c = Js_special p b \<longrightarrow> Q p)"
  by (cases "rj_sd c") auto

lemma rj_word_quiet: "rj_quiet c (rj_next_word D c ch w ty)"
  by (auto simp: rj_next_word_def rj_assert_def rj_word_pos_def)

lemma rj_str_quiet: "rj_quiet c (rj_next_str D c ch)"
  by (auto simp: rj_next_str_def rj_assert_def rj_sd_str_m_def rj_add_str_ch_def Let_def
      split: rj_sd.split option.split)

lemma rj_punct_quiet: "rj_quiet c (rj_idle_punct D c ch)"
  by (auto simp: rj_idle_punct_def rj_add_lvl_def rj_pop_lvl_def Let_def split: list.split)

lemma rj_want_quiet: "rj_quiet c (rj_next_want_key D c ch)" "rj_quiet c (rj_next_want_colon D c ch)"
  by (auto simp: rj_next_want_key_def rj_next_want_colon_def rj_assert_def rj_sd_str_m_def rj_pop_lvl_def Let_def
      split: rj_sd.split list.split)

lemma rj_num_buffers:
  "allows UNIV (rj_next_num D c ch) (\<lambda>(r, c'). rj_buffered c' = rj_buffered c \<or> rj_cur c' = Rjson_num)"
  by (auto simp: rj_next_num_def rj_assert_def rj_sd_num_m_def rj_num_end_def rj_num_ok_def rj_num_int_def
      rj_num_frac_def rj_num_exp_def Let_def split: rj_sd.split rj_num_part.split)

lemma rj_special_quiet:
  "rj_quiet c (rj_next_true D c ch)" "rj_quiet c (rj_next_false D c ch)" "rj_quiet c (rj_next_null D c ch)"
  using rj_word_quiet[where c = c and D = D and ch = ch]
  by (auto simp: rj_next_true_def rj_next_false_def rj_next_null_def rj_assert_def)

lemma rj_dispatch_buffers:
  assumes "rj_dispatch D c ch = Inr (r, c')"
  shows "rj_buffered c' = rj_buffered c \<or> rj_cur c' = Rjson_num"
proof -
  let ?Q = "\<lambda>(r, c'). rj_buffered c' = rj_buffered c \<or> rj_cur c' = Rjson_num"
  have quiet: "allows UNIV m ?Q" if "rj_quiet c1 m" "rj_buffered c1 = rj_buffered c" for c1 m
    using that by (cases m) auto
  have num: "allows UNIV (rj_next_num D c1 ch) ?Q" if "rj_buffered c1 = rj_buffered c" for c1
    using rj_num_buffers[where c = c1 and D = D and ch = ch] that by (cases "rj_next_num D c1 ch") auto
  have "allows UNIV (rj_next_idle D c ch) ?Q"
    unfolding rj_next_idle_def Let_def rj_assert_def
    by (auto intro!: quiet[OF rj_special_quiet(1)] quiet[OF rj_special_quiet(2)] quiet[OF rj_special_quiet(3)]
        num quiet[OF rj_punct_quiet])
  then have "allows UNIV (rj_dispatch D c ch) ?Q"
    unfolding rj_dispatch_def
    using quiet[OF rj_special_quiet(1) refl] quiet[OF rj_special_quiet(2) refl] quiet[OF rj_special_quiet(3) refl]
      num[OF refl] quiet[OF rj_want_quiet(1) refl] quiet[OF rj_want_quiet(2) refl] quiet[OF rj_str_quiet refl]
    by (simp split: rj_st.split)
  with assms show ?thesis by simp
qed

function rjson_next :: "'d double_ops \<Rightarrow> 'd rjson_ctx \<Rightarrow> char \<Rightarrow> 'd rjson_ret" where
  "rjson_next D c ch =
     (let processed_buffered = (rj_buffered c \<noteq> -1);
          ch1 = (if processed_buffered then to_char (rj_buffered c) else ch);
          c1 = (if processed_buffered then c\<lparr>rj_buffered := schar ch\<rparr> else c) in
      if ch1 = NUL then Inr (if rj_lvl c1 = Rl_none then rjson_next_fin else rjson_next_syntax, c1)
      else case rj_dispatch D c1 ch1 of
        Inl f \<Rightarrow> Inl f
      | Inr (r, c2) \<Rightarrow>
          let c3 = (if (processed_buffered \<or> rj_buffered c2 = -1) \<and> r \<noteq> rjson_next_syntax
                    then c2\<lparr>rj_pos := rj_pos c2 + 1\<rparr> else c2) in
          if rj_buffered c3 \<noteq> -1 \<and> r = rjson_next_ok \<and> rj_cur c3 = rjson_incomplete then
            rjson_next D (c3\<lparr>rj_buffered := -1\<rparr>) (to_char (rj_buffered c3))
          else if rj_buffered c3 \<noteq> -1 \<and> r = rjson_next_ok \<and> rj_buffered c3 = schar NUL \<and> rj_lvl c3 \<noteq> Rl_none then
            Inr (rjson_next_syntax, c3)
          else Inr (r, c3))"
  by pat_completeness auto

termination
proof (relation "measure (\<lambda>(D, c, ch). if rj_buffered c = -1 then 0 else 1)", goal_cases)
  case (2 D c ch p ch1 c1 x r c2 c3)
  then show ?case
    using rj_dispatch_buffers[where D = D and c = c1 and ch = ch1 and r = r and c' = c2] by (auto split: if_splits)
qed simp

declare rjson_next.simps [simp del]

section \<open>Accessors and the driver of the demo\<close>

definition rjson_pos :: "'d rjson_ctx \<Rightarrow> nat" where
  "rjson_pos c = rj_pos c"

definition rjson_cur_ty :: "'d rjson_ctx \<Rightarrow> rjson_ty" where
  "rjson_cur_ty c = rj_cur c"

definition rjson_cur_str :: "'d rjson_ctx \<Rightarrow> string" where
  "rjson_cur_str c = c_str (rj_str c)"

definition rjson_cur_num :: "'d rjson_ctx \<Rightarrow> 'd outcome" where
  "rjson_cur_num c = and_then (rj_sd_num_m c) (\<lambda>sd. Inr (jn_num sd))"

definition rjson_cur_is_true :: "'d rjson_ctx \<Rightarrow> bool outcome" where
  "rjson_cur_is_true c = (case rj_sd c of Js_special p (Some b) \<Rightarrow> Inr b | _ \<Rightarrow> Inl Inactive_member)"

datatype 'd rj_tok = Jt_str string | Jt_num 'd | Jt_bool bool | Jt_null
  | Jt_obj_start | Jt_obj_end | Jt_arr_start | Jt_arr_end

definition rj_token :: "'d rjson_ctx \<Rightarrow> 'd rj_tok list outcome" where
  "rj_token c = (case rjson_cur_ty c of
       rjson_incomplete \<Rightarrow> Inr []
     | Rjson_str \<Rightarrow> Inr [Jt_str (rjson_cur_str c)]
     | Rjson_num \<Rightarrow> and_then (rjson_cur_num c) (\<lambda>d. Inr [Jt_num d])
     | Rjson_bool \<Rightarrow> and_then (rjson_cur_is_true c) (\<lambda>b. Inr [Jt_bool b])
     | Rjson_null \<Rightarrow> Inr [Jt_null]
     | Rjson_obj_start \<Rightarrow> Inr [Jt_obj_start]
     | Rjson_obj_end \<Rightarrow> Inr [Jt_obj_end]
     | Rjson_arr_start \<Rightarrow> Inr [Jt_arr_start]
     | Rjson_arr_end \<Rightarrow> Inr [Jt_arr_end])"

text \<open>
  The loop of the demo's \<^verbatim>\<open>main\<close>: how it ends (the input may run out without \<^verbatim>\<open>fin\<close>), and
  the tokens it prints.
\<close>

datatype rj_end = End_syntax | End_fin | End_input

fun rj_run :: "'d double_ops \<Rightarrow> 'd rjson_ctx \<Rightarrow> string \<Rightarrow> (rj_end \<times> 'd rj_tok list) outcome" where
  "rj_run D c [] = Inr (End_input, [])"
| "rj_run D c (ch # s) =
     and_then (rjson_next D c ch) (\<lambda>(r, c).
     if r = rjson_next_syntax then Inr (End_syntax, [])
     else and_then (rj_token c) (\<lambda>t.
       if r = rjson_next_fin then Inr (End_fin, t)
       else and_then (rj_run D c s) (\<lambda>(e, ts). Inr (e, t @ ts))))"

section \<open>The invariant\<close>

definition rj_sd_ok :: "'d rjson_ctx \<Rightarrow> bool" where
  "rj_sd_ok c = (case rj_st c of
       Rj_idle \<Rightarrow> True
     | Rj_want_key \<Rightarrow> rj_lvl c = Rl_obj \<and> rj_is_val_expected c
     | Rj_want_colon \<Rightarrow> rj_lvl c = Rl_obj \<and> \<not> rj_is_val_expected c
     | Rj_str \<Rightarrow> (\<exists>s. rj_sd c = Js_str s \<and> js_len s \<le> rj_str_mlen c \<and> (js_is_key s \<longrightarrow> rj_lvl c = Rl_obj))
     | Rj_num \<Rightarrow> rj_cur c = rjson_incomplete \<and> rj_is_val_expected c \<and> rj_buffered c = -1 \<and>
         (\<exists>n. rj_sd c = Js_num n \<and> 0 \<le> jn_digit_pos n \<and> jn_digit_pos n \<le> int_max \<and>
           int_min \<le> jn_exp n \<and> jn_exp n \<le> int_max)
     | Rj_true \<Rightarrow> rj_cur c = rjson_incomplete \<and> rj_is_val_expected c \<and> (\<exists>p b. rj_sd c = Js_special p (Some b) \<and> p < 4)
     | Rj_false \<Rightarrow> rj_cur c = rjson_incomplete \<and> rj_is_val_expected c \<and> (\<exists>p b. rj_sd c = Js_special p (Some b) \<and> p < 5)
     | Rj_null \<Rightarrow> rj_cur c = rjson_incomplete \<and> rj_is_val_expected c \<and> (\<exists>p b. rj_sd c = Js_special p b \<and> p < 4))"

definition rj_cur_ok :: "'d rjson_ctx \<Rightarrow> bool" where
  "rj_cur_ok c \<longleftrightarrow> (rj_cur c = Rjson_num \<longrightarrow> (\<exists>n. rj_sd c = Js_num n)) \<and>
     (rj_cur c = Rjson_bool \<longrightarrow> (\<exists>p b. rj_sd c = Js_special p (Some b)))"

definition rj_core :: "'d rjson_ctx \<Rightarrow> bool" where
  "rj_core c \<longleftrightarrow> length (rj_str c) = rj_str_mlen c \<and> length (rj_lvls c) \<le> rj_max_depth \<and>
     Rl_none \<notin> set (rj_lvls c) \<and> rj_sd_ok c \<and> rj_cur_ok c"

text \<open>While a character is buffered the reader is between values.\<close>

definition rj_inv :: "'d rjson_ctx \<Rightarrow> bool" where
  "rj_inv c \<longleftrightarrow> rj_core c \<and> (rj_buffered c \<noteq> -1 \<longrightarrow> rj_st c = Rj_idle \<and> \<not> rj_is_val_expected c)"

lemmas rj_core_defs = rj_core_def rj_sd_ok_def rj_cur_ok_def

lemma rjson_init_inv: "length b = n \<Longrightarrow> rj_inv (rjson_init b n)"
  by (simp add: rj_inv_def rj_core_defs rjson_init_def)

lemma rj_token_returns: "rj_inv c \<Longrightarrow> \<exists>t. rj_token c = Inr t"
  by (auto simp: rj_inv_def rj_core_defs rj_token_def rjson_cur_ty_def rjson_cur_num_def rjson_cur_is_true_def
      rj_sd_num_m_def split: rjson_ty.splits)

text \<open>
  What a state function may do: fault in \<open>F\<close> only; otherwise keep the invariant, and fill
  the buffer only at the end of a number.
\<close>

definition rj_keeps :: "fault set \<Rightarrow> 'd rjson_ctx \<Rightarrow> 'd rjson_ret \<Rightarrow> bool" where
  "rj_keeps F c m = allows F m (\<lambda>(r, c'). rj_core c' \<and>
     (rj_buffered c' = rj_buffered c \<or>
      rj_cur c' = Rjson_num \<and> rj_st c' = Rj_idle \<and> \<not> rj_is_val_expected c'))"

lemma rj_lvl_simps [simp]:
  "rj_lvl (c\<lparr>rj_cur := x\<rparr>) = rj_lvl c" "rj_lvl (c\<lparr>rj_st := st\<rparr>) = rj_lvl c"
  "rj_lvl (c\<lparr>rj_sd := sd\<rparr>) = rj_lvl c" "rj_lvl (c\<lparr>rj_is_val_expected := b\<rparr>) = rj_lvl c"
  "rj_lvl (c\<lparr>rj_str := s\<rparr>) = rj_lvl c" "rj_lvl (c\<lparr>rj_pos := p\<rparr>) = rj_lvl c"
  "rj_lvl (c\<lparr>rj_buffered := q\<rparr>) = rj_lvl c" "rj_lvl (c\<lparr>rj_lvls := l # ls\<rparr>) = l"
  by (simp_all add: rj_lvl_def)

lemma rj_set_st_simps [simp]:
  "rj_set_st D c Rj_idle = c\<lparr>rj_st := Rj_idle\<rparr>" "rj_set_st D c Rj_want_key = c\<lparr>rj_st := Rj_want_key\<rparr>"
  "rj_set_st D c Rj_want_colon = c\<lparr>rj_st := Rj_want_colon\<rparr>"
  by (simp_all add: rj_set_st_def)

lemma rj_str_keeps:
  assumes "rj_core c" "rj_st c = Rj_str"
  shows "rj_keeps F c (rj_next_str D c ch)"
proof -
  from assms obtain s where s: "rj_sd c = Js_str s" "js_len s \<le> rj_str_mlen c" "js_is_key s \<longrightarrow> rj_lvl c = Rl_obj"
    "length (rj_str c) = rj_str_mlen c" "length (rj_lvls c) \<le> rj_max_depth" "Rl_none \<notin> set (rj_lvls c)"
    by (auto simp: rj_core_defs)
  with assms(2) show ?thesis
    by (auto simp: rj_keeps_def rj_next_str_def rj_assert_def rj_sd_str_m_def rj_add_str_ch_def Let_def rj_core_defs
        split: option.split)
qed

lemma rj_num_keeps:
  assumes "rj_core c" "rj_st c = Rj_num" and ov: "is_digit ch \<Longrightarrow> Signed_overflow \<in> F"
  shows "rj_keeps F c (rj_next_num D c ch)"
proof -
  from assms obtain n where n: "rj_sd c = Js_num n" "0 \<le> jn_digit_pos n" "jn_digit_pos n \<le> int_max"
    "int_min \<le> jn_exp n" "jn_exp n \<le> int_max" "rj_is_val_expected c" "rj_buffered c = -1"
    "rj_cur c = rjson_incomplete"
    and b: "length (rj_str c) = rj_str_mlen c" "length (rj_lvls c) \<le> rj_max_depth" "Rl_none \<notin> set (rj_lvls c)"
    by (auto simp: rj_core_defs)
  have ok: "rj_keeps F c (rj_num_ok c n')" if "0 \<le> jn_digit_pos n'" "jn_digit_pos n' \<le> int_max"
    "int_min \<le> jn_exp n'" "jn_exp n' \<le> int_max" for n'
    using that n b assms by (auto simp: rj_keeps_def rj_num_ok_def rj_core_defs)
  have int: "rj_keeps F c (rj_num_int D c n ch)"
    using ok n assms ov by (auto simp: rj_num_int_def rj_keeps_def c_int_def int_max_def int_min_def)
  have frac: "rj_keeps F c (rj_num_frac D c n ch)"
    using ok n assms ov by (auto simp: rj_num_frac_def rj_keeps_def c_int_def int_max_def int_min_def)
  have exp: "rj_keeps F c (rj_num_exp D c n ch)"
    using ok n assms ov by (auto simp: rj_num_exp_def rj_keeps_def c_int_def int_max_def int_min_def)
  have fin: "rj_keeps F c (rj_num_end D c n ch)"
    using n b assms by (auto simp: rj_num_end_def rj_keeps_def rj_assert_def Let_def rj_core_defs)
  have syn: "rj_keeps F c (Inr (rjson_next_syntax, c))" using assms by (simp add: rj_keeps_def)
  show ?thesis
    using n assms ok[of "n\<lparr>jn_part := _\<rparr>"] int frac exp fin syn
    by (cases "jn_part n") (simp_all add: rj_next_num_def rj_assert_def rj_sd_num_m_def)
qed

lemma rj_word_keeps:
  assumes "rj_core c" "rj_is_val_expected c" "rj_sd c = Js_special p b" "p < length w" "ty = Rjson_bool \<longrightarrow> b \<noteq> None"
    "ty \<noteq> Rjson_num" "rj_cur c = rjson_incomplete"
    and st: "rj_st c = Rj_true \<and> length w = 4 \<and> b \<noteq> None \<or> rj_st c = Rj_false \<and> length w = 5 \<and> b \<noteq> None \<or>
      rj_st c = Rj_null \<and> length w = 4"
  shows "rj_keeps F c (rj_next_word D c ch w ty)"
  using assms
  by (auto simp: rj_keeps_def rj_next_word_def rj_assert_def rj_word_pos_def rj_core_defs)

lemma rj_special_keeps:
  assumes core: "rj_core c"
  shows "rj_st c = Rj_true \<Longrightarrow> rj_keeps F c (rj_next_true D c ch)"
    "rj_st c = Rj_false \<Longrightarrow> rj_keeps F c (rj_next_false D c ch)"
    "rj_st c = Rj_null \<Longrightarrow> rj_keeps F c (rj_next_null D c ch)"
proof -
  assume st: "rj_st c = Rj_true"
  with core obtain p b where "rj_sd c = Js_special p (Some b)" "p < 4" "rj_is_val_expected c" "rj_cur c = rjson_incomplete"
    by (auto simp: rj_core_defs)
  with core st show "rj_keeps F c (rj_next_true D c ch)"
    by (simp add: rj_next_true_def rj_assert_def rj_word_keeps)
next
  assume st: "rj_st c = Rj_false"
  with core obtain p b where "rj_sd c = Js_special p (Some b)" "p < 5" "rj_is_val_expected c" "rj_cur c = rjson_incomplete"
    by (auto simp: rj_core_defs)
  with core st show "rj_keeps F c (rj_next_false D c ch)"
    by (simp add: rj_next_false_def rj_assert_def rj_word_keeps)
next
  assume st: "rj_st c = Rj_null"
  with core obtain p b where "rj_sd c = Js_special p b" "p < 4" "rj_is_val_expected c" "rj_cur c = rjson_incomplete"
    by (auto simp: rj_core_defs)
  with core st show "rj_keeps F c (rj_next_null D c ch)"
    by (simp add: rj_next_null_def rj_assert_def rj_word_keeps)
qed

lemma rj_pop_ok: "rj_lvl c = l \<Longrightarrow> l \<noteq> Rl_none \<Longrightarrow> rj_pop_lvl c = Inr (c\<lparr>rj_lvls := tl (rj_lvls c)\<rparr>)"
  by (cases "rj_lvls c") (auto simp: rj_pop_lvl_def rj_lvl_def)

lemma rj_core_tl:
  "length ls \<le> n \<Longrightarrow> Rl_none \<notin> set ls \<Longrightarrow> length (tl ls) \<le> n \<and> Rl_none \<notin> set (tl ls)"
  by (cases ls) auto

lemma rj_want_key_keeps:
  assumes "rj_core c" "rj_st c = Rj_want_key"
  shows "rj_keeps F c (rj_next_want_key D c ch)"
  using assms rj_core_tl[of "rj_lvls c" rj_max_depth]
  by (auto simp: rj_next_want_key_def rj_keeps_def rj_assert_def rj_core_defs rj_pop_ok rj_sd_str_m_def rj_set_st_def Let_def)

lemma rj_want_colon_keeps:
  assumes "rj_core c" "rj_st c = Rj_want_colon"
  shows "rj_keeps F c (rj_next_want_colon D c ch)"
  using assms by (auto simp: rj_next_want_colon_def rj_keeps_def rj_assert_def rj_core_defs Let_def)

lemma rj_punct_keeps:
  assumes "rj_core c" "rj_st c = Rj_idle" "rj_cur c = rjson_incomplete"
    and "length (rj_lvls c) = rj_max_depth \<Longrightarrow> Panic \<in> F"
  shows "rj_keeps F c (rj_idle_punct D c ch)"
  using assms rj_core_tl[of "rj_lvls c" rj_max_depth]
  by (auto simp: rj_idle_punct_def rj_keeps_def rj_core_defs rj_pop_ok rj_add_lvl_def rj_set_st_def[of _ _ Rj_str]
      sob_panic_def Let_def)

lemma rj_enter_core:
  assumes "rj_core c" "rj_st c = Rj_idle" "rj_cur c = rjson_incomplete" "rj_is_val_expected c" "rj_buffered c = -1"
    and "st = Rj_num \<or> st = Rj_true \<or> st = Rj_false \<or> st = Rj_null"
  shows "rj_core (rj_set_st D c st)" "rj_st (rj_set_st D c st) = st"
  using assms by (auto simp: rj_core_defs rj_set_st_def int_min_def int_max_def)

lemma rj_num_first_keeps:
  assumes "rj_core c" "rj_st c = Rj_num" "rj_sd c = Js_num n" "jn_digit_pos n = 0" "jn_part n = Part_int"
  shows "rj_keeps F c (rj_next_num D c ch)"
proof (cases "is_digit ch")
  case True
  then have "\<not> rj_is_whitespace ch" "ch \<noteq> CHR ''}''" "ch \<noteq> CHR '']''" "ch \<noteq> CHR '',''" "ch \<noteq> CHR ''-''"
    "ch \<noteq> CHR ''.''" "ch \<noteq> CHR ''e''" "ch \<noteq> CHR ''E''"
    by (auto simp: char_defs schar_def)
  with True assms show ?thesis
    by (auto simp: rj_keeps_def rj_next_num_def rj_num_int_def rj_num_ok_def rj_assert_def rj_sd_num_m_def
        c_int_def int_min_def int_max_def rj_core_defs)
qed (use assms rj_num_keeps in blast)

lemma rj_idle_keeps:
  assumes core: "rj_core c" "rj_st c = Rj_idle" and buf: "rj_buffered c = -1 \<or> \<not> rj_is_val_expected c"
    and F: "length (rj_lvls c) = rj_max_depth \<Longrightarrow> Panic \<in> F"
  shows "rj_keeps F c (rj_next_idle D c ch)"
proof -
  let ?c = "c\<lparr>rj_cur := rjson_incomplete\<rparr>"
  have core': "rj_core ?c" "rj_st ?c = Rj_idle" "rj_cur ?c = rjson_incomplete"
    using core by (auto simp: rj_core_defs)
  have plain: "rj_keeps F c (Inr (r, ?c))" for r using core'(1) by (simp add: rj_keeps_def)
  have punct: "rj_keeps F c (rj_idle_punct D ?c ch)"
    using rj_punct_keeps[OF core', of F D ch] F by (simp add: rj_keeps_def)
  have enter: "rj_keeps F c (rj_next_true D (rj_set_st D ?c Rj_true) ch)"
    "rj_keeps F c (rj_next_false D (rj_set_st D ?c Rj_false) ch)"
    "rj_keeps F c (rj_next_null D (rj_set_st D ?c Rj_null) ch)"
    "rj_keeps F c (rj_next_num D (rj_set_st D ?c Rj_num) ch)"
    if "rj_is_val_expected c"
  proof -
    have b: "rj_is_val_expected ?c" "rj_buffered ?c = -1" using buf that by auto
    note e = rj_enter_core[OF core' b]
    show "rj_keeps F c (rj_next_true D (rj_set_st D ?c Rj_true) ch)"
      using rj_special_keeps(1)[OF e(1)[of Rj_true D] e(2), of F D ch] by (simp add: rj_keeps_def)
    show "rj_keeps F c (rj_next_false D (rj_set_st D ?c Rj_false) ch)"
      using rj_special_keeps(2)[OF e(1)[of Rj_false D] e(2), of F D ch] by (simp add: rj_keeps_def)
    show "rj_keeps F c (rj_next_null D (rj_set_st D ?c Rj_null) ch)"
      using rj_special_keeps(3)[OF e(1)[of Rj_null D] e(2), of F D ch] by (simp add: rj_keeps_def)
    have "rj_sd (rj_set_st D ?c Rj_num) = Js_num \<lparr>jn_num = d_of_int D 0, jn_digit_pos = 0, jn_is_neg = False,
        jn_exp = 0, jn_part = Part_int\<rparr>"
      using core by (simp add: rj_set_st_def)
    from rj_num_first_keeps[OF e(1)[of Rj_num D] e(2) this, of F D ch]
    show "rj_keeps F c (rj_next_num D (rj_set_st D ?c Rj_num) ch)" by (simp add: rj_keeps_def)
  qed
  show ?thesis
    using core(2) plain punct enter by (simp add: rj_next_idle_def rj_assert_def Let_def)
qed

text \<open>One character, without the buffer.\<close>

definition rj_faults :: "'d rjson_ctx \<Rightarrow> char \<Rightarrow> fault set" where
  "rj_faults c ch = (if length (rj_lvls c) = rj_max_depth then {Panic} else {}) \<union>
     (if rj_st c = Rj_num \<and> is_digit ch then {Signed_overflow} else {})"

lemma rj_dispatch_keeps:
  assumes "rj_core c" "rj_buffered c = -1 \<or> rj_st c = Rj_idle \<and> \<not> rj_is_val_expected c"
  shows "rj_keeps (rj_faults c ch) c (rj_dispatch D c ch)"
proof (cases "rj_st c")
  case Rj_idle
  have "rj_keeps (rj_faults c ch) c (rj_next_idle D c ch)"
    by (rule rj_idle_keeps) (use assms Rj_idle in \<open>auto simp: rj_faults_def\<close>)
  with Rj_idle show ?thesis by (simp add: rj_dispatch_def)
next
  case Rj_num
  have "rj_keeps (rj_faults c ch) c (rj_next_num D c ch)"
    by (rule rj_num_keeps) (use assms Rj_num in \<open>auto simp: rj_faults_def\<close>)
  with Rj_num show ?thesis by (simp add: rj_dispatch_def)
qed (use assms in \<open>simp_all add: rj_dispatch_def rj_want_key_keeps rj_want_colon_keeps rj_str_keeps rj_special_keeps\<close>)

text \<open>Between values only whitespace and a comma report nothing, and they keep the levels.\<close>

lemma rj_dispatch_lagging:
  assumes "rj_core c" "rj_st c = Rj_idle" "\<not> rj_is_val_expected c"
  shows "safe (rj_dispatch D c ch) (\<lambda>(r, c'). rj_core c' \<and> rj_buffered c' = rj_buffered c \<and>
    (if r = rjson_next_ok \<and> rj_cur c' = rjson_incomplete then rj_lvls c' = rj_lvls c \<and> rj_st c' \<noteq> Rj_num
     else rj_st c' = Rj_idle \<and> \<not> rj_is_val_expected c'))"
  using assms rj_core_tl[of "rj_lvls c" rj_max_depth]
  by (cases "rj_lvl c")
    (auto simp: rj_dispatch_def rj_next_idle_def rj_idle_punct_def rj_assert_def rj_core_defs rj_pop_ok Let_def)

lemma rj_core_pos [simp]: "rj_core (c\<lparr>rj_pos := p\<rparr>) = rj_core c"
  by (cases "rj_st c") (simp_all add: rj_core_defs)

lemma rj_core_buffered: "rj_core c \<Longrightarrow> rj_st c \<noteq> Rj_num \<or> b = -1 \<Longrightarrow> rj_core (c\<lparr>rj_buffered := b\<rparr>)"
  by (cases "rj_st c") (auto simp: rj_core_defs)

lemma rjson_next_settled:
  assumes core: "rj_core c" and buf: "rj_buffered c = -1"
  shows "allows (rj_faults c ch) (rjson_next D c ch) (\<lambda>(r, c'). rj_inv c')"
proof (cases "ch = NUL")
  case True
  then show ?thesis
    using assms by (subst rjson_next.simps) (simp add: rj_inv_def)
next
  case ch: False
  note keeps = rj_dispatch_keeps[of c ch D, unfolded rj_keeps_def]
  show ?thesis
  proof (cases "rj_dispatch D c ch")
    case (Inl f)
    with keeps core buf ch show ?thesis by (subst rjson_next.simps) simp
  next
    case (Inr x)
    obtain r c2 where x: "x = (r, c2)" by (cases x)
    have c2: "rj_core c2" "rj_buffered c2 \<noteq> -1 \<longrightarrow> rj_cur c2 = Rjson_num \<and> rj_st c2 = Rj_idle \<and> \<not> rj_is_val_expected c2"
      using keeps core buf Inr x by auto
    then show ?thesis
      using Inr x ch buf by (subst rjson_next.simps) (auto simp: rj_inv_def Let_def)
  qed
qed

lemma rjson_next_keeps:
  assumes inv: "rj_inv c"
  shows "allows (rj_faults c ch) (rjson_next D c ch) (\<lambda>(r, c'). rj_inv c')"
proof (cases "rj_buffered c = -1")
  case True
  moreover have "rj_core c" using inv by (simp add: rj_inv_def)
  ultimately show ?thesis by (rule rjson_next_settled[rotated])
next
  case buf: False
  let ?c = "c\<lparr>rj_buffered := schar ch\<rparr>" and ?ch = "to_char (rj_buffered c)"
  have st: "rj_st c = Rj_idle" "\<not> rj_is_val_expected c" "rj_core c" using inv buf by (auto simp: rj_inv_def)
  then have core: "rj_core ?c" by (intro rj_core_buffered) auto
  show ?thesis
  proof (cases "?ch = NUL")
    case True
    with buf core st show ?thesis by (subst rjson_next.simps) (simp add: rj_inv_def Let_def)
  next
    case ch: False
    from rj_dispatch_lagging[OF core, of D ?ch] st obtain r c2 where
      d: "rj_dispatch D ?c ?ch = Inr (r, c2)" and c2: "rj_core c2" "rj_buffered c2 = schar ch"
      and cases: "if r = rjson_next_ok \<and> rj_cur c2 = rjson_incomplete then rj_lvls c2 = rj_lvls c \<and> rj_st c2 \<noteq> Rj_num
        else rj_st c2 = Rj_idle \<and> \<not> rj_is_val_expected c2"
      by (auto simp: safe_iff)
    show ?thesis
    proof (cases "schar ch \<noteq> -1 \<and> r = rjson_next_ok \<and> rj_cur c2 = rjson_incomplete")
      case rec: True
      let ?c4 = "c2\<lparr>rj_pos := rj_pos c2 + 1, rj_buffered := -1\<rparr>"
      have eq: "rjson_next D c ch = rjson_next D ?c4 (to_char (schar ch))"
        using buf ch d c2 rec by (subst rjson_next.simps) (simp add: Let_def)
      have "rj_core ?c4" using c2(1) rj_core_buffered[of "c2\<lparr>rj_pos := rj_pos c2 + 1\<rparr>" "-1"] by simp
      moreover have "rj_faults ?c4 x \<subseteq> rj_faults c ch" for x
        using cases rec by (auto simp: rj_faults_def)
      ultimately show ?thesis
        unfolding eq using rjson_next_settled[of ?c4 "to_char (schar ch)" D]
        by (cases "rjson_next D ?c4 (to_char (schar ch))") auto
    next
      case False
      then have "rj_inv c2" using cases c2 by (auto simp: rj_inv_def)
      moreover have "rj_inv (c2\<lparr>rj_pos := p\<rparr>) = rj_inv c2" for p by (simp add: rj_inv_def)
      ultimately show ?thesis
        using buf ch d c2(2) False by (subst rjson_next.simps) (auto simp: Let_def)
    qed
  qed
qed

lemma to_char_schar [simp]: "to_char (schar ch) = ch"
proof -
  have "schar ch mod 256 = of_char ch"
  proof -
    have "(of_char ch :: int) < 256" "0 \<le> (of_char ch :: int)"
      by (cases ch; simp add: of_char_def split: bool.splits)+
    then show ?thesis by (auto simp: schar_def Let_def)
  qed
  then show ?thesis by (simp add: to_char_def)
qed

section \<open>Properties\<close>

text \<open>
  C27: Feeding one character to the JSON reader in a good context, whether or not it runs one
  character behind, never writes outside the string buffer, never reads an inactive union
  member and fails none of its assertions: it returns a good context again. It panics only
  where a 25th level would be opened, and overflows an \<^verbatim>\<open>int\<close> only at a digit inside a number.
\<close>

theorem rjson_next_safe:
  assumes "rj_inv c"
  shows "case rjson_next D c ch of
      Inl f \<Rightarrow> f = Panic \<and> length (rj_lvls c) = 24 \<or> f = Signed_overflow \<and> rj_st c = Rj_num \<and> is_digit ch
    | Inr (r, c') \<Rightarrow> rj_inv c'"
  using rjson_next_keeps[OF assms, of ch D]
  by (cases "rjson_next D c ch") (auto simp: rj_faults_def rj_max_depth_def split: if_splits)

theorem rjson_next_safe_witness:
  "case rjson_next int_double (rjson_init ''xyz'' 3) (CHR ''{'') of
      Inl f \<Rightarrow> f = Panic \<and> length (rj_lvls (rjson_init ''xyz'' 3 :: int rjson_ctx)) = 24 \<or>
        f = Signed_overflow \<and> rj_st (rjson_init ''xyz'' 3 :: int rjson_ctx) = Rj_num \<and> is_digit (CHR ''{'')
    | Inr (r, c') \<Rightarrow> rj_inv c'"
  by (rule rjson_next_safe) (simp add: rjson_init_inv)

lemma rj_run_faults: "rj_inv c \<Longrightarrow> rj_run D c s = Inl f \<Longrightarrow> f = Panic \<or> f = Signed_overflow"
proof (induction s arbitrary: c)
  case (Cons ch s)
  show ?case
  proof (cases "rjson_next D c ch")
    case (Inl g)
    then show ?thesis
      using Cons.prems rjson_next_keeps[OF Cons.prems(1), of ch D] by (auto simp: rj_faults_def split: if_splits)
  next
    case (Inr x)
    obtain r c1 where x: "x = (r, c1)" by (cases x)
    then have inv: "rj_inv c1" using Inr rjson_next_keeps[OF Cons.prems(1), of ch D] by simp
    obtain t where "rj_token c1 = Inr t" using rj_token_returns[OF inv] by blast
    then show ?thesis
      using Inr x Cons.prems(2) Cons.IH[OF inv] by (cases r) (auto simp: and_then_eq_Inl)
  qed
qed simp



text \<open>A text with the demo's buffer size, and quotes written as \<open>'\<close>.\<close>

definition rj_demo :: "string \<Rightarrow> (rj_end \<times> int rj_tok list) outcome" where
  "rj_demo s = rj_run int_double (rjson_init (replicate 8 NUL) 8)
     (map (\<lambda>ch. if ch = CHR 0x27 then DQ else ch) s @ [NUL])"

definition sq :: string where "sq = [CHR 0x27]"

text \<open>
  Whitespace after an opening brace or after a key leaves the last token in place, and the
  loop reports it again.
\<close>

theorem rjson_whitespace_repeats:
  "rj_demo (''{ '' @ sq @ ''a'' @ sq @ '' :null}'') =
     Inr (End_fin, [Jt_obj_start, Jt_obj_start, Jt_str ''a'', Jt_str ''a'', Jt_null, Jt_obj_end]) \<and>
   rj_demo (''{'' @ sq @ ''a'' @ sq @ '':null}'') =
     Inr (End_fin, [Jt_obj_start, Jt_str ''a'', Jt_null, Jt_obj_end])"
  by code_simp

text \<open>
  Valid JSON the reader refuses: the number 0, the empty array, a text outside ASCII and a
  \<^verbatim>\<open>u\<close> escape.
\<close>

theorem rjson_refuses_valid:
  "list_all (\<lambda>v. rj_demo (''{'' @ sq @ ''a'' @ sq @ '':'' @ v @ ''}'') =
      Inr (End_syntax, [Jt_obj_start, Jt_str ''a'']) \<or>
      rj_demo (''{'' @ sq @ ''a'' @ sq @ '':'' @ v @ ''}'') =
      Inr (End_syntax, [Jt_obj_start, Jt_str ''a'', Jt_arr_start]))
    [''0'', ''[]'', sq @ [CHR 0xC3, CHR 0xA9] @ sq, sq @ [BSL] @ ''u0041'' @ sq]"
  by code_simp

text \<open>
  Texts that are not JSON and are accepted: a trailing comma, a number with two signs, and
  a byte 0xFF after a number's delimiter, which as a \<^verbatim>\<open>char\<close> is the -1 that marks an empty
  buffer and is dropped.
\<close>

theorem rjson_accepts_invalid:
  "rj_demo (''{'' @ sq @ ''a'' @ sq @ '':null,}'') =
     Inr (End_fin, [Jt_obj_start, Jt_str ''a'', Jt_null, Jt_obj_end]) \<and>
   rj_demo (''{'' @ sq @ ''a'' @ sq @ '':--7}'') =
     Inr (End_fin, [Jt_obj_start, Jt_str ''a'', Jt_num (-7), Jt_obj_end]) \<and>
   rj_demo (''{'' @ sq @ ''a'' @ sq @ '':7,'' @ [CHR 0xFF] @ sq @ ''b'' @ sq @ '':8}'') =
     Inr (End_fin, [Jt_obj_start, Jt_str ''a'', Jt_num 7, Jt_str ''b'', Jt_num 8, Jt_obj_end])"
  by code_simp

text \<open>
  The sign of a number is kept for its exponent when no fraction stands between: the
  exponent of \<^verbatim>\<open>-1e2\<close> is read as -2, that of \<^verbatim>\<open>-1.0e2\<close> as 2.
\<close>

theorem rjson_exponent_sign:
  "rj_run (int_double\<lparr>d_pow10 := (\<lambda>n. n)\<rparr>) (rjson_init (replicate 8 NUL) 8) ([CHR ''{'', DQ, CHR ''a'', DQ] @ '':-1e2}'') =
     Inr (End_input, [Jt_obj_start, Jt_str ''a'', Jt_num 2]) \<and>
   rj_run (int_double\<lparr>d_pow10 := (\<lambda>n. n)\<rparr>) (rjson_init (replicate 8 NUL) 8) ([CHR ''{'', DQ, CHR ''a'', DQ] @ '':-1.0e2}'') =
     Inr (End_input, [Jt_obj_start, Jt_str ''a'', Jt_num (-2)])"
  by code_simp

text \<open>
  The depth limit is a panic, not an error: an object with 24 nested arrays ends the
  process, one with 23 does not.
\<close>

theorem rjson_depth_panic:
  "rj_demo (''{'' @ sq @ ''a'' @ sq @ '':'' @ replicate 24 (CHR ''['')) = Inl Panic \<and>
   rj_demo (''{'' @ sq @ ''a'' @ sq @ '':'' @ replicate 23 (CHR ''['')) =
     Inr (End_syntax, [Jt_obj_start, Jt_str ''a''] @ replicate 23 Jt_arr_start)"
  by code_simp

end
