(* ===== verification/Json.thy ===== *)
theory Json
  imports Wjson Rjson
begin

text \<open>
  The JSON writer and the JSON reader together: values as trees, the calls that write a tree,
  its compact text, the tokens the reader reports for it. The theorem: what \<^verbatim>\<open>wjson.c\<close>
  writes for a tree without the shapes the two files disagree on, \<^verbatim>\<open>rjson.c\<close> reads back.
\<close>

section \<open>Values\<close>

datatype json =
    Json_str string
  | Json_int "64 word"
  | Json_bool bool
  | Json_null
  | Json_arr "json list"
  | Json_obj "(string \<times> json) list"

fun commas :: "string list \<Rightarrow> string" where
  "commas [] = []"
| "commas [s] = s"
| "commas (s # t # ss) = s @ '','' @ commas (t # ss)"

primrec json_text :: "json \<Rightarrow> string" where
  "json_text (Json_str v) = wj_quoted v"
| "json_text (Json_int v) = fmt_int (sint v)"
| "json_text (Json_bool v) = (if v then ''true'' else ''false'')"
| "json_text Json_null = ''null''"
| "json_text (Json_arr vs) = ''['' @ commas (map json_text vs) @ '']''"
| "json_text (Json_obj kvs) =
     ''{'' @ commas (map (\<lambda>(k, t). wj_quoted k @ '':'' @ t) (map (map_prod id json_text) kvs)) @ ''}''"

primrec json_calls :: "json \<Rightarrow> 'd wj_call list" where
  "json_calls (Json_str v) = [Jstr v]"
| "json_calls (Json_int v) = [Jint v]"
| "json_calls (Json_bool v) = [Jbool v]"
| "json_calls Json_null = [Jnull]"
| "json_calls (Json_arr vs) = [Jarr_start] @ concat (map json_calls vs) @ [Jarr_end]"
| "json_calls (Json_obj kvs) =
     [Jobj_start] @ concat (map (\<lambda>(k, cs). Jstr k # cs) (map (map_prod id json_calls) kvs)) @ [Jobj_end]"

primrec json_toks :: "'d double_ops \<Rightarrow> json \<Rightarrow> 'd rj_tok list" where
  "json_toks D (Json_str v) = [Jt_str v]"
| "json_toks D (Json_int v) = [Jt_num (d_of_int D (sint v))]"
| "json_toks D (Json_bool v) = [Jt_bool v]"
| "json_toks D Json_null = [Jt_null]"
| "json_toks D (Json_arr vs) = [Jt_arr_start] @ concat (map (json_toks D) vs) @ [Jt_arr_end]"
| "json_toks D (Json_obj kvs) =
     [Jt_obj_start] @ concat (map (\<lambda>(k, ts). Jt_str k # ts) (map (map_prod id (json_toks D)) kvs)) @ [Jt_obj_end]"

primrec json_depth :: "json \<Rightarrow> nat" where
  "json_depth (Json_str v) = 0"
| "json_depth (Json_int v) = 0"
| "json_depth (Json_bool v) = 0"
| "json_depth Json_null = 0"
| "json_depth (Json_arr vs) = Suc (fold max (map json_depth vs) 0)"
| "json_depth (Json_obj kvs) = Suc (fold max (map snd (map (map_prod id json_depth) kvs)) 0)"

definition is_arr :: "json \<Rightarrow> bool" where
  "is_arr v = (case v of Json_arr _ \<Rightarrow> True | _ \<Rightarrow> False)"

definition json_str_ok :: "nat \<Rightarrow> string \<Rightarrow> bool" where
  "json_str_ok m v \<longleftrightarrow> list_all (\<lambda>ch. fst (wj_escape_ch ch) \<or> \<not> is_ctrl ch) v \<and> length v < m"

text \<open>
  The trees the two files agree on. \<open>m\<close> is the size of the reader's string buffer. In an
  object an array may only be the last value, since the writer drops the comma after it; the
  reader refuses empty arrays and the number 0, and a double holds integers of 53 bits.
\<close>

primrec json_ok :: "nat \<Rightarrow> json \<Rightarrow> bool" where
  "json_ok m (Json_str v) = json_str_ok m v"
| "json_ok m (Json_int v) = (sint v \<noteq> 0 \<and> \<bar>sint v\<bar> \<le> 2 ^ 53)"
| "json_ok m (Json_bool v) = True"
| "json_ok m Json_null = True"
| "json_ok m (Json_arr vs) = (vs \<noteq> [] \<and> list_all (\<lambda>b. b) (map (json_ok m) vs))"
| "json_ok m (Json_obj kvs) =
     (list_all (\<lambda>(k, b). json_str_ok m k \<and> b) (map (map_prod id (json_ok m)) kvs) \<and>
      list_all (\<lambda>(k, v). \<not> is_arr v) (butlast kvs))"

section \<open>Writing\<close>

lemma wa_opening_compact: "\<not> wa_pretty a \<Longrightarrow> wa_opening a = (if wa_comma a then '','' else [])"
  by (simp add: wa_opening_def wa_indent_def)

lemma wa_closing_compact: "\<not> wa_pretty a \<Longrightarrow> wa_closing a = []"
  by (simp add: wa_closing_def)

text \<open>The state after a value: whether a comma is due depends on the array quirk.\<close>

definition wa_after :: "wj_abs \<Rightarrow> json \<Rightarrow> wj_abs" where
  "wa_after a v = a\<lparr>wa_first := False, wa_st := (if wa_st a = Wj_want_val then Wj_want_key else wa_st a),
     wa_comma := \<not> (is_arr v \<and> wa_lvl a = Lvl_obj)\<rparr>"

definition wa_val_pos :: "wj_abs \<Rightarrow> bool" where
  "wa_val_pos a \<longleftrightarrow> \<not> wa_pretty a \<and> wa_ok a \<and> wa_st a \<noteq> Wj_want_key"

text \<open>\<open>wa_writes D a cs s a'\<close>: from \<open>a\<close> the calls append \<open>s\<close>, after the comma that is due.\<close>

definition wa_writes :: "'d double_ops \<Rightarrow> wj_abs \<Rightarrow> 'd wj_call list \<Rightarrow> string \<Rightarrow> wj_abs \<Rightarrow> bool" where
  "wa_writes D a cs s a' \<longleftrightarrow> wa_run D a cs = Some ((if wa_comma a then '','' else []) @ s, a')"

lemma wa_writes_append:
  "wa_writes D a cs s a1 \<Longrightarrow> wa_comma a1 \<Longrightarrow> wa_writes D a1 ds t a2 \<Longrightarrow> wa_writes D a (cs @ ds) (s @ '','' @ t) a2"
  using wa_run_append[of D a cs _ a1 ds] by (fastforce simp: wa_writes_def)

lemma wa_writes_append_nocomma:
  "wa_writes D a cs s a1 \<Longrightarrow> \<not> wa_comma a1 \<Longrightarrow> wa_writes D a1 ds t a2 \<Longrightarrow> wa_writes D a (cs @ ds) (s @ t) a2"
  using wa_run_append[of D a cs _ a1 ds] by (fastforce simp: wa_writes_def)

lemma fold_max_le: "fold max xs (a :: nat) \<le> n \<longleftrightarrow> a \<le> n \<and> (\<forall>x\<in>set xs. x \<le> n)"
  by (induction xs arbitrary: a) auto

text \<open>The elements of an array, from a state inside it.\<close>

definition wa_in_arr :: "wj_abs \<Rightarrow> bool" where
  "wa_in_arr a \<longleftrightarrow> \<not> wa_pretty a \<and> wa_ok a \<and> wa_lvl a = Lvl_arr \<and> wa_st a = Wj_none"

lemma wa_after_in_arr: "wa_in_arr a \<Longrightarrow> wa_after a v = a\<lparr>wa_first := False, wa_comma := True\<rparr>"
  by (cases a) (simp add: wa_after_def wa_in_arr_def wa_lvl_def)

lemma wa_writes_elems:
  assumes "\<And>v a. v \<in> set vs \<Longrightarrow> wa_in_arr a \<Longrightarrow> length (wa_lvls a) = n \<Longrightarrow>
      wa_writes D a (json_calls v) (json_text v) (wa_after a v)"
    and "vs \<noteq> []" "wa_in_arr a" "length (wa_lvls a) = n"
  shows "wa_writes D a (concat (map json_calls vs)) (commas (map json_text vs))
    (a\<lparr>wa_first := False, wa_comma := True\<rparr>)"
  using assms
proof (induction "map json_text vs" arbitrary: vs a rule: commas.induct)
  case (2 s)
  then obtain v where v: "vs = [v]" by auto
  have "wa_writes D a (json_calls v) (json_text v) (wa_after a v)" using 2 v by auto
  with v wa_after_in_arr[OF 2(4)] show ?case by simp
next
  case (3 s t ss)
  then obtain v w vs' where v: "vs = v # w # vs'" by (metis map_eq_Cons_conv)
  let ?a = "a\<lparr>wa_first := False, wa_comma := True\<rparr>"
  have 1: "wa_writes D a (json_calls v) (json_text v) ?a"
    using 3(3)[of v a] 3(5,6) v wa_after_in_arr[OF 3(5)] by simp
  have "wa_in_arr ?a" "length (wa_lvls ?a) = n" using 3(5,6) by (auto simp: wa_in_arr_def wa_ok_def wa_lvl_def)
  moreover have "t # ss = map json_text (w # vs')" using 3(2) v by simp
  ultimately have "wa_writes D ?a (concat (map json_calls (w # vs'))) (commas (map json_text (w # vs')))
      (?a\<lparr>wa_first := False, wa_comma := True\<rparr>)"
    by (intro 3(1) 3(3)) (simp_all add: v)
  from wa_writes_append[OF 1 _ this] v show ?case by simp
qed simp

text \<open>The members of an object.\<close>

definition wa_in_obj :: "wj_abs \<Rightarrow> bool" where
  "wa_in_obj a \<longleftrightarrow> \<not> wa_pretty a \<and> wa_ok a \<and> wa_lvl a = Lvl_obj \<and> wa_st a = Wj_want_key"

definition member_text :: "string \<times> json \<Rightarrow> string" where
  "member_text kv = wj_quoted (fst kv) @ '':'' @ json_text (snd kv)"

definition member_calls :: "string \<times> json \<Rightarrow> 'd wj_call list" where
  "member_calls kv = Jstr (fst kv) # json_calls (snd kv)"

lemma json_obj_simps:
  "json_text (Json_obj kvs) = ''{'' @ commas (map member_text kvs) @ ''}''"
  "json_calls (Json_obj kvs) = [Jobj_start] @ concat (map member_calls kvs) @ [Jobj_end]"
  by (simp_all add: member_text_def member_calls_def split_beta comp_def cong: map_cong)

lemma wa_writes_member:
  assumes val: "\<And>a. wa_val_pos a \<Longrightarrow> wa_lvl a = Lvl_obj \<Longrightarrow> length (wa_lvls a) = n \<Longrightarrow>
      wa_writes D a (json_calls v) (json_text v) (wa_after a v)"
    and a: "wa_in_obj a" "length (wa_lvls a) = n"
  shows "wa_writes D a (member_calls (k, v)) (member_text (k, v)) (a\<lparr>wa_first := False, wa_comma := \<not> is_arr v\<rparr>)"
proof -
  let ?a = "a\<lparr>wa_first := False, wa_comma := False, wa_st := Wj_want_val\<rparr>"
  have key: "wa_writes D a [Jstr k] (wj_quoted k @ '':'') ?a"
    using a by (simp add: wa_writes_def wa_in_obj_def wa_opening_compact)
  have "wa_val_pos ?a" "wa_lvl ?a = Lvl_obj" "length (wa_lvls ?a) = n"
    using a by (auto simp: wa_val_pos_def wa_in_obj_def wa_ok_def wa_lvl_def)
  from wa_writes_append_nocomma[OF key _ val[OF this]]
  have "wa_writes D a ([Jstr k] @ json_calls v) ((wj_quoted k @ '':'') @ json_text v) (wa_after ?a v)" by simp
  moreover have "wa_after ?a v = a\<lparr>wa_first := False, wa_comma := \<not> is_arr v\<rparr>"
    using a by (cases a) (simp add: wa_after_def wa_in_obj_def wa_lvl_def)
  ultimately show ?thesis by (simp add: member_calls_def member_text_def)
qed

lemma wa_writes_members:
  assumes "\<And>v a. v \<in> snd ` set kvs \<Longrightarrow> wa_val_pos a \<Longrightarrow> wa_lvl a = Lvl_obj \<Longrightarrow> length (wa_lvls a) = n \<Longrightarrow>
      wa_writes D a (json_calls v) (json_text v) (wa_after a v)"
    and "kvs \<noteq> []" "wa_in_obj a" "length (wa_lvls a) = n" "list_all (\<lambda>(k, v). \<not> is_arr v) (butlast kvs)"
  shows "wa_writes D a (concat (map member_calls kvs)) (commas (map member_text kvs))
    (a\<lparr>wa_first := False, wa_comma := \<not> is_arr (snd (last kvs))\<rparr>)"
  using assms
proof (induction "map member_text kvs" arbitrary: kvs a rule: commas.induct)
  case (2 s)
  then obtain k v where v: "kvs = [(k, v)]" by auto
  have "wa_writes D a (member_calls (k, v)) (member_text (k, v)) (a\<lparr>wa_first := False, wa_comma := \<not> is_arr v\<rparr>)"
    by (rule wa_writes_member) (use 2 v in auto)
  with v show ?case by simp
next
  case (3 s t ss)
  then obtain k v w kvs' where v: "kvs = (k, v) # w # kvs'" by (metis map_eq_Cons_conv surj_pair)
  let ?a = "a\<lparr>wa_first := False, wa_comma := True\<rparr>"
  have "wa_writes D a (member_calls (k, v)) (member_text (k, v)) (a\<lparr>wa_first := False, wa_comma := \<not> is_arr v\<rparr>)"
    by (rule wa_writes_member) (use 3(3,5,6) v in auto)
  then have 1: "wa_writes D a (member_calls (k, v)) (member_text (k, v)) ?a" using 3(7) v by simp
  have "wa_in_obj ?a" "length (wa_lvls ?a) = n" using 3(5,6) by (auto simp: wa_in_obj_def wa_ok_def wa_lvl_def)
  moreover have "t # ss = map member_text (w # kvs')" using 3(2) v by simp
  moreover have "list_all (\<lambda>(k, v). \<not> is_arr v) (butlast (w # kvs'))" using 3(7) v by simp
  moreover have "wa_writes D a1 (json_calls v1) (json_text v1) (wa_after a1 v1)"
    if "v1 \<in> snd ` set (w # kvs')" "wa_val_pos a1" "wa_lvl a1 = Lvl_obj" "length (wa_lvls a1) = n" for v1 a1
    using that 3(3)[of v1 a1] v by simp
  ultimately have "wa_writes D ?a (concat (map member_calls (w # kvs'))) (commas (map member_text (w # kvs')))
      (?a\<lparr>wa_first := False, wa_comma := \<not> is_arr (snd (last (w # kvs')))\<rparr>)"
    by (intro 3(1)) (simp only: list.distinct, blast, simp_all)
  from wa_writes_append[OF 1 _ this] v show ?case by simp
qed simp

lemma wa_val_pos_st: "wa_val_pos a \<Longrightarrow> wa_st a = Wj_none \<or> wa_st a = Wj_want_val"
  by (cases "wa_st a") (auto simp: wa_val_pos_def)

lemma wa_writes_close:
  "wa_writes D a cs s a1 \<Longrightarrow> wa_run D a1 ds = Some (t, a2) \<Longrightarrow> wa_writes D a (cs @ ds) (s @ t) a2"
  using wa_run_append[of D a cs _ a1 ds] by (fastforce simp: wa_writes_def)

lemma wa_writes_lit: "wa_val_pos a \<Longrightarrow> wa_step D a x = wa_literal a s \<Longrightarrow> \<not> is_arr v \<Longrightarrow> wa_writes D a [x] s (wa_after a v)"
  by (auto simp: wa_writes_def wa_val_pos_def wa_literal_def wa_opening_compact wa_after_def)

lemma wa_writes_arr:
  assumes a: "wa_val_pos a" "wa_lvl a \<noteq> Lvl_none" "length (wa_lvls a) < wj_max_depth" and vs: "vs \<noteq> []"
    and elems: "\<And>v a1. v \<in> set vs \<Longrightarrow> wa_in_arr a1 \<Longrightarrow> length (wa_lvls a1) = Suc (length (wa_lvls a)) \<Longrightarrow>
      wa_writes D a1 (json_calls v) (json_text v) (wa_after a1 v)"
  shows "wa_writes D a (json_calls (Json_arr vs)) (json_text (Json_arr vs)) (wa_after a (Json_arr vs))"
proof -
  let ?a1 = "a\<lparr>wa_st := Wj_none, wa_first := True, wa_comma := False, wa_lvls := Lvl_arr # wa_lvls a\<rparr>"
  let ?a2 = "?a1\<lparr>wa_first := False, wa_comma := True\<rparr>"
  have start: "wa_writes D a [Jarr_start] ''['' ?a1"
    using a by (simp add: wa_writes_def wa_val_pos_def wa_opening_compact)
  have a1: "wa_in_arr ?a1" "length (wa_lvls ?a1) = Suc (length (wa_lvls a))"
    using a by (auto simp: wa_in_arr_def wa_val_pos_def wa_ok_def wa_lvl_def)
  have "wa_writes D ?a1 (concat (map json_calls vs)) (commas (map json_text vs)) ?a2"
    using wa_writes_elems[OF elems vs a1] by blast
  moreover have "wa_run D ?a2 [Jarr_end] = Some ('']'', wa_after a (Json_arr vs))"
    using a wa_val_pos_st[OF a(1)] by (cases a) (auto simp: wa_lvl_def wa_closing_compact wa_val_pos_def wa_after_def is_arr_def wa_ok_def
        Let_def split: list.splits wj_lvl_ty.splits wj_st.splits)
  ultimately show ?thesis
    using wa_writes_append_nocomma[OF start _ wa_writes_close] by simp
qed

lemma wa_writes_obj:
  assumes a: "wa_val_pos a" "length (wa_lvls a) < wj_max_depth"
    and last: "list_all (\<lambda>(k, v). \<not> is_arr v) (butlast kvs)"
    and members: "\<And>v a1. v \<in> snd ` set kvs \<Longrightarrow> wa_val_pos a1 \<Longrightarrow> wa_lvl a1 = Lvl_obj \<Longrightarrow>
      length (wa_lvls a1) = Suc (length (wa_lvls a)) \<Longrightarrow>
      wa_writes D a1 (json_calls v) (json_text v) (wa_after a1 v)"
  shows "wa_writes D a (json_calls (Json_obj kvs)) (json_text (Json_obj kvs)) (wa_after a (Json_obj kvs))"
proof -
  let ?a1 = "a\<lparr>wa_st := Wj_want_key, wa_first := True, wa_comma := False, wa_lvls := Lvl_obj # wa_lvls a\<rparr>"
  have start: "wa_writes D a [Jobj_start] ''{'' ?a1"
    using a by (simp add: wa_writes_def wa_val_pos_def wa_opening_compact)
  have a1: "wa_in_obj ?a1" "length (wa_lvls ?a1) = Suc (length (wa_lvls a))"
    using a by (auto simp: wa_in_obj_def wa_val_pos_def wa_ok_def wa_lvl_def)
  have close: "wa_run D (?a1\<lparr>wa_first := f, wa_comma := b\<rparr>) [Jobj_end] = Some (''}'', wa_after a (Json_obj kvs))" for f b
    using a wa_val_pos_st[OF a(1)] by (cases a) (auto simp: wa_lvl_def wa_closing_compact wa_val_pos_def wa_after_def is_arr_def wa_ok_def
        Let_def split: list.splits wj_lvl_ty.splits wj_st.splits)
  have "\<exists>f b. wa_writes D ?a1 (concat (map member_calls kvs)) (commas (map member_text kvs))
      (?a1\<lparr>wa_first := f, wa_comma := b\<rparr>)"
  proof (cases "kvs = []")
    case True
    have "?a1 = ?a1\<lparr>wa_first := True, wa_comma := False\<rparr>" by (cases a) simp
    with True show ?thesis by (intro exI[of _ True] exI[of _ False]) (simp add: wa_writes_def)
  next
    case False
    from wa_writes_members[OF members this a1 last] show ?thesis by blast
  qed
  then obtain f b where "wa_writes D ?a1 (concat (map member_calls kvs)) (commas (map member_text kvs))
      (?a1\<lparr>wa_first := f, wa_comma := b\<rparr>)" by blast
  from wa_writes_append_nocomma[OF start _ wa_writes_close[OF this close]] show ?thesis
    by (simp add: json_obj_simps del: json_text.simps json_calls.simps)
qed

lemma wa_writes_json:
  "json_ok m v \<Longrightarrow> wa_val_pos a \<Longrightarrow> length (wa_lvls a) + json_depth v \<le> wj_max_depth \<Longrightarrow>
   wa_lvl a \<noteq> Lvl_none \<or> \<not> is_arr v \<Longrightarrow> wa_writes D a (json_calls v) (json_text v) (wa_after a v)"
proof (induction v arbitrary: a)
  case (Json_str v)
  then show ?case
    by (auto simp: wa_writes_def wa_val_pos_def wa_opening_compact wa_after_def is_arr_def split: wj_st.splits)
next
  case (Json_arr vs)
  show ?case
  proof (rule wa_writes_arr)
    fix v a1
    assume v: "v \<in> set vs" and a1: "wa_in_arr a1" "length (wa_lvls a1) = Suc (length (wa_lvls a))"
    show "wa_writes D a1 (json_calls v) (json_text v) (wa_after a1 v)"
    proof (rule Json_arr.IH[OF v])
      show "json_ok m v" using Json_arr.prems(1) v by (simp add: list_all_iff)
      show "wa_val_pos a1" "wa_lvl a1 \<noteq> Lvl_none \<or> \<not> is_arr v"
        using a1(1) by (simp_all add: wa_in_arr_def wa_val_pos_def)
      have "fold max (map json_depth vs) 0 \<le> wj_max_depth - Suc (length (wa_lvls a))"
        using Json_arr.prems(3) by simp
      then have "json_depth v \<le> wj_max_depth - Suc (length (wa_lvls a))" using v by (simp add: fold_max_le)
      then show "length (wa_lvls a1) + json_depth v \<le> wj_max_depth" using a1(2) Json_arr.prems(3) by simp
    qed
  qed (use Json_arr.prems in \<open>auto simp: is_arr_def\<close>)
next
  case (Json_obj kvs)
  show ?case
  proof (rule wa_writes_obj)
    fix v a1
    assume v': "v \<in> snd ` set kvs" and a1: "wa_val_pos a1" "wa_lvl a1 = Lvl_obj" "length (wa_lvls a1) = Suc (length (wa_lvls a))"
    from v' obtain k where v: "(k, v) \<in> set kvs" by auto
    show "wa_writes D a1 (json_calls v) (json_text v) (wa_after a1 v)"
    proof (rule Json_obj.IH[OF v])
      show "v \<in> Basic_BNFs.snds (k, v)" by simp
      show "json_ok m v" using Json_obj.prems(1) v by (auto simp: list_all_iff)
      show "wa_val_pos a1" "wa_lvl a1 \<noteq> Lvl_none \<or> \<not> is_arr v" using a1 by simp_all
      have "fold max (map snd (map (map_prod id json_depth) kvs)) 0 \<le> wj_max_depth - Suc (length (wa_lvls a))"
        using Json_obj.prems(3) by simp
      then have "json_depth v \<le> wj_max_depth - Suc (length (wa_lvls a))" using v by (force simp: fold_max_le)
      then show "length (wa_lvls a1) + json_depth v \<le> wj_max_depth" using a1(3) Json_obj.prems(3) by simp
    qed
  qed (use Json_obj.prems in auto)
qed (auto intro!: wa_writes_lit simp: is_arr_def)

section \<open>Reading\<close>

text \<open>
  \<open>rj_reads P D c s ts c'\<close>: whatever follows \<open>s\<close> (terminated, and starting with a character
  in \<open>P\<close>), if reading it from \<open>c'\<close> ends well, then reading \<open>s\<close> and it from \<open>c\<close> ends
  well, and reports \<open>ts\<close> first. The contexts are those of a reader that does not lag; that
  one that lags behind a number reports the same is \<open>rj_lag\<close>.
\<close>

definition rj_rest :: "string \<Rightarrow> bool" where
  "rj_rest s \<longleftrightarrow> NUL \<in> set s \<and> CHR 0xFF \<notin> set s"

definition rj_reads :: "(char \<Rightarrow> bool) \<Rightarrow> 'd double_ops \<Rightarrow> 'd rjson_ctx \<Rightarrow> string \<Rightarrow> 'd rj_tok list \<Rightarrow> 'd rjson_ctx \<Rightarrow> bool" where
  "rj_reads P D c s ts c' \<longleftrightarrow> (\<forall>rest us. rj_rest rest \<longrightarrow> P (hd rest) \<longrightarrow> rj_run D c' rest = Inr (End_fin, us) \<longrightarrow>
     rj_run D c (s @ rest) = Inr (End_fin, ts @ us))"

lemma rj_reads_append:
  assumes "rj_reads P D c s ts c1" "rj_reads Q D c1 t us c2" "CHR 0xFF \<notin> set t"
    and "\<And>ch. Q ch \<Longrightarrow> P (hd (t @ [ch]))"
  shows "rj_reads Q D c (s @ t) (ts @ us) c2"
  unfolding rj_reads_def
proof (intro allI impI)
  fix rest vs
  assume r: "rj_rest rest" "Q (hd rest)" "rj_run D c2 rest = Inr (End_fin, vs)"
  then have "rj_rest (t @ rest)" "rj_run D c1 (t @ rest) = Inr (End_fin, us @ vs)"
    using assms(2,3) by (auto simp: rj_reads_def rj_rest_def)
  moreover have "P (hd (t @ rest))" using assms(4)[OF r(2)] r(1) by (cases t) (auto simp: rj_rest_def)
  ultimately show "rj_run D c ((s @ t) @ rest) = Inr (End_fin, (ts @ us) @ vs)"
    using assms(1) by (simp add: rj_reads_def)
qed

lemma rj_reads_Nil: "rj_reads P D c [] [] c"
  by (simp add: rj_reads_def)

lemma rj_token_pos [simp]: "rj_token (c\<lparr>rj_pos := p\<rparr>) = rj_token c"
  by (simp add: rj_token_def rjson_cur_ty_def rjson_cur_str_def rjson_cur_num_def rjson_cur_is_true_def rj_sd_num_m_def
      cong: rjson_ty.case_cong)

lemma rj_token_buffered [simp]: "rj_token (c\<lparr>rj_buffered := p\<rparr>) = rj_token c"
  by (simp add: rj_token_def rjson_cur_ty_def rjson_cur_str_def rjson_cur_num_def rjson_cur_is_true_def rj_sd_num_m_def
      cong: rjson_ty.case_cong)

lemma rjson_next_plain:
  assumes "ch \<noteq> NUL" "rj_buffered c = -1" "rj_dispatch D c ch = Inr (r, c2)" "rj_buffered c2 = -1" "r \<noteq> rjson_next_syntax"
  shows "rjson_next D c ch = Inr (r, c2\<lparr>rj_pos := rj_pos c2 + 1\<rparr>)"
  using assms by (subst rjson_next.simps) (simp add: Let_def)

lemma rj_reads_step:
  assumes "ch \<noteq> NUL" "rj_buffered c = -1" "rj_dispatch D c ch = Inr (rjson_next_ok, c2)" "rj_buffered c2 = -1"
    "rj_token c2 = Inr t" "c' = c2\<lparr>rj_pos := rj_pos c2 + 1\<rparr>"
  shows "rj_reads P D c [ch] t c'"
  using rjson_next_plain[OF assms(1-4)] assms(5,6) by (simp add: rj_reads_def)

subsection \<open>The reader that lags\<close>

text \<open>Between values: what each character does.\<close>

lemma rj_dispatch_between:
  assumes "rj_st c = Rj_idle" "\<not> rj_is_val_expected c" "rj_lvls c = l # ls" "l \<noteq> Rl_none"
  shows "rj_dispatch D c b =
    (let c = c\<lparr>rj_cur := rjson_incomplete\<rparr> in
     if rj_is_whitespace b then Inr (rjson_next_ok, c)
     else if b = CHR ''}'' \<and> l = Rl_obj then
       Inr (if rj_lvl (c\<lparr>rj_lvls := ls\<rparr>) = Rl_none then rjson_next_fin else rjson_next_ok,
         c\<lparr>rj_lvls := ls, rj_cur := Rjson_obj_end\<rparr>)
     else if b = CHR '']'' \<and> l = Rl_arr then Inr (rjson_next_ok, c\<lparr>rj_lvls := ls, rj_cur := Rjson_arr_end\<rparr>)
     else if b = CHR '','' then
       Inr (rjson_next_ok, c\<lparr>rj_is_val_expected := True, rj_st := (if l = Rl_obj then Rj_want_key else Rj_idle)\<rparr>)
     else Inr (rjson_next_syntax, c))"
  using assms
  by (cases c; cases l) (auto simp: rj_dispatch_def rj_next_idle_def rj_idle_punct_def rj_assert_def rj_pop_lvl_def
      rj_lvl_def Let_def)

definition rj_between :: "'d rjson_ctx \<Rightarrow> bool" where
  "rj_between c \<longleftrightarrow> rj_core c \<and> rj_st c = Rj_idle \<and> \<not> rj_is_val_expected c \<and>
     rj_lvls c \<noteq> [] \<and> last (rj_lvls c) = Rl_obj"

lemma rj_lag_step:
  assumes "rj_between c" "rj_buffered c = -1"
  shows "\<exists>r c2. (\<forall>x. rj_dispatch D (c\<lparr>rj_buffered := x\<rparr>) b = Inr (r, c2\<lparr>rj_buffered := x\<rparr>)) \<and>
    rj_buffered c2 = -1 \<and> (r = rjson_next_ok \<longrightarrow> rj_cur c2 = rjson_incomplete \<or> rj_between c2)"
proof -
  obtain l ls where ls: "rj_lvls c = l # ls" "l \<noteq> Rl_none"
    using assms by (cases "rj_lvls c") (auto simp: rj_between_def rj_core_defs)
  note d = rj_dispatch_between[of "c\<lparr>rj_buffered := x\<rparr>" for x, simplified, OF _ _ ls]
  have b: "rj_st c = Rj_idle" "\<not> rj_is_val_expected c" using assms by (auto simp: rj_between_def)
  let ?c = "c\<lparr>rj_cur := rjson_incomplete\<rparr>"
  consider "rj_is_whitespace b" | "\<not> rj_is_whitespace b" "b = CHR ''}''" "l = Rl_obj"
    | "\<not> rj_is_whitespace b" "b = CHR '']''" "l = Rl_arr" | "\<not> rj_is_whitespace b" "b = CHR '',''"
    | "\<not> rj_is_whitespace b" "b \<noteq> CHR '',''" "\<not> (b = CHR ''}'' \<and> l = Rl_obj)" "\<not> (b = CHR '']'' \<and> l = Rl_arr)"
    by blast
  then show ?thesis
  proof cases
    case 1
    with b d assms(2) show ?thesis by (intro exI[of _ rjson_next_ok] exI[of _ ?c]) (simp add: Let_def)
  next
    case 2
    with b d assms ls show ?thesis
      by (intro exI[of _ "if ls = [] then rjson_next_fin else rjson_next_ok"] exI[of _ "?c\<lparr>rj_lvls := ls, rj_cur := Rjson_obj_end\<rparr>"])
        (auto simp: Let_def rj_between_def rj_core_defs rj_lvl_def split: list.split)
  next
    case 3
    with b d assms ls show ?thesis
      by (intro exI[of _ rjson_next_ok] exI[of _ "?c\<lparr>rj_lvls := ls, rj_cur := Rjson_arr_end\<rparr>"])
        (auto simp: Let_def rj_between_def rj_core_defs rj_lvl_def split: list.split if_splits)
  next
    case 4
    with b d assms(2) show ?thesis
      by (intro exI[of _ rjson_next_ok]
          exI[of _ "?c\<lparr>rj_is_val_expected := True, rj_st := (if l = Rl_obj then Rj_want_key else Rj_idle)\<rparr>"])
        (simp add: Let_def)
  next
    case 5
    with b d assms(2) show ?thesis by (intro exI[of _ rjson_next_syntax] exI[of _ ?c]) (auto simp: Let_def)
  qed
qed

lemma rj_between_pos [simp]: "rj_between (c\<lparr>rj_pos := p\<rparr>) = rj_between c"
  by (simp add: rj_between_def)

lemma schar_neq: "ch \<noteq> CHR 0xFF \<Longrightarrow> schar ch \<noteq> -1"
  using schar_inj[of ch "CHR 0xFF"] by (simp add: schar_def)

lemma schar_NUL: "schar ch = schar NUL \<longleftrightarrow> ch = NUL"
  by (rule schar_inj)

lemma rjson_next_NUL:
  "rj_buffered c = -1 \<Longrightarrow> rjson_next D c NUL = Inr (if rj_lvl c = Rl_none then rjson_next_fin else rjson_next_syntax, c)"
  by (subst rjson_next.simps) simp

lemma rj_lag:
  assumes "rj_between c" "rj_buffered c = -1" "b \<noteq> NUL" "b \<noteq> CHR 0xFF" "rj_rest s"
    and "rj_run D c (b # s) = Inr (End_fin, ts)"
  shows "rj_run D (c\<lparr>rj_buffered := schar b\<rparr>) s = Inr (End_fin, ts)"
  using assms
proof (induction s arbitrary: c b ts)
  case Nil
  then show ?case by (simp add: rj_rest_def)
next
  case (Cons ch s)
  obtain r c2 where d: "\<And>x. rj_dispatch D (c\<lparr>rj_buffered := x\<rparr>) b = Inr (r, c2\<lparr>rj_buffered := x\<rparr>)"
    and c2: "rj_buffered c2 = -1" "r = rjson_next_ok \<longrightarrow> rj_cur c2 = rjson_incomplete \<or> rj_between c2"
    using rj_lag_step[OF Cons.prems(1,2), of D b] by blast
  have "c\<lparr>rj_buffered := rj_buffered c\<rparr> = c" "c2\<lparr>rj_buffered := rj_buffered c2\<rparr> = c2" by simp_all
  then have buf: "c\<lparr>rj_buffered := -1\<rparr> = c" "c2\<lparr>rj_buffered := -1\<rparr> = c2" using Cons.prems(2) c2(1) by simp_all
  have d0: "rj_dispatch D c b = Inr (r, c2)" using d[of "-1"] buf by simp
  let ?c3 = "c2\<lparr>rj_pos := rj_pos c2 + 1\<rparr>"
  have chFF: "ch \<noteq> CHR 0xFF" using Cons.prems(5) unfolding rj_rest_def by (metis list.set_intros(1))
  then have ch: "schar ch \<noteq> -1" "schar b \<noteq> -1" using Cons.prems(4) by (simp_all only: schar_neq not_False_eq_True)
  have r: "r \<noteq> rjson_next_syntax"
  proof
    assume "r = rjson_next_syntax"
    then have "rj_run D c (b # ch # s) = Inr (End_syntax, [])"
      using d0 Cons.prems(2,3) c2(1) by (subst rj_run.simps, subst rjson_next.simps) simp
    with Cons.prems(6) show False by simp
  qed
  note plain = rjson_next_plain[OF Cons.prems(3,2) d0 c2(1) r]
  have buf3: "c2\<lparr>rj_pos := p, rj_buffered := -1\<rparr> = c2\<lparr>rj_pos := p\<rparr>" for p using c2(1) by (cases c2) simp
  have lag: "rjson_next D (c\<lparr>rj_buffered := schar b\<rparr>) ch =
    (if r = rjson_next_ok \<and> rj_cur c2 = rjson_incomplete then rjson_next D ?c3 ch
     else if r = rjson_next_ok \<and> ch = NUL \<and> rj_lvl c2 \<noteq> Rl_none then Inr (rjson_next_syntax, ?c3\<lparr>rj_buffered := schar ch\<rparr>)
     else Inr (r, ?c3\<lparr>rj_buffered := schar ch\<rparr>))"
    using ch Cons.prems(3) r d[of "schar ch"] buf3
    by (subst rjson_next.simps) (auto simp: Let_def schar_NUL)
  show ?case
  proof (cases "r = rjson_next_ok")
    case False
    with r have "r = rjson_next_fin" by (cases r) auto
    with Cons.prems(6) plain lag show ?thesis by (auto simp: and_then_eq_Inr)
  next
    case ok: True
    show ?thesis
    proof (cases "rj_cur c2 = rjson_incomplete")
      case True
      then have "rj_token c2 = Inr []" by (simp add: rj_token_def rjson_cur_ty_def)
      with Cons.prems(6) plain lag ok True show ?thesis by (auto simp: and_then_eq_Inr)
    next
      case False
      then have b2: "rj_between ?c3" using c2(2) ok by simp
      obtain t us where t: "rj_token c2 = Inr t" and run: "rj_run D ?c3 (ch # s) = Inr (End_fin, us)" and ts: "ts = t @ us"
        using Cons.prems(6) plain ok by (auto simp: and_then_eq_Inr simp del: rj_run.simps(2) simp: rj_run.simps(2)[of D c])
      have "rj_lvl c2 \<noteq> Rl_none" using b2 by (cases "rj_lvls c2") (auto simp: rj_between_def rj_core_defs rj_lvl_def)
      then have "ch \<noteq> NUL" using run c2(1) by (auto simp: rjson_next_NUL)
      moreover have "rj_rest s" using Cons.prems(5) \<open>ch \<noteq> NUL\<close> by (auto simp: rj_rest_def)
      ultimately have "rj_run D (?c3\<lparr>rj_buffered := schar ch\<rparr>) s = Inr (End_fin, us)"
        using Cons.IH[OF b2 _ _ chFF _ run] c2(1) by simp
      with lag ok False \<open>ch \<noteq> NUL\<close> t ts show ?thesis by simp
    qed
  qed
qed


subsection \<open>Strings\<close>

definition rj_at :: "rj_st \<Rightarrow> bool \<Rightarrow> rj_lvl_ty list \<Rightarrow> nat \<Rightarrow> 'd rjson_ctx \<Rightarrow> bool" where
  "rj_at st e ls m c \<longleftrightarrow> rj_core c \<and> rj_st c = st \<and> rj_is_val_expected c = e \<and> rj_lvls c = ls \<and>
     rj_str_mlen c = m \<and> rj_buffered c = -1"

definition rj_in_str :: "bool \<Rightarrow> bool \<Rightarrow> rj_lvl_ty list \<Rightarrow> nat \<Rightarrow> string \<Rightarrow> 'd rjson_ctx \<Rightarrow> bool" where
  "rj_in_str e k ls m v c \<longleftrightarrow> rj_at Rj_str e ls m c \<and>
     rj_sd c = Js_str \<lparr>js_len = length v, js_is_escape = False, js_is_key = k\<rparr> \<and>
     take (length v) (rj_str c) = v \<and> length v \<le> m"

lemma rj_esc_inverse:
  "fst (wj_escape_ch ch) \<Longrightarrow> rj_str_escape (snd (wj_escape_ch ch)) = Some ch \<and> \<not> is_ctrl (snd (wj_escape_ch ch)) \<and>
     snd (wj_escape_ch ch) \<noteq> NUL \<and> snd (wj_escape_ch ch) \<noteq> CHR 0xFF"
  by (auto simp: wj_escape_ch_def rj_str_escape_def is_ctrl_def schar_def split: if_splits)

lemma rj_esc_plain:
  "\<not> fst (wj_escape_ch ch) \<Longrightarrow> snd (wj_escape_ch ch) = ch \<and> ch \<noteq> BSL \<and> ch \<noteq> DQ"
  by (auto simp: wj_escape_ch_def split: if_splits)

lemma not_ctrl_char: "\<not> is_ctrl ch \<Longrightarrow> ch \<noteq> NUL \<and> ch \<noteq> CHR 0xFF"
  by (auto simp: is_ctrl_def schar_def)

lemmas rj_str_run = rj_dispatch_def rj_next_str_def rj_assert_def rj_sd_str_m_def rj_add_str_ch_def

lemma rj_str_char:
  assumes c: "rj_in_str e k ls m v c" "length v < m" and ch: "fst (wj_escape_ch ch) \<or> \<not> is_ctrl ch"
  shows "\<exists>c'. rj_in_str e k ls m (v @ [ch]) c' \<and> rj_reads P D c (wj_esc ch) [] c'"
proof -
  let ?sd = "\<lparr>js_len = Suc (length v), js_is_escape = False, js_is_key = k\<rparr>"
  let ?c' = "c\<lparr>rj_cur := rjson_incomplete, rj_str := (rj_str c)[length v := ch], rj_sd := Js_str ?sd\<rparr>"
  have st: "rj_st c = Rj_str" "rj_sd c = Js_str \<lparr>js_len = length v, js_is_escape = False, js_is_key = k\<rparr>"
    "length (rj_str c) = m" "rj_str_mlen c = m" "k \<longrightarrow> rj_lvl c = Rl_obj" "rj_buffered c = -1"
    using c by (auto simp: rj_in_str_def rj_at_def rj_core_defs)
  have in': "rj_in_str e k ls m (v @ [ch]) (?c'\<lparr>rj_pos := p\<rparr>)" for p
    using c st by (auto simp: rj_in_str_def rj_at_def rj_core_defs take_Suc_update)
  show ?thesis
  proof (cases "fst (wj_escape_ch ch)")
    case True
    let ?e = "snd (wj_escape_ch ch)"
    let ?c1 = "c\<lparr>rj_cur := rjson_incomplete, rj_sd := Js_str \<lparr>js_len = length v, js_is_escape = True, js_is_key = k\<rparr>\<rparr>"
    note e = rj_esc_inverse[OF True]
    have d: "rj_dispatch D c BSL = Inr (rjson_next_ok, ?c1)"
      using st by (simp add: rj_str_run is_ctrl_def schar_def)
    have 1: "rj_reads (\<lambda>_. True) D c [BSL] [] (?c1\<lparr>rj_pos := rj_pos c + 1\<rparr>)"
      by (rule rj_reads_step[OF _ _ d]) (use st in \<open>simp_all add: rj_token_def rjson_cur_ty_def\<close>)
    have d: "rj_dispatch D (?c1\<lparr>rj_pos := rj_pos c + 1\<rparr>) ?e = Inr (rjson_next_ok, ?c'\<lparr>rj_pos := rj_pos c + 1\<rparr>)"
      using st e c(2) by (simp add: rj_str_run)
    have 2: "rj_reads P D (?c1\<lparr>rj_pos := rj_pos c + 1\<rparr>) [?e] [] (?c'\<lparr>rj_pos := rj_pos c + 2\<rparr>)"
      by (rule rj_reads_step[OF _ _ d]) (use st e in \<open>simp_all add: rj_token_def rjson_cur_ty_def\<close>)
    have "wj_esc ch = [BSL] @ [?e]" using True by (simp add: wj_esc_def split_beta)
    moreover have "CHR 0xFF \<notin> set [?e]" using e by auto
    ultimately show ?thesis using rj_reads_append[OF 1 2] in' by (intro exI[of _ "?c'\<lparr>rj_pos := rj_pos c + 2\<rparr>"]) simp
  next
    case False
    note e = rj_esc_plain[OF False]
    have n: "\<not> is_ctrl ch" using ch False by simp
    have d: "rj_dispatch D c ch = Inr (rjson_next_ok, ?c')"
      using st e n c(2) by (simp add: rj_str_run)
    have 2: "rj_reads P D c [ch] [] (?c'\<lparr>rj_pos := rj_pos c + 1\<rparr>)"
      by (rule rj_reads_step[OF _ _ d]) (use st not_ctrl_char[OF n] in \<open>simp_all add: rj_token_def rjson_cur_ty_def\<close>)
    have "wj_esc ch = [ch]" using False e by (simp add: wj_esc_def split_beta)
    with 2 in' show ?thesis by auto
  qed
qed

lemma wj_esc_plain: "fst (wj_escape_ch ch) \<or> \<not> is_ctrl ch \<Longrightarrow> CHR 0xFF \<notin> set (wj_esc ch)"
  using rj_esc_inverse[of ch] rj_esc_plain[of ch] not_ctrl_char[of ch] by (cases "wj_escape_ch ch") (auto simp: wj_esc_def)

lemma wj_quoted_plain: "json_str_ok m v \<Longrightarrow> CHR 0xFF \<notin> set (wj_quoted v)"
  using wj_esc_plain by (fastforce simp: wj_quoted_def json_str_ok_def list_all_iff)

lemma rj_str_chars:
  assumes "rj_in_str e k ls m v c" "length (v @ w) < m" "list_all (\<lambda>ch. fst (wj_escape_ch ch) \<or> \<not> is_ctrl ch) w"
  shows "\<exists>c'. rj_in_str e k ls m (v @ w) c' \<and> rj_reads P D c (concat (map wj_esc w)) [] c'"
  using assms
proof (induction w arbitrary: v c)
  case Nil
  then show ?case using rj_reads_Nil by auto
next
  case (Cons ch w)
  obtain c1 where 1: "rj_in_str e k ls m (v @ [ch]) c1" "rj_reads (\<lambda>_. True) D c (wj_esc ch) [] c1"
    using rj_str_char[OF Cons.prems(1), of ch "\<lambda>_. True" D] Cons.prems(2,3) by auto
  obtain c2 where 2: "rj_in_str e k ls m (v @ ch # w) c2" "rj_reads P D c1 (concat (map wj_esc w)) [] c2"
    using Cons.IH[OF 1(1)] Cons.prems(2,3) by auto
  have "CHR 0xFF \<notin> set (concat (map wj_esc w))" using Cons.prems(3) wj_esc_plain by (auto simp: list_all_iff)
  from rj_reads_append[OF 1(2) 2(2) this] 2(1) show ?case by auto
qed

lemma rj_str_close:
  assumes c: "rj_in_str e k ls m v c" "length v < m" "NUL \<notin> set v"
  shows "\<exists>c'. rj_at (if k then Rj_want_colon else Rj_idle) False ls m c' \<and> rj_reads P D c [DQ] [Jt_str v] c'"
proof -
  let ?sd = "\<lparr>js_len = Suc (length v), js_is_escape = False, js_is_key = k\<rparr>"
  let ?c' = "c\<lparr>rj_cur := Rjson_str, rj_is_val_expected := False, rj_st := (if k then Rj_want_colon else Rj_idle),
    rj_str := (rj_str c)[length v := NUL], rj_sd := Js_str ?sd\<rparr>"
  have st: "rj_st c = Rj_str" "rj_sd c = Js_str \<lparr>js_len = length v, js_is_escape = False, js_is_key = k\<rparr>"
    "length (rj_str c) = m" "rj_str_mlen c = m" "k \<longrightarrow> rj_lvl c = Rl_obj" "rj_buffered c = -1" "take (length v) (rj_str c) = v"
    using c by (auto simp: rj_in_str_def rj_at_def rj_core_defs)
  have at: "rj_at (if k then Rj_want_colon else Rj_idle) False ls m (?c'\<lparr>rj_pos := p\<rparr>)" for p
    using c st by (auto simp: rj_in_str_def rj_at_def rj_core_defs)
  have d: "rj_dispatch D c DQ = Inr (rjson_next_ok, ?c')"
    using st c(2) by (simp add: rj_str_run is_ctrl_def schar_def)
  moreover have tok: "rj_token ?c' = Inr [Jt_str v]"
    using c_str_take[of "length v" "(rj_str c)[length v := NUL]"] st c(2,3)
    by (simp add: rj_token_def rjson_cur_ty_def rjson_cur_str_def)
  ultimately have "rj_reads P D c [DQ] [Jt_str v] (?c'\<lparr>rj_pos := rj_pos c + 1\<rparr>)"
    by (intro rj_reads_step[OF _ _ d _ tok]) (use st in simp_all)
  with at show ?thesis by blast
qed

text \<open>A whole string from its opening quote, as a value or as a key.\<close>

lemma rj_quoted_rest:
  assumes "rj_in_str e k ls m [] c" "json_str_ok m v"
  shows "\<exists>c'. rj_at (if k then Rj_want_colon else Rj_idle) False ls m c' \<and>
    rj_reads P D c (concat (map wj_esc v) @ [DQ]) [Jt_str v] c'"
proof -
  have v: "length v < m" "list_all (\<lambda>ch. fst (wj_escape_ch ch) \<or> \<not> is_ctrl ch) v"
    using assms(2) by (auto simp: json_str_ok_def)
  have "\<not> (fst (wj_escape_ch NUL) \<or> \<not> is_ctrl NUL)" by (simp add: wj_escape_ch_def is_ctrl_def schar_def)
  then have nul: "NUL \<notin> set v" using v(2) by (auto simp: list_all_iff)
  obtain c1 where 1: "rj_in_str e k ls m v c1" "rj_reads (\<lambda>_. True) D c (concat (map wj_esc v)) [] c1"
    using rj_str_chars[OF assms(1), of v "\<lambda>_. True" D] v by auto
  obtain c2 where 2: "rj_at (if k then Rj_want_colon else Rj_idle) False ls m c2" "rj_reads P D c1 [DQ] [Jt_str v] c2"
    using rj_str_close[OF 1(1) v(1) nul, of P D] by blast
  from rj_reads_append[OF 1(2) 2(2)] 2(1) show ?thesis by auto
qed

lemma rj_lvl_Cons: "rj_lvls c = l # ls \<Longrightarrow> rj_lvl c = l"
  by (simp add: rj_lvl_def)

lemma rj_reads_str:
  assumes c: "rj_at Rj_idle True ls m c" "ls \<noteq> []" and v: "json_str_ok m v"
  shows "\<exists>c'. rj_at Rj_idle False ls m c' \<and> rj_reads P D c (wj_quoted v) [Jt_str v] c'"
proof -
  obtain l ls' where ls: "ls = l # ls'" using c(2) by (cases ls) auto
  let ?c = "c\<lparr>rj_cur := rjson_incomplete, rj_is_val_expected := False, rj_st := Rj_str,
    rj_sd := Js_str \<lparr>js_len = 0, js_is_escape = False, js_is_key = False\<rparr>\<rparr>"
  have l: "rj_lvl c = l" "l \<noteq> Rl_none" "rj_st c = Rj_idle" "rj_is_val_expected c" "rj_buffered c = -1"
    using c ls by (auto simp: rj_at_def rj_core_defs rj_lvl_def)
  then have d: "rj_dispatch D c DQ = Inr (rjson_next_ok, ?c)"
    by (simp add: rj_dispatch_def rj_next_idle_def rj_assert_def rj_idle_punct_def char_defs strchr_in_def rj_set_st_def
        schar_def Let_def)
  have 1: "rj_reads (\<lambda>_. True) D c [DQ] [] (?c\<lparr>rj_pos := rj_pos c + 1\<rparr>)"
    by (rule rj_reads_step[OF _ _ d]) (use l in \<open>simp_all add: rj_token_def rjson_cur_ty_def\<close>)
  have "rj_in_str False False ls m [] (?c\<lparr>rj_pos := rj_pos c + 1\<rparr>)"
    using c by (auto simp: rj_in_str_def rj_at_def rj_core_defs)
  from rj_quoted_rest[OF this v, of P D] obtain c2 where 2: "rj_at Rj_idle False ls m c2"
    "rj_reads P D (?c\<lparr>rj_pos := rj_pos c + 1\<rparr>) (concat (map wj_esc v) @ [DQ]) [Jt_str v] c2" by auto
  have "CHR 0xFF \<notin> set (concat (map wj_esc v) @ [DQ])" using wj_quoted_plain[OF v] by (simp add: wj_quoted_def)
  from rj_reads_append[OF 1 2(2) this] 2(1) show ?thesis by (auto simp: wj_quoted_def)
qed

lemma rj_reads_key:
  assumes c: "rj_at Rj_want_key True ls m c" and v: "json_str_ok m v"
  shows "\<exists>c'. rj_at Rj_want_colon False ls m c' \<and> rj_reads P D c (wj_quoted v) [Jt_str v] c'"
proof -
  let ?c = "c\<lparr>rj_cur := rjson_incomplete, rj_st := Rj_str,
    rj_sd := Js_str \<lparr>js_len = 0, js_is_escape = False, js_is_key = True\<rparr>\<rparr>"
  have l: "rj_lvl c = Rl_obj" "rj_st c = Rj_want_key" "rj_is_val_expected c" "rj_buffered c = -1"
    using c by (auto simp: rj_at_def rj_core_defs rj_lvl_def)
  then have d: "rj_dispatch D c DQ = Inr (rjson_next_ok, ?c)"
    by (simp add: rj_dispatch_def rj_next_want_key_def rj_assert_def char_defs rj_sd_str_m_def rj_set_st_def Let_def)
  have 1: "rj_reads (\<lambda>_. True) D c [DQ] [] (?c\<lparr>rj_pos := rj_pos c + 1\<rparr>)"
    by (rule rj_reads_step[OF _ _ d]) (use l in \<open>simp_all add: rj_token_def rjson_cur_ty_def\<close>)
  have "rj_in_str True True ls m [] (?c\<lparr>rj_pos := rj_pos c + 1\<rparr>)"
    using c by (auto simp: rj_in_str_def rj_at_def rj_core_defs)
  from rj_quoted_rest[OF this v, of P D] obtain c2 where 2: "rj_at Rj_want_colon False ls m c2"
    "rj_reads P D (?c\<lparr>rj_pos := rj_pos c + 1\<rparr>) (concat (map wj_esc v) @ [DQ]) [Jt_str v] c2" by auto
  have "CHR 0xFF \<notin> set (concat (map wj_esc v) @ [DQ])" using wj_quoted_plain[OF v] by (simp add: wj_quoted_def)
  from rj_reads_append[OF 1 2(2) this] 2(1) show ?thesis by (auto simp: wj_quoted_def)
qed


subsection \<open>Words and numbers\<close>

lemma rj_reads_enter:
  assumes "rj_dispatch D c ch = rj_dispatch D c0 ch" "rj_buffered c = -1" "rj_buffered c0 = -1" "ch \<noteq> NUL"
    and "rj_reads P D c0 (ch # s) ts c'"
  shows "rj_reads P D c (ch # s) ts c'"
proof -
  have "rjson_next D c ch = rjson_next D c0 ch"
    using assms(1-4) by (simp add: rjson_next.simps[of D c ch] rjson_next.simps[of D c0 ch])
  with assms(5) show ?thesis by (simp add: rj_reads_def)
qed

lemma rj_core_step: "rj_core c \<Longrightarrow> rj_buffered c = -1 \<Longrightarrow> rj_dispatch D c ch = Inr (r, c') \<Longrightarrow> rj_core c'"
  using rj_dispatch_keeps[of c ch D] by (simp add: rj_keeps_def)

lemma rj_word_rest:
  assumes disp: "\<And>c ch. rj_st c = st \<Longrightarrow> rj_dispatch D c ch = rj_next_word D c ch w ty"
    and plain: "\<And>ch. ch \<in> set w \<Longrightarrow> ch \<noteq> NUL \<and> ch \<noteq> CHR 0xFF"
    and tok: "\<And>c q. rj_cur c = ty \<Longrightarrow> rj_sd c = Js_special q b \<Longrightarrow> rj_token c = Inr [t]"
    and c: "rj_at st True ls m c" "rj_cur c = rjson_incomplete" "rj_sd c = Js_special p b" "p < length w"
  shows "\<exists>c'. rj_at Rj_idle False ls m c' \<and> rj_reads P D c (drop p w) [t] c'"
  using c
proof (induction "length w - p" arbitrary: p c)
  case 0
  then show ?case by simp
next
  case (Suc n)
  have st: "rj_st c = st" "rj_is_val_expected c" "rj_buffered c = -1" "rj_core c" "rj_lvls c = ls" "rj_str_mlen c = m"
    using Suc.prems(1) by (auto simp: rj_at_def)
  have ch: "w ! p \<noteq> NUL" "w ! p \<noteq> CHR 0xFF" using plain[of "w ! p"] Suc.prems(4) by auto
  have dr: "drop p w = w ! p # drop (Suc p) w" using Suc.prems(4) by (simp add: Cons_nth_drop_Suc)
  show ?case
  proof (cases "p = length w - 1")
    case True
    let ?c = "c\<lparr>rj_cur := ty, rj_is_val_expected := False, rj_st := Rj_idle\<rparr>"
    have d: "rj_dispatch D c (w ! p) = Inr (rjson_next_ok, ?c)"
      using st Suc.prems True
      by (simp add: disp rj_next_word_def rj_assert_def rj_word_pos_def nth_append)
    have "rj_reads P D c [w ! p] [t] (?c\<lparr>rj_pos := rj_pos c + 1\<rparr>)"
      by (rule rj_reads_step[OF ch(1) st(3) d _ tok]) (use st Suc.prems in simp_all)
    moreover have "drop (Suc p) w = []" using True by simp
    moreover have "rj_at Rj_idle False ls m (?c\<lparr>rj_pos := q\<rparr>)" for q
      using rj_core_step[OF st(4,3) d] st by (simp add: rj_at_def)
    ultimately show ?thesis unfolding dr by auto
  next
    case False
    let ?c = "c\<lparr>rj_sd := Js_special (Suc p) b\<rparr>"
    have d: "rj_dispatch D c (w ! p) = Inr (rjson_next_ok, ?c)"
      using st Suc.prems False
      by (simp add: disp rj_next_word_def rj_assert_def rj_word_pos_def nth_append)
    have 1: "rj_reads (\<lambda>_. True) D c [w ! p] [] (?c\<lparr>rj_pos := rj_pos c + 1\<rparr>)"
      by (rule rj_reads_step[OF ch(1) st(3) d]) (use st Suc.prems in \<open>simp_all add: rj_token_def rjson_cur_ty_def\<close>)
    have "rj_at st True ls m (?c\<lparr>rj_pos := rj_pos c + 1\<rparr>)"
      using rj_core_step[OF st(4,3) d] st by (simp add: rj_at_def)
    moreover have "n = length w - Suc p" "Suc p < length w" using Suc.hyps(2) Suc.prems(4) False by linarith+
    ultimately obtain c' where 2: "rj_at Rj_idle False ls m c'"
      "rj_reads P D (?c\<lparr>rj_pos := rj_pos c + 1\<rparr>) (drop (Suc p) w) [t] c'"
      using Suc.hyps(1)[of "Suc p" "?c\<lparr>rj_pos := rj_pos c + 1\<rparr>"] Suc.prems by auto
    have "CHR 0xFF \<notin> set (drop (Suc p) w)" using plain[of "CHR 0xFF"] in_set_dropD[of "CHR 0xFF" "Suc p" w] by blast
    from rj_reads_append[OF 1 2(2) this] 2(1) show ?thesis unfolding dr by auto
  qed
qed

lemma rj_enter_at:
  assumes "rj_at Rj_idle True ls m c" "st = Rj_num \<or> st = Rj_true \<or> st = Rj_false \<or> st = Rj_null"
  shows "rj_at st True ls m (rj_set_st D (c\<lparr>rj_cur := rjson_incomplete\<rparr>) st)"
proof -
  have "rj_core (c\<lparr>rj_cur := rjson_incomplete\<rparr>)" using assms(1) by (auto simp: rj_at_def rj_core_defs)
  from rj_enter_core[OF this] assms show ?thesis by (auto simp: rj_at_def rj_set_st_def)
qed

lemma rj_reads_word:
  assumes c: "rj_at Rj_idle True ls m c" "ls \<noteq> []"
    and w: "(w, t) \<in> {(''true'', Jt_bool True), (''false'', Jt_bool False), (''null'', Jt_null)}"
  shows "\<exists>c'. rj_at Rj_idle False ls m c' \<and> rj_reads P D c w [t] c'"
proof -
  have l: "rj_lvl c \<noteq> Rl_none" "rj_st c = Rj_idle" "rj_is_val_expected c" "rj_buffered c = -1"
    using c by (cases ls; auto simp: rj_at_def rj_core_defs rj_lvl_def)+
  let ?c = "\<lambda>st. rj_set_st D (c\<lparr>rj_cur := rjson_incomplete\<rparr>) st"
  note at = rj_enter_at[OF c(1), of _ D]
  note d = rj_dispatch_def rj_next_idle_def rj_assert_def rj_set_st_def strchr_in_def char_defs Let_def
    rj_next_true_def rj_next_false_def rj_next_null_def
  from w consider "w = ''true''" "t = Jt_bool True" | "w = ''false''" "t = Jt_bool False" | "w = ''null''" "t = Jt_null"
    by auto
  then show ?thesis
  proof cases
    case 1
    have "\<exists>c'. rj_at Rj_idle False ls m c' \<and> rj_reads P D (?c Rj_true) (drop 0 ''true'') [t] c'"
      by (rule rj_word_rest[where st = Rj_true and ty = Rjson_bool and b = "Some True"])
        (use at[of Rj_true] l 1 in \<open>auto simp: rj_dispatch_def rj_next_true_def rj_assert_def rj_set_st_def
          rj_token_def rjson_cur_ty_def rjson_cur_is_true_def\<close>)
    then obtain c' where "rj_at Rj_idle False ls m c'" "rj_reads P D (?c Rj_true) ''true'' [t] c'" by auto
    moreover have "rj_dispatch D c (CHR ''t'') = rj_dispatch D (?c Rj_true) (CHR ''t'')" using l by (simp add: d)
    ultimately show ?thesis using rj_reads_enter[of D c "CHR ''t''" "?c Rj_true" P "''rue''"] l 1 by auto
  next
    case 2
    have "\<exists>c'. rj_at Rj_idle False ls m c' \<and> rj_reads P D (?c Rj_false) (drop 0 ''false'') [t] c'"
      by (rule rj_word_rest[where st = Rj_false and ty = Rjson_bool and b = "Some False"])
        (use at[of Rj_false] l 2 in \<open>auto simp: rj_dispatch_def rj_next_false_def rj_assert_def rj_set_st_def
          rj_token_def rjson_cur_ty_def rjson_cur_is_true_def\<close>)
    then obtain c' where "rj_at Rj_idle False ls m c'" "rj_reads P D (?c Rj_false) ''false'' [t] c'" by auto
    moreover have "rj_dispatch D c (CHR ''f'') = rj_dispatch D (?c Rj_false) (CHR ''f'')" using l by (simp add: d)
    ultimately show ?thesis using rj_reads_enter[of D c "CHR ''f''" "?c Rj_false" P "''alse''"] l 2 by auto
  next
    case 3
    have "\<exists>c'. rj_at Rj_idle False ls m c' \<and> rj_reads P D (?c Rj_null) (drop 0 ''null'') [t] c'"
      by (rule rj_word_rest[where st = Rj_null and ty = Rjson_null and b = None])
        (use at[of Rj_null] l 3 in \<open>auto simp: rj_dispatch_def rj_next_null_def rj_assert_def rj_set_st_def
          rj_token_def rjson_cur_ty_def\<close>)
    then obtain c' where "rj_at Rj_idle False ls m c'" "rj_reads P D (?c Rj_null) ''null'' [t] c'" by auto
    moreover have "rj_dispatch D c (CHR ''n'') = rj_dispatch D (?c Rj_null) (CHR ''n'')" using l by (simp add: d)
    ultimately show ?thesis using rj_reads_enter[of D c "CHR ''n''" "?c Rj_null" P "''ull''"] l 3 by auto
  qed
qed


definition rj_in_num :: "'d double_ops \<Rightarrow> bool \<Rightarrow> int \<Rightarrow> int \<Rightarrow> rj_lvl_ty list \<Rightarrow> nat \<Rightarrow> 'd rjson_ctx \<Rightarrow> bool" where
  "rj_in_num D neg a p ls m c \<longleftrightarrow> rj_at Rj_num True ls m c \<and>
     rj_sd c = Js_num \<lparr>jn_num = d_of_int D a, jn_digit_pos = p, jn_is_neg = neg, jn_exp = 0, jn_part = Part_int\<rparr>"

lemma rj_num_cur: "rj_in_num D neg a p ls m c \<Longrightarrow> rj_cur c = rjson_incomplete"
  by (auto simp: rj_in_num_def rj_at_def rj_core_defs)

lemmas rj_num_run = rj_dispatch_def rj_next_num_def rj_num_int_def rj_num_ok_def rj_assert_def rj_sd_num_m_def

lemma digit_facts:
  assumes "is_digit ch"
  shows "\<not> rj_is_whitespace ch" "ch \<noteq> CHR ''}''" "ch \<noteq> CHR '']''" "ch \<noteq> CHR '',''" "ch \<noteq> CHR ''-''"
    "ch \<noteq> CHR ''.''" "ch \<noteq> CHR ''e''" "ch \<noteq> CHR ''E''" "ch \<noteq> NUL" "ch \<noteq> CHR 0xFF"
  using assms by (auto simp: char_defs schar_def)

lemma rj_num_digit:
  assumes c: "rj_in_num D neg (rj_sign neg * a) p ls m c" and ch: "is_digit ch" "p = 0 \<longrightarrow> ch \<noteq> CHR ''0''"
    and p: "0 \<le> p" "p < int_max" and a: "0 \<le> a" "a * 10 + digit_val ch \<le> 2 ^ 53" and D: "exact_ints D"
  shows "\<exists>c'. rj_in_num D neg (rj_sign neg * (a * 10 + digit_val ch)) (p + 1) ls m c' \<and> rj_reads P D c [ch] [] c'"
proof -
  let ?c = "c\<lparr>rj_sd := Js_num \<lparr>jn_num = d_of_int D (rj_sign neg * (a * 10 + digit_val ch)), jn_digit_pos = p + 1,
    jn_is_neg = neg, jn_exp = 0, jn_part = Part_int\<rparr>\<rparr>"
  have st: "rj_st c = Rj_num" "rj_is_val_expected c" "rj_buffered c = -1" "rj_core c"
    "rj_sd c = Js_num \<lparr>jn_num = d_of_int D (rj_sign neg * a), jn_digit_pos = p, jn_is_neg = neg, jn_exp = 0, jn_part = Part_int\<rparr>"
    using c by (auto simp: rj_in_num_def rj_at_def)
  note dv = digit_val_range[OF ch(1)]
  have "d_add D (d_mul D (d_of_int D (rj_sign neg * a)) (d_of_int D 10)) (d_of_int D (digit_val ch * rj_sign neg)) =
    d_of_int D (rj_sign neg * (a * 10 + digit_val ch))"
    using a dv exact_mul[OF D, of "rj_sign neg * a" 10] exact_add[OF D, of "rj_sign neg * a * 10" "digit_val ch * rj_sign neg"]
    by (simp add: rj_sign_def split: if_splits)
  then have d: "rj_dispatch D c ch = Inr (rjson_next_ok, ?c)"
    using st ch(2) digit_facts[OF ch(1)] ch(1) p
    by (auto simp: rj_num_run int_min_def)
  have "rj_reads P D c [ch] [] (?c\<lparr>rj_pos := rj_pos c + 1\<rparr>)"
    by (rule rj_reads_step[OF _ st(3) d])
      (use st digit_facts[OF ch(1)] rj_num_cur[OF c] in \<open>simp_all add: rj_token_def rjson_cur_ty_def\<close>)
  moreover have "rj_in_num D neg (rj_sign neg * (a * 10 + digit_val ch)) (p + 1) ls m (?c\<lparr>rj_pos := q\<rparr>)" for q
    using rj_core_step[OF st(4,3) d] c by (simp add: rj_in_num_def rj_at_def)
  ultimately show ?thesis by blast
qed

lemma rj_num_digits:
  assumes "rj_in_num D neg (rj_sign neg * a) p ls m c" "list_all is_digit s" "s \<noteq> [] \<longrightarrow> p = 0 \<longrightarrow> hd s \<noteq> CHR ''0''"
    and "0 \<le> p" "p + int (length s) \<le> int_max" "0 \<le> a" "digits_val a s \<le> 2 ^ 53" and D: "exact_ints D"
  shows "\<exists>c'. rj_in_num D neg (rj_sign neg * digits_val a s) (p + int (length s)) ls m c' \<and> rj_reads P D c s [] c'"
  using assms
proof (induction s arbitrary: a p c)
  case Nil
  then show ?case using rj_reads_Nil by (auto simp: digits_val_def)
next
  case (Cons ch s)
  let ?a = "a * 10 + digit_val ch"
  have dg: "is_digit ch" "list_all is_digit s" "digits_val ?a s \<le> 2 ^ 53" "0 \<le> ?a"
    using Cons.prems digit_val_range[of ch] by (auto simp: digits_val_def)
  then have "?a \<le> 2 ^ 53" using digits_val_ge[of s ?a] by linarith
  then obtain c1 where 1: "rj_in_num D neg (rj_sign neg * ?a) (p + 1) ls m c1" "rj_reads (\<lambda>_. True) D c [ch] [] c1"
    using rj_num_digit[OF Cons.prems(1) dg(1), of "\<lambda>_. True"] Cons.prems by auto
  obtain c2 where 2: "rj_in_num D neg (rj_sign neg * digits_val ?a s) (p + 1 + int (length s)) ls m c2" "rj_reads P D c1 s [] c2"
    using Cons.IH[OF 1(1)] dg Cons.prems by auto
  have "CHR 0xFF \<notin> set s" using dg(2) digit_facts(10) by (auto simp: list_all_iff)
  from rj_reads_append[OF 1(2) 2(2) this] 2(1) show ?case by (auto simp: digits_val_def add.assoc)
qed

definition rj_delim :: "char \<Rightarrow> bool" where
  "rj_delim ch \<longleftrightarrow> ch = CHR '','' \<or> ch = CHR '']'' \<or> ch = CHR ''}''"

lemma rj_delims [simp]: "rj_delim (CHR '','')" "rj_delim (CHR '']'')" "rj_delim (CHR ''}'')"
  by (simp_all add: rj_delim_def)

lemma rj_num_close:
  assumes c: "rj_in_num D neg a p ls m c" "0 < p" and ls: "ls \<noteq> []" "last ls = Rl_obj"
  shows "\<exists>c'. rj_at Rj_idle False ls m c' \<and> rj_reads rj_delim D c [] [Jt_num (d_of_int D a)] c'"
proof -
  let ?c = "c\<lparr>rj_cur := Rjson_num, rj_is_val_expected := False, rj_st := Rj_idle\<rparr>"
  have st: "rj_st c = Rj_num" "rj_is_val_expected c" "rj_buffered c = -1" "rj_core c" "rj_cur c = rjson_incomplete"
    "rj_sd c = Js_num \<lparr>jn_num = d_of_int D a, jn_digit_pos = p, jn_is_neg = neg, jn_exp = 0, jn_part = Part_int\<rparr>"
    using c rj_num_cur[OF c(1)] by (auto simp: rj_in_num_def rj_at_def)
  have at: "rj_at Rj_idle False ls m ?c" using c(1) by (auto simp: rj_in_num_def rj_at_def rj_core_defs)
  then have between: "rj_between ?c" "rj_buffered ?c = -1" using ls by (auto simp: rj_at_def rj_between_def)
  have tok: "rj_token ?c = Inr [Jt_num (d_of_int D a)]"
    using st by (simp add: rj_token_def rjson_cur_ty_def rjson_cur_num_def rj_sd_num_m_def)
  have "rj_run D c (b # s) = Inr (End_fin, Jt_num (d_of_int D a) # us)"
    if b: "rj_delim b" "rj_rest (b # s)" and run: "rj_run D ?c (b # s) = Inr (End_fin, us)" for b s us
  proof -
    have b': "b \<noteq> NUL" "b \<noteq> CHR 0xFF" "schar b \<noteq> -1" "schar b \<noteq> schar NUL" using b(1) by (auto simp: rj_delim_def schar_def)
    have "rj_dispatch D c b = Inr (rjson_next_ok, ?c\<lparr>rj_buffered := schar b\<rparr>)"
      using b(1) st c(2) by (cases c) (auto simp: rj_delim_def rj_num_run rj_num_end_def Let_def)
    then have nx: "rjson_next D c b = Inr (rjson_next_ok, ?c\<lparr>rj_buffered := schar b\<rparr>)"
      using st b' by (subst rjson_next.simps) (simp add: Let_def)
    have "rj_rest s" using b(2) b'(1) by (auto simp: rj_rest_def)
    from rj_lag[OF between b'(1,2) this run] nx tok show ?thesis by simp
  qed
  then have "rj_run D c rest = Inr (End_fin, Jt_num (d_of_int D a) # us)"
    if "rj_rest rest" "rj_delim (hd rest)" "rj_run D ?c rest = Inr (End_fin, us)" for rest us
    using that by (cases rest) (auto simp: rj_rest_def simp del: rj_run.simps)
  with at show ?thesis unfolding rj_reads_def by (intro exI[of _ ?c]) simp
qed


lemma rj_num_whole:
  assumes c: "rj_in_num D neg 0 0 ls m c" and n: "0 < n" "int n \<le> 2 ^ 53" and ls: "ls \<noteq> []" "last ls = Rl_obj"
    and D: "exact_ints D"
  shows "\<exists>c'. rj_at Rj_idle False ls m c' \<and> rj_reads rj_delim D c (nat_digits n) [Jt_num (d_of_int D (rj_sign neg * int n))] c'"
proof -
  have "n < 10 ^ 16" using n(2) by simp
  then have len: "length (nat_digits n) \<le> 16" by (rule nat_digits_length) simp
  have "\<exists>c'. rj_in_num D neg (rj_sign neg * digits_val 0 (nat_digits n)) (0 + int (length (nat_digits n))) ls m c' \<and>
      rj_reads (\<lambda>_. True) D c (nat_digits n) [] c'"
    by (rule rj_num_digits) (use c n len nat_digits_hd[of n] nat_digits_all_digits[of n] nat_digits_val[of n] D in
        \<open>simp_all add: int_max_def\<close>)
  then obtain c1 where 1: "rj_in_num D neg (rj_sign neg * int n) (int (length (nat_digits n))) ls m c1"
    "rj_reads (\<lambda>_. True) D c (nat_digits n) [] c1"
    by (auto simp: nat_digits_val)
  have "0 < int (length (nat_digits n))" by simp
  from rj_num_close[OF 1(1) this ls] obtain c2 where 2: "rj_at Rj_idle False ls m c2"
    "rj_reads rj_delim D c1 [] [Jt_num (d_of_int D (rj_sign neg * int n))] c2" by blast
  from rj_reads_append[OF 1(2) 2(2)] 2(1) show ?thesis by auto
qed

lemma rj_reads_int:
  assumes c: "rj_at Rj_idle True ls m c" and ls: "ls \<noteq> []" "last ls = Rl_obj" and i: "i \<noteq> 0" "\<bar>i\<bar> \<le> 2 ^ 53"
    and D: "exact_ints D"
  shows "\<exists>c'. rj_at Rj_idle False ls m c' \<and> rj_reads rj_delim D c (fmt_int i) [Jt_num (d_of_int D i)] c'"
proof -
  let ?c = "rj_set_st D (c\<lparr>rj_cur := rjson_incomplete\<rparr>) Rj_num"
  have l: "rj_lvl c \<noteq> Rl_none" "rj_st c = Rj_idle" "rj_is_val_expected c" "rj_buffered c = -1"
    using c ls by (cases ls; auto simp: rj_at_def rj_core_defs rj_lvl_def)+
  have num: "rj_in_num D False 0 0 ls m ?c"
    using rj_enter_at[OF c, of Rj_num D] l by (simp add: rj_in_num_def rj_set_st_def)
  have enter: "rj_dispatch D c ch = rj_dispatch D ?c ch" if "rj_is_num_start ch" for ch
  proof -
    have "\<not> rj_is_whitespace ch" "\<not> strchr_in ''true'' ch" "\<not> strchr_in ''false'' ch" "\<not> strchr_in ''null'' ch"
      using that by (auto simp: char_defs strchr_in_def schar_def)
    then show ?thesis using l that by (simp add: rj_dispatch_def rj_next_idle_def rj_assert_def rj_set_st_def)
  qed
  show ?thesis
  proof (cases "i < 0")
    case False
    let ?s = "nat_digits (nat i)"
    obtain ch s where s: "?s = ch # s" by (cases ?s) simp_all
    have ch: "is_digit ch" using nat_digits_all_digits[of "nat i"] s by simp
    obtain c' where "rj_at Rj_idle False ls m c'" "rj_reads rj_delim D ?c (ch # s) [Jt_num (d_of_int D i)] c'"
      using rj_num_whole[OF num, of "nat i"] False i ls D s by (auto simp: rj_sign_def)
    with rj_reads_enter[OF enter l(4), of ch] False l(4) ch digit_facts(9)[OF ch] s show ?thesis
      by (auto simp: fmt_int_def rj_is_num_start_def)
  next
    case True
    let ?c1 = "?c\<lparr>rj_sd := Js_num \<lparr>jn_num = d_of_int D 0, jn_digit_pos = 0, jn_is_neg = True, jn_exp = 0, jn_part = Part_int\<rparr>\<rparr>"
    have st: "rj_st ?c = Rj_num" "rj_is_val_expected ?c" "rj_buffered ?c = -1" "rj_core ?c"
      "rj_sd ?c = Js_num \<lparr>jn_num = d_of_int D 0, jn_digit_pos = 0, jn_is_neg = False, jn_exp = 0, jn_part = Part_int\<rparr>"
      using num by (auto simp: rj_in_num_def rj_at_def)
    then have d: "rj_dispatch D ?c (CHR ''-'') = Inr (rjson_next_ok, ?c1)"
      by (simp add: rj_num_run char_defs)
    have 1: "rj_reads (\<lambda>_. True) D ?c ''-'' [] (?c1\<lparr>rj_pos := rj_pos ?c1 + 1\<rparr>)"
      by (rule rj_reads_step[OF _ st(3) d]) (use st rj_num_cur[OF num] in \<open>simp_all add: rj_token_def rjson_cur_ty_def\<close>)
    have "rj_in_num D True 0 0 ls m (?c1\<lparr>rj_pos := rj_pos ?c1 + 1\<rparr>)"
      using rj_core_step[OF st(4,3) d] num by (simp add: rj_in_num_def rj_at_def)
    from rj_num_whole[OF this, of "nat (- i)"] obtain c' where 2: "rj_at Rj_idle False ls m c'"
      "rj_reads rj_delim D (?c1\<lparr>rj_pos := rj_pos ?c1 + 1\<rparr>) (nat_digits (nat (- i))) [Jt_num (d_of_int D i)] c'"
      using True i ls D by (auto simp: rj_sign_def)
    have "CHR 0xFF \<notin> set (nat_digits (nat (- i)))"
      using nat_digits_all_digits[of "nat (- i)"] digit_facts(10) by (auto simp: list_all_iff)
    from rj_reads_append[OF 1 2(2) this] have "rj_reads rj_delim D ?c (fmt_int i) [Jt_num (d_of_int D i)] c'"
      using True by (simp add: fmt_int_def)
    with rj_reads_enter[OF enter l(4) st(3)] 2(1) True show ?thesis by (auto simp: fmt_int_def rj_is_num_start_def)
  qed
qed

subsection \<open>Punctuation\<close>

lemmas rj_punct_run = rj_dispatch_def rj_next_idle_def rj_next_want_key_def rj_next_want_colon_def rj_assert_def
  rj_idle_punct_def rj_add_lvl_def rj_pop_lvl_def strchr_in_def

lemma rj_reads_punct:
  assumes c: "rj_at st e ls m c" and ch: "ch \<noteq> NUL"
    and d: "rj_dispatch D c ch = Inr (rjson_next_ok, cx)" "rj_token cx = Inr t"
    and at: "rj_st cx = st'" "rj_is_val_expected cx = e'" "rj_lvls cx = ls'" "rj_str_mlen cx = m" "rj_buffered cx = -1"
  shows "\<exists>c'. rj_at st' e' ls' m c' \<and> rj_reads P D c [ch] t c'"
proof -
  have b: "rj_buffered c = -1" "rj_core c" using c by (auto simp: rj_at_def)
  have "rj_at st' e' ls' m (cx\<lparr>rj_pos := rj_pos cx + 1\<rparr>)"
    using rj_core_step[OF b(2,1) d(1)] at by (simp add: rj_at_def)
  moreover have "rj_reads P D c [ch] t (cx\<lparr>rj_pos := rj_pos cx + 1\<rparr>)"
    by (rule rj_reads_step[OF ch b(1) d(1) at(5) d(2) refl])
  ultimately show ?thesis by blast
qed

lemma rj_reads_arr_start:
  assumes c: "rj_at Rj_idle True ls m c" and ls: "ls \<noteq> []" "length ls < rj_max_depth"
  shows "\<exists>c'. rj_at Rj_idle True (Rl_arr # ls) m c' \<and> rj_reads P D c ''['' [Jt_arr_start] c'"
proof -
  have l: "rj_lvl c \<noteq> Rl_none" "rj_st c = Rj_idle" "rj_is_val_expected c" "rj_lvls c = ls" "rj_str_mlen c = m" "rj_buffered c = -1"
    using c ls by (cases ls; auto simp: rj_at_def rj_core_defs rj_lvl_def)+
  show ?thesis
    by (rule rj_reads_punct[OF c, where cx = "c\<lparr>rj_cur := Rjson_arr_start, rj_lvls := Rl_arr # ls, rj_st := Rj_idle, rj_is_val_expected := True\<rparr>"])
      (use l ls in \<open>simp_all add: rj_punct_run char_defs schar_def rj_token_def rjson_cur_ty_def\<close>)
qed

lemma rj_reads_obj_start:
  assumes c: "rj_at Rj_idle True ls m c" and ls: "length ls < rj_max_depth"
  shows "\<exists>c'. rj_at Rj_want_key True (Rl_obj # ls) m c' \<and> rj_reads P D c ''{'' [Jt_obj_start] c'"
proof -
  have l: "rj_st c = Rj_idle" "rj_is_val_expected c" "rj_lvls c = ls" "rj_str_mlen c = m" "rj_buffered c = -1"
    using c by (auto simp: rj_at_def)
  show ?thesis
    by (rule rj_reads_punct[OF c, where cx = "c\<lparr>rj_cur := Rjson_obj_start, rj_lvls := Rl_obj # ls, rj_st := Rj_want_key, rj_is_val_expected := True\<rparr>"])
      (use l ls in \<open>simp_all add: rj_punct_run char_defs schar_def rj_token_def rjson_cur_ty_def\<close>)
qed

lemma rj_reads_colon:
  assumes c: "rj_at Rj_want_colon False ls m c"
  shows "\<exists>c'. rj_at Rj_idle True ls m c' \<and> rj_reads P D c '':'' [] c'"
proof -
  have l: "rj_lvl c = Rl_obj" "rj_st c = Rj_want_colon" "\<not> rj_is_val_expected c" "rj_lvls c = ls" "rj_str_mlen c = m" "rj_buffered c = -1"
    using c by (auto simp: rj_at_def rj_core_defs)
  show ?thesis
    by (rule rj_reads_punct[OF c, where cx = "c\<lparr>rj_cur := rjson_incomplete, rj_st := Rj_idle, rj_is_val_expected := True\<rparr>"])
      (use l in \<open>simp_all add: rj_punct_run char_defs schar_def rj_token_def rjson_cur_ty_def\<close>)
qed

lemma rj_reads_comma:
  assumes c: "rj_at Rj_idle False (l # ls) m c"
  shows "\<exists>c'. rj_at (if l = Rl_obj then Rj_want_key else Rj_idle) True (l # ls) m c' \<and> rj_reads P D c '','' [] c'"
proof -
  have b: "rj_st c = Rj_idle" "\<not> rj_is_val_expected c" "rj_lvls c = l # ls" "l \<noteq> Rl_none" "rj_str_mlen c = m" "rj_buffered c = -1"
    using c by (auto simp: rj_at_def rj_core_defs)
  note d = rj_dispatch_between[OF b(1-4), of D "CHR '',''"]
  show ?thesis
    by (rule rj_reads_punct[OF c, where cx = "c\<lparr>rj_cur := rjson_incomplete, rj_is_val_expected := True,
          rj_st := (if l = Rl_obj then Rj_want_key else Rj_idle)\<rparr>"])
      (use b d in \<open>simp_all add: Let_def char_defs rj_token_def rjson_cur_ty_def\<close>)
qed

lemma rj_reads_arr_end:
  assumes c: "rj_at Rj_idle False (Rl_arr # ls) m c"
  shows "\<exists>c'. rj_at Rj_idle False ls m c' \<and> rj_reads P D c '']'' [Jt_arr_end] c'"
proof -
  have b: "rj_st c = Rj_idle" "\<not> rj_is_val_expected c" "rj_lvls c = Rl_arr # ls" "rj_str_mlen c = m" "rj_buffered c = -1"
    using c by (auto simp: rj_at_def)
  note d = rj_dispatch_between[OF b(1-3), of D "CHR '']''"]
  show ?thesis
    by (rule rj_reads_punct[OF c, where cx = "c\<lparr>rj_cur := rjson_incomplete, rj_lvls := ls, rj_cur := Rjson_arr_end\<rparr>"])
      (use b d in \<open>simp_all add: Let_def char_defs rj_token_def rjson_cur_ty_def\<close>)
qed

text \<open>The closing brace comes after a member, or right after the opening one.\<close>

definition rj_obj_open :: "rj_lvl_ty list \<Rightarrow> nat \<Rightarrow> 'd rjson_ctx \<Rightarrow> bool" where
  "rj_obj_open ls m c \<longleftrightarrow> rj_at Rj_idle False (Rl_obj # ls) m c \<or> rj_at Rj_want_key True (Rl_obj # ls) m c"

lemma rj_close_dispatch:
  assumes c: "rj_obj_open ls m c"
  shows "rj_dispatch D c (CHR ''}'') = Inr (if ls = [] then rjson_next_fin else rjson_next_ok,
    c\<lparr>rj_cur := Rjson_obj_end, rj_lvls := ls, rj_st := Rj_idle, rj_is_val_expected := False\<rparr>)"
proof -
  have n: "Rl_none \<notin> set ls" using c by (auto simp: rj_obj_open_def rj_at_def rj_core_defs)
  from c show ?thesis
    unfolding rj_obj_open_def
  proof
    assume "rj_at Rj_idle False (Rl_obj # ls) m c"
    then have "rj_st c = Rj_idle" "\<not> rj_is_val_expected c" "rj_lvls c = Rl_obj # ls" by (auto simp: rj_at_def)
    then show ?thesis using n by (cases c; cases ls) (auto simp: rj_dispatch_between Let_def char_defs rj_lvl_def)
  next
    assume "rj_at Rj_want_key True (Rl_obj # ls) m c"
    then have "rj_st c = Rj_want_key" "rj_is_val_expected c" "rj_lvls c = Rl_obj # ls" "rj_lvl c = Rl_obj"
      by (auto simp: rj_at_def rj_lvl_def)
    then show ?thesis
      using n by (cases ls) (auto simp: rj_dispatch_def rj_next_want_key_def rj_assert_def rj_pop_lvl_def Let_def char_defs rj_lvl_def)
  qed
qed

lemma rj_reads_obj_end:
  assumes c: "rj_obj_open ls m c" and ls: "ls \<noteq> []"
  shows "\<exists>c'. rj_at Rj_idle False ls m c' \<and> rj_reads P D c ''}'' [Jt_obj_end] c'"
proof -
  obtain st e where at: "rj_at st e (Rl_obj # ls) m c" using c by (auto simp: rj_obj_open_def)
  show ?thesis
    by (rule rj_reads_punct[OF at _ rj_close_dispatch[OF c, of D, simplified ls simp_thms if_False]])
      (use at in \<open>simp_all add: rj_at_def rj_token_def rjson_cur_ty_def\<close>)
qed

lemma rj_run_fin:
  assumes c: "rj_obj_open [] m c"
  shows "rj_run D c (''}'' @ s) = Inr (End_fin, [Jt_obj_end])"
proof -
  have b: "rj_buffered c = -1" using c by (auto simp: rj_obj_open_def rj_at_def)
  show ?thesis
    using rjson_next_plain[OF _ b rj_close_dispatch[OF c]] b by (simp add: rj_token_def rjson_cur_ty_def)
qed


subsection \<open>Values\<close>

lemma commas_Cons: "ss \<noteq> [] \<Longrightarrow> commas (s # ss) = s @ '','' @ commas ss"
  by (cases ss) simp_all

lemma commas_plain: "\<forall>s\<in>set ss. CHR 0xFF \<notin> set s \<Longrightarrow> CHR 0xFF \<notin> set (commas ss)"
  by (induction ss rule: commas.induct) auto

lemma nat_digits_plain: "CHR 0xFF \<notin> set (nat_digits n)"
proof
  assume "CHR 0xFF \<in> set (nat_digits n)"
  then have "is_digit (CHR 0xFF)" using nat_digits_all_digits[of n] by (simp add: list_all_iff)
  then show False by (simp add: is_digit_def schar_def)
qed

lemma fmt_int_plain: "CHR 0xFF \<notin> set (fmt_int i)"
  using nat_digits_plain by (simp add: fmt_int_def)

lemma json_ok_member:
  assumes "json_ok m (Json_obj kvs)" "kv \<in> set kvs"
  shows "json_str_ok m (fst kv) \<and> json_ok m (snd kv)"
proof -
  have "case map_prod id (json_ok m) kv of (k, b) \<Rightarrow> json_str_ok m k \<and> b"
    using assms by (simp add: list_all_iff)
  then show ?thesis by (cases kv) simp
qed

lemma json_text_plain: "json_ok m v \<Longrightarrow> CHR 0xFF \<notin> set (json_text v)"
proof (induction v)
  case (Json_arr vs)
  have "CHR 0xFF \<notin> set (commas (map json_text vs))"
    by (rule commas_plain) (use Json_arr in \<open>auto simp: list_all_iff\<close>)
  then show ?case by simp
next
  case (Json_obj kvs)
  have "CHR 0xFF \<notin> set (member_text kv)" if "kv \<in> set kvs" for kv
  proof -
    have "json_str_ok m (fst kv)" "json_ok m (snd kv)" using json_ok_member[OF Json_obj.prems that] by auto
    with Json_obj.IH[OF that, of "snd kv"] wj_quoted_plain show ?thesis by (cases kv) (auto simp: member_text_def)
  qed
  then have "CHR 0xFF \<notin> set (commas (map member_text kvs))" by (intro commas_plain) auto
  then show ?case by (simp add: json_obj_simps del: json_text.simps)
qed (auto simp: wj_quoted_plain fmt_int_plain)

definition rj_reads_val :: "'d double_ops \<Rightarrow> rj_lvl_ty list \<Rightarrow> nat \<Rightarrow> json \<Rightarrow> bool" where
  "rj_reads_val D ls m v \<longleftrightarrow> (\<forall>c. rj_at Rj_idle True ls m c \<longrightarrow>
     (\<exists>c'. rj_at Rj_idle False ls m c' \<and> rj_reads rj_delim D c (json_text v) (json_toks D v) c'))"

lemma rj_reads_elems:
  assumes "vs \<noteq> []" "\<And>v. v \<in> set vs \<Longrightarrow> json_ok m v \<and> rj_reads_val D (Rl_arr # ls) m v" "rj_at Rj_idle True (Rl_arr # ls) m c"
  shows "\<exists>c'. rj_at Rj_idle False (Rl_arr # ls) m c' \<and>
    rj_reads rj_delim D c (commas (map json_text vs)) (concat (map (json_toks D) vs)) c'"
  using assms
proof (induction vs arbitrary: c rule: list_nonempty_induct)
  case (single v)
  then show ?case by (simp add: rj_reads_val_def)
next
  case (cons v vs)
  obtain c1 where 1: "rj_at Rj_idle False (Rl_arr # ls) m c1" "rj_reads rj_delim D c (json_text v) (json_toks D v) c1"
    using cons.prems by (auto simp: rj_reads_val_def)
  obtain c2 where 2: "rj_at Rj_idle True (Rl_arr # ls) m c2" "rj_reads (\<lambda>_. True) D c1 '','' [] c2"
    using rj_reads_comma[OF 1(1), of "\<lambda>_. True" D] by auto
  obtain c3 where 3: "rj_at Rj_idle False (Rl_arr # ls) m c3"
    "rj_reads rj_delim D c2 (commas (map json_text vs)) (concat (map (json_toks D) vs)) c3"
    using cons.IH[OF _ 2(1)] cons.prems(1) by auto
  have pl: "CHR 0xFF \<notin> set (commas (map json_text vs))"
    using cons.prems(1) json_text_plain by (intro commas_plain) auto
  note 4 = rj_reads_append[OF 2(2) 3(2) pl, simplified]
  from rj_reads_append[OF 1(2) 4] pl 3(1) cons.hyps show ?case
    by (auto simp: commas_Cons)
qed

lemma rj_reads_member:
  assumes "json_str_ok m k" "json_ok m v" "rj_reads_val D (Rl_obj # ls) m v" "rj_at Rj_want_key True (Rl_obj # ls) m c"
  shows "\<exists>c'. rj_at Rj_idle False (Rl_obj # ls) m c' \<and>
    rj_reads rj_delim D c (member_text (k, v)) (Jt_str k # json_toks D v) c'"
proof -
  obtain c1 where 1: "rj_at Rj_want_colon False (Rl_obj # ls) m c1" "rj_reads (\<lambda>_. True) D c (wj_quoted k) [Jt_str k] c1"
    using rj_reads_key[OF assms(4,1), of "\<lambda>_. True" D] by blast
  obtain c2 where 2: "rj_at Rj_idle True (Rl_obj # ls) m c2" "rj_reads (\<lambda>_. True) D c1 '':'' [] c2"
    using rj_reads_colon[OF 1(1), of "\<lambda>_. True" D] by blast
  obtain c3 where 3: "rj_at Rj_idle False (Rl_obj # ls) m c3" "rj_reads rj_delim D c2 (json_text v) (json_toks D v) c3"
    using assms(3) 2(1) by (auto simp: rj_reads_val_def)
  note pl = json_text_plain[OF assms(2)]
  note 4 = rj_reads_append[OF 2(2) 3(2) pl, simplified]
  from rj_reads_append[OF 1(2) 4] pl 3(1) show ?thesis by (auto simp: member_text_def)
qed

definition member_toks :: "'d double_ops \<Rightarrow> string \<times> json \<Rightarrow> 'd rj_tok list" where
  "member_toks D kv = Jt_str (fst kv) # json_toks D (snd kv)"

lemma json_obj_toks: "json_toks D (Json_obj kvs) = [Jt_obj_start] @ concat (map (member_toks D) kvs) @ [Jt_obj_end]"
  by (simp add: member_toks_def split_beta comp_def cong: map_cong)

lemma member_text_plain: "json_str_ok m (fst kv) \<Longrightarrow> json_ok m (snd kv) \<Longrightarrow> CHR 0xFF \<notin> set (member_text kv)"
  using wj_quoted_plain json_text_plain by (auto simp: member_text_def)

lemma members_plain:
  assumes "\<And>kv. kv \<in> set kvs \<Longrightarrow> json_str_ok m (fst kv) \<and> json_ok m (snd kv)"
  shows "CHR 0xFF \<notin> set (commas (map member_text kvs))"
proof (rule commas_plain, rule ballI)
  fix s
  assume "s \<in> set (map member_text kvs)"
  then obtain kv where kv: "kv \<in> set kvs" "s = member_text kv" by (elim list.set_map[THEN equalityD1, THEN subsetD, THEN imageE]) blast
  with assms[OF kv(1)] member_text_plain[of m kv] show "CHR 0xFF \<notin> set s" by blast
qed

lemma rj_reads_members:
  assumes "kvs \<noteq> []"
    "\<And>kv. kv \<in> set kvs \<Longrightarrow> json_str_ok m (fst kv) \<and> json_ok m (snd kv) \<and> rj_reads_val D (Rl_obj # ls) m (snd kv)"
    "rj_at Rj_want_key True (Rl_obj # ls) m c"
  shows "\<exists>c'. rj_at Rj_idle False (Rl_obj # ls) m c' \<and>
    rj_reads rj_delim D c (commas (map member_text kvs)) (concat (map (member_toks D) kvs)) c'"
  using assms
proof (induction kvs arbitrary: c rule: list_nonempty_induct)
  case (single kv)
  then show ?case using rj_reads_member[of m "fst kv" "snd kv" D ls c] by (simp add: member_toks_def)
next
  case (cons kv kvs)
  obtain c1 where 1: "rj_at Rj_idle False (Rl_obj # ls) m c1" "rj_reads rj_delim D c (member_text kv) (member_toks D kv) c1"
    using rj_reads_member[of m "fst kv" "snd kv" D ls c] cons.prems by (auto simp: member_toks_def)
  obtain c2 where 2: "rj_at Rj_want_key True (Rl_obj # ls) m c2" "rj_reads (\<lambda>_. True) D c1 '','' [] c2"
    using rj_reads_comma[OF 1(1), of "\<lambda>_. True" D] by auto
  obtain c3 where 3: "rj_at Rj_idle False (Rl_obj # ls) m c3"
    "rj_reads rj_delim D c2 (commas (map member_text kvs)) (concat (map (member_toks D) kvs)) c3"
    using cons.IH[OF _ 2(1)] cons.prems(1) by auto
  have pl: "CHR 0xFF \<notin> set (commas (map member_text kvs))"
    by (rule members_plain[of _ m]) (use cons.prems(1) in \<open>simp del: split_paired_All\<close>)
  note 4 = rj_reads_append[OF 2(2) 3(2) pl, simplified]
  from rj_reads_append[OF 1(2) 4] pl 3(1) cons.hyps show ?case
    by (auto simp: commas_Cons)
qed

text \<open>An object up to its closing brace, at any level.\<close>

lemma rj_reads_obj_open:
  assumes c: "rj_at Rj_idle True ls m c" "length ls < rj_max_depth"
    and kvs: "\<And>kv. kv \<in> set kvs \<Longrightarrow> json_str_ok m (fst kv) \<and> json_ok m (snd kv) \<and> rj_reads_val D (Rl_obj # ls) m (snd kv)"
  shows "\<exists>c'. rj_obj_open ls m c' \<and>
    rj_reads rj_delim D c (''{'' @ commas (map member_text kvs)) (Jt_obj_start # concat (map (member_toks D) kvs)) c'"
proof -
  obtain c1 where 1: "rj_at Rj_want_key True (Rl_obj # ls) m c1" "\<And>P. rj_reads P D c ''{'' [Jt_obj_start] c1"
  proof -
    obtain c1 where c1: "rj_at Rj_want_key True (Rl_obj # ls) m c1" "rj_reads (\<lambda>_. True) D c ''{'' [Jt_obj_start] c1"
      using rj_reads_obj_start[OF c, of "\<lambda>_. True" D] by blast
    then have "rj_reads P D c ''{'' [Jt_obj_start] c1" for P by (simp add: rj_reads_def)
    with c1(1) that show thesis by blast
  qed
  show ?thesis
  proof (cases "kvs = []")
    case True
    with 1(1) 1(2)[of rj_delim] show ?thesis by (auto simp: rj_obj_open_def)
  next
    case False
    obtain c2 where 2: "rj_at Rj_idle False (Rl_obj # ls) m c2"
      "rj_reads rj_delim D c1 (commas (map member_text kvs)) (concat (map (member_toks D) kvs)) c2"
      using rj_reads_members[OF False kvs 1(1)] by blast
    have pl: "CHR 0xFF \<notin> set (commas (map member_text kvs))"
      by (rule members_plain[of _ m]) (use kvs in blast)
    from rj_reads_append[OF 1(2) 2(2) pl] 2(1) show ?thesis by (auto simp: rj_obj_open_def)
  qed
qed

lemma rj_reads_json:
  assumes D: "exact_ints D"
  shows "json_ok m v \<Longrightarrow> ls \<noteq> [] \<Longrightarrow> last ls = Rl_obj \<Longrightarrow> length ls + json_depth v \<le> rj_max_depth \<Longrightarrow> rj_reads_val D ls m v"
proof (induction v arbitrary: ls)
  case (Json_str s)
  then show ?case unfolding rj_reads_val_def json_ok.simps json_text.simps json_toks.simps using rj_reads_str by blast
next
  case (Json_int i)
  then show ?case unfolding rj_reads_val_def json_ok.simps json_text.simps json_toks.simps using rj_reads_int[OF _ _ _ _ _ D] by blast
next
  case (Json_bool b)
  have "(json_text (Json_bool b), Jt_bool b) \<in> {(''true'', Jt_bool True), (''false'', Jt_bool False), (''null'', Jt_null)}"
    by (cases b) simp_all
  from rj_reads_word[OF _ Json_bool.prems(2) this] show ?case unfolding rj_reads_val_def json_toks.simps by blast
next
  case Json_null
  have "(''null'', Jt_null) \<in> {(''true'', Jt_bool True), (''false'', Jt_bool False), (''null'', Jt_null)}" by simp
  from rj_reads_word[OF _ Json_null.prems(2) this] show ?case
    unfolding rj_reads_val_def json_toks.simps json_text.simps by blast
next
  case (Json_arr vs)
  have vs: "json_ok m v \<and> rj_reads_val D (Rl_arr # ls) m v" if v: "v \<in> set vs" for v
  proof -
    have "fold max (map json_depth vs) 0 \<le> rj_max_depth - Suc (length ls)" using Json_arr.prems(4) by simp
    then have "json_depth v \<le> rj_max_depth - Suc (length ls)" using v by (simp add: fold_max_le)
    with Json_arr.IH[OF v, of "Rl_arr # ls"] Json_arr.prems v show ?thesis by (simp add: list_all_iff)
  qed
  have "\<exists>c'. rj_at Rj_idle False ls m c' \<and> rj_reads rj_delim D c (json_text (Json_arr vs)) (json_toks D (Json_arr vs)) c'"
    if c: "rj_at Rj_idle True ls m c" for c
  proof -
    obtain c1 where 1: "rj_at Rj_idle True (Rl_arr # ls) m c1" "rj_reads (\<lambda>_. True) D c ''['' [Jt_arr_start] c1"
      using rj_reads_arr_start[OF c, of "\<lambda>_. True" D] Json_arr.prems by auto
    obtain c2 where 2: "rj_at Rj_idle False (Rl_arr # ls) m c2"
      "rj_reads rj_delim D c1 (commas (map json_text vs)) (concat (map (json_toks D) vs)) c2"
      using rj_reads_elems[OF _ vs 1(1)] Json_arr.prems(1) by auto
    obtain c3 where 3: "rj_at Rj_idle False ls m c3" "rj_reads rj_delim D c2 '']'' [Jt_arr_end] c3"
      using rj_reads_arr_end[OF 2(1)] by blast
    have pl: "CHR 0xFF \<notin> set (commas (map json_text vs))" using vs json_text_plain by (intro commas_plain) auto
    have 4: "rj_reads rj_delim D c1 (commas (map json_text vs) @ '']'') (concat (map (json_toks D) vs) @ [Jt_arr_end]) c3"
      by (rule rj_reads_append[OF 2(2) 3(2)]) auto
    from rj_reads_append[OF 1(2) 4] pl 3(1) show ?thesis by auto
  qed
  then show ?case unfolding rj_reads_val_def by blast
next
  case (Json_obj kvs)
  have kvs: "json_str_ok m (fst kv) \<and> json_ok m (snd kv) \<and> rj_reads_val D (Rl_obj # ls) m (snd kv)" if kv: "kv \<in> set kvs" for kv
  proof -
    have "fold max (map snd (map (map_prod id json_depth) kvs)) 0 \<le> rj_max_depth - Suc (length ls)"
      using Json_obj.prems(4) by simp
    then have "json_depth (snd kv) \<le> rj_max_depth - Suc (length ls)" using kv by (force simp: fold_max_le)
    with Json_obj.IH[OF kv, of "snd kv" "Rl_obj # ls"] Json_obj.prems kv json_ok_member[OF Json_obj.prems(1) kv] show ?thesis
      by (cases kv) auto
  qed
  have "\<exists>c'. rj_at Rj_idle False ls m c' \<and> rj_reads rj_delim D c (json_text (Json_obj kvs)) (json_toks D (Json_obj kvs)) c'"
    if c: "rj_at Rj_idle True ls m c" for c
  proof -
    obtain c1 where 1: "rj_obj_open ls m c1"
      "rj_reads rj_delim D c (''{'' @ commas (map member_text kvs)) (Jt_obj_start # concat (map (member_toks D) kvs)) c1"
      using rj_reads_obj_open[OF c _ kvs] Json_obj.prems(4) by auto
    obtain c2 where 2: "rj_at Rj_idle False ls m c2" "rj_reads rj_delim D c1 ''}'' [Jt_obj_end] c2"
      using rj_reads_obj_end[OF 1(1) Json_obj.prems(2)] by blast
    have "rj_reads rj_delim D c ((''{'' @ commas (map member_text kvs)) @ ''}'')
        ((Jt_obj_start # concat (map (member_toks D) kvs)) @ [Jt_obj_end]) c2"
      by (rule rj_reads_append[OF 1(2) 2(2)]) auto
    with 2(1) show ?thesis by (auto simp: json_obj_simps json_obj_toks simp del: json_text.simps json_toks.simps)
  qed
  then show ?case unfolding rj_reads_val_def by blast
qed


section \<open>Properties\<close>

lemma wjson_init_fresh:
  assumes "wj_lvls c0 = []" "out \<noteq> []"
  shows "\<exists>w. wjson_init c0 out (length out) False = Inr w \<and> wj_buf w \<and> wj_text w = [] \<and> wj_room w = length out - 1 \<and>
    wj_abs_of w = \<lparr>wa_pretty = False, wa_lvls = [], wa_st = Wj_none, wa_comma = False, wa_first = wj_is_first c0\<rparr>"
  using assms
  by (cases out; cases "tl out") (simp_all add: wjson_init_def Let_def wj_defs wj_abs_of_def split: nat.split)

lemma wj_writes_tree:
  assumes "json_ok m (Json_obj kvs)" "json_depth (Json_obj kvs) \<le> 24" "wj_lvls c0 = []" "out \<noteq> []"
  shows "\<exists>w w'. wjson_init c0 out (length out) False = Inr w \<and>
    (if length (json_text (Json_obj kvs)) < length out
     then wj_execs D w (json_calls (Json_obj kvs)) = Inr (wjson_ok, w') \<and> wj_text w' = json_text (Json_obj kvs)
     else wj_execs D w (json_calls (Json_obj kvs)) = Inr (wjson_overflow, w'))"
proof -
  obtain w where w: "wjson_init c0 out (length out) False = Inr w" "wj_buf w" "wj_text w = []" "wj_room w = length out - 1"
    "wj_abs_of w = \<lparr>wa_pretty = False, wa_lvls = [], wa_st = Wj_none, wa_comma = False, wa_first = wj_is_first c0\<rparr>"
    using wjson_init_fresh[OF assms(3,4)] by blast
  have ok: "wa_ok (wj_abs_of w)" "wa_val_pos (wj_abs_of w)" by (auto simp: w(5) wa_ok_def wa_lvl_def wa_val_pos_def)
  have "length (wa_lvls (wj_abs_of w)) + json_depth (Json_obj kvs) \<le> wj_max_depth" "\<not> is_arr (Json_obj kvs)"
    using assms(2) by (simp_all add: w(5) wj_max_depth_def is_arr_def)
  then have "wa_writes D (wj_abs_of w) (json_calls (Json_obj kvs)) (json_text (Json_obj kvs)) (wa_after (wj_abs_of w) (Json_obj kvs))"
    using wa_writes_json[OF assms(1) ok(2)] by blast
  then have "wa_run D (wj_abs_of w) (json_calls (Json_obj kvs)) =
      Some (json_text (Json_obj kvs), wa_after (wj_abs_of w) (Json_obj kvs))"
    by (simp add: wa_writes_def w(5))
  moreover have "length (json_text (Json_obj kvs)) < length out \<longleftrightarrow> length (json_text (Json_obj kvs)) \<le> wj_room w"
    using assms(4) w(4) by (cases out) auto
  ultimately show ?thesis
    using wj_execs_run[OF w(2) ok(1)] w(1,3) by (fastforce split: if_splits)
qed

text \<open>
  On a zeroed struct, the calls for an object tree within the depth limit that has arrays
  only as last values either all succeed and leave exactly the compact text of the tree in
  the buffer, which is the case when the text and a terminator fit, or report an overflow.
\<close>

theorem json_write:
  assumes "json_ok m (Json_obj kvs)" "json_depth (Json_obj kvs) \<le> 24" "wj_lvls c0 = []" "out \<noteq> []"
  shows "\<exists>w w'. wjson_init c0 out (length out) False = Inr w \<and>
    (if length (json_text (Json_obj kvs)) < length out
     then wj_execs D w (json_calls (Json_obj kvs)) = Inr (wjson_ok, w') \<and> wj_text w' = json_text (Json_obj kvs)
     else wj_execs D w (json_calls (Json_obj kvs)) = Inr (wjson_overflow, w'))"
  using wj_writes_tree[OF assms] .

theorem json_write_witness:
  "\<exists>w w'. wjson_init wj_demo_ctx (replicate 20 NUL) (length (replicate 20 NUL)) False = Inr w \<and>
    (if length (json_text (Json_obj [(''a'', Json_arr [Json_int 7])])) < length (replicate 20 NUL)
     then wj_execs int_double w (json_calls (Json_obj [(''a'', Json_arr [Json_int 7])])) = Inr (wjson_ok, w') \<and>
       wj_text w' = json_text (Json_obj [(''a'', Json_arr [Json_int 7])])
     else wj_execs int_double w (json_calls (Json_obj [(''a'', Json_arr [Json_int 7])])) = Inr (wjson_overflow, w'))"
  by (rule json_write[where m = 8]) code_simp+

lemma json_read:
  assumes "json_ok m (Json_obj kvs)" "json_depth (Json_obj kvs) \<le> 24" "length buf = m" "exact_ints D"
  shows "rj_run D (rjson_init buf m) (json_text (Json_obj kvs) @ [NUL]) = Inr (End_fin, json_toks D (Json_obj kvs))"
proof -
  have at: "rj_at Rj_idle True [] m (rjson_init buf m)"
    using rjson_init_inv[OF assms(3)] by (simp add: rj_at_def rj_inv_def rjson_init_def)
  have kvs: "json_str_ok m (fst kv) \<and> json_ok m (snd kv) \<and> rj_reads_val D [Rl_obj] m (snd kv)" if kv: "kv \<in> set kvs" for kv
  proof -
    have "fold max (map snd (map (map_prod id json_depth) kvs)) 0 \<le> 23" using assms(2) by simp
    then have "json_depth (snd kv) \<le> 23" using kv by (force simp: fold_max_le)
    with rj_reads_json[OF assms(4), of m "snd kv" "[Rl_obj]"] json_ok_member[OF assms(1) kv] show ?thesis
      by (simp add: rj_max_depth_def)
  qed
  obtain c where c: "rj_obj_open [] m c" "rj_reads rj_delim D (rjson_init buf m) (''{'' @ commas (map member_text kvs))
      (Jt_obj_start # concat (map (member_toks D) kvs)) c"
    using rj_reads_obj_open[OF at _ kvs] by (auto simp: rj_max_depth_def)
  have "rj_run D c (''}'' @ [NUL]) = Inr (End_fin, [Jt_obj_end])" by (rule rj_run_fin[OF c(1)])
  moreover have "rj_rest (''}'' @ [NUL])" "rj_delim (hd (''}'' @ [NUL]))" by (auto simp: rj_rest_def)
  ultimately have "rj_run D (rjson_init buf m) ((''{'' @ commas (map member_text kvs)) @ ''}'' @ [NUL]) =
      Inr (End_fin, (Jt_obj_start # concat (map (member_toks D) kvs)) @ [Jt_obj_end])"
    using c(2) unfolding rj_reads_def by blast
  then show ?thesis by (simp add: json_obj_simps json_obj_toks del: json_text.simps json_toks.simps)
qed



end
