(* ===== verification/Curl.thy ===== *)
theory Curl
  imports Prelude
begin

text \<open>
  The slices of the vendored libcurl that \<^verbatim>\<open>src/src/https.c\<close> depends on step by step: the
  header list (\<^verbatim>\<open>src/lib/curl/lib/slist.c\<close>) and the options of an easy handle
  (\<^verbatim>\<open>src/lib/curl/lib/setopt.c\<close>). Everything else libcurl does (the transfer itself, when it
  calls back, what it reports) is an argument of the operations of \<open>Https\<close>.
\<close>

section \<open>Result codes\<close>

datatype curl_code = CURLE_OK | CURLE_BAD_FUNCTION_ARGUMENT | CURLE_OUT_OF_MEMORY | CURLE_other nat

text \<open>The codes of the multi interface; an error is \<open>CURLM_fail\<close> with its positive number.\<close>

datatype curlm_code = CURLM_CALL_MULTI_PERFORM | CURLM_OK | CURLM_fail nat

section \<open>Header lists\<close>

text \<open>
  A \<^verbatim>\<open>struct curl_slist *\<close> is the list of its strings, \<^verbatim>\<open>NULL\<close> the empty list. Whether the
  two allocations of an append succeed are arguments.
\<close>

definition slist_append_nodup :: "bool \<Rightarrow> string list \<Rightarrow> string \<Rightarrow> string list" where
  "slist_append_nodup malloc_ok list data = (if \<not> malloc_ok then [] else list @ [data])"

definition curl_slist_append :: "bool \<times> bool \<Rightarrow> string list \<Rightarrow> string \<Rightarrow> string list" where
  "curl_slist_append oks list data = (if \<not> fst oks then [] else slist_append_nodup (snd oks) list data)"

section \<open>Options of an easy handle\<close>

datatype curl_http_req = HTTPREQ_GET | HTTPREQ_POST | HTTPREQ_POST_FORM | HTTPREQ_POST_MIME | HTTPREQ_PUT | HTTPREQ_HEAD

text \<open>The part of \<^verbatim>\<open>struct UserDefined\<close> these options reach; \<open>None\<close> is a NULL pointer.\<close>

record curl_set =
  set_method :: curl_http_req
  set_no_body :: bool
  set_postfields :: "string option"
  set_postfieldsize :: int
  set_headers :: "string list"
  set_url :: "string option"
  set_timeout :: int
  set_verbose :: bool

definition curl_set_default :: curl_set where
  "curl_set_default = \<lparr>set_method = HTTPREQ_GET, set_no_body = False, set_postfields = None, set_postfieldsize = -1,
     set_headers = [], set_url = None, set_timeout = 0, set_verbose = False\<rparr>"

definition curl_max_input_length :: nat where "curl_max_input_length = 8000000"

definition curl_setstropt :: "bool \<Rightarrow> string \<Rightarrow> curl_code \<times> string option" where
  "curl_setstropt strdup_ok s =
     (if length s > curl_max_input_length then (CURLE_BAD_FUNCTION_ARGUMENT, None)
      else if \<not> strdup_ok then (CURLE_OUT_OF_MEMORY, None)
      else (CURLE_OK, Some s))"

text \<open>The options the program sets; the flag of \<open>Opt_url\<close> says whether its copy is allocated.\<close>

datatype curl_opt =
    Opt_verbose int
  | Opt_postfields "string option"
  | Opt_postfieldsize int
  | Opt_post int
  | Opt_httpget int
  | Opt_httpheader "string list"
  | Opt_url bool string
  | Opt_timeout int

text \<open>One definition per case of the switch of \<^verbatim>\<open>Curl_vsetopt\<close>, and the switch.\<close>

definition setopt_verbose :: "curl_set \<Rightarrow> int \<Rightarrow> curl_code \<times> curl_set" where
  [simp]: "setopt_verbose d arg = (CURLE_OK, d\<lparr>set_verbose := (arg \<noteq> 0)\<rparr>)"

definition setopt_postfields :: "curl_set \<Rightarrow> string option \<Rightarrow> curl_code \<times> curl_set" where
  [simp]: "setopt_postfields d s = (CURLE_OK, d\<lparr>set_postfields := s, set_method := HTTPREQ_POST\<rparr>)"

definition setopt_postfieldsize :: "curl_set \<Rightarrow> int \<Rightarrow> curl_code \<times> curl_set" where
  [simp]: "setopt_postfieldsize d bigsize =
     (if bigsize < -1 then (CURLE_BAD_FUNCTION_ARGUMENT, d) else (CURLE_OK, d\<lparr>set_postfieldsize := bigsize\<rparr>))"

definition setopt_post :: "curl_set \<Rightarrow> int \<Rightarrow> curl_code \<times> curl_set" where
  [simp]: "setopt_post d arg =
     (CURLE_OK, if arg \<noteq> 0 then d\<lparr>set_method := HTTPREQ_POST, set_no_body := False\<rparr> else d\<lparr>set_method := HTTPREQ_GET\<rparr>)"

definition setopt_httpget :: "curl_set \<Rightarrow> int \<Rightarrow> curl_code \<times> curl_set" where
  [simp]: "setopt_httpget d arg =
     (CURLE_OK, if arg \<noteq> 0 then d\<lparr>set_method := HTTPREQ_GET, set_no_body := False\<rparr> else d)"

definition setopt_httpheader :: "curl_set \<Rightarrow> string list \<Rightarrow> curl_code \<times> curl_set" where
  [simp]: "setopt_httpheader d h = (CURLE_OK, d\<lparr>set_headers := h\<rparr>)"

definition setopt_url :: "curl_set \<Rightarrow> bool \<Rightarrow> string \<Rightarrow> curl_code \<times> curl_set" where
  [simp]: "setopt_url d strdup_ok s = (let (r, u) = curl_setstropt strdup_ok s in (r, d\<lparr>set_url := u\<rparr>))"

definition setopt_timeout :: "curl_set \<Rightarrow> int \<Rightarrow> curl_code \<times> curl_set" where
  [simp]: "setopt_timeout d arg =
     (if 0 \<le> arg \<and> arg \<le> int_max div 1000 then (CURLE_OK, d\<lparr>set_timeout := arg * 1000\<rparr>)
      else (CURLE_BAD_FUNCTION_ARGUMENT, d))"

fun curl_vsetopt :: "curl_set \<Rightarrow> curl_opt \<Rightarrow> curl_code \<times> curl_set" where
  "curl_vsetopt d (Opt_verbose arg) = setopt_verbose d arg"
| "curl_vsetopt d (Opt_postfields s) = setopt_postfields d s"
| "curl_vsetopt d (Opt_postfieldsize n) = setopt_postfieldsize d n"
| "curl_vsetopt d (Opt_post arg) = setopt_post d arg"
| "curl_vsetopt d (Opt_httpget arg) = setopt_httpget d arg"
| "curl_vsetopt d (Opt_httpheader h) = setopt_httpheader d h"
| "curl_vsetopt d (Opt_url strdup_ok s) = setopt_url d strdup_ok s"
| "curl_vsetopt d (Opt_timeout arg) = setopt_timeout d arg"

text \<open>A timeout accepted is representable in milliseconds as an \<^verbatim>\<open>unsigned int\<close>.\<close>

lemma curl_timeout_range:
  "fst (curl_vsetopt d (Opt_timeout t)) = CURLE_OK \<Longrightarrow>
   0 \<le> set_timeout (snd (curl_vsetopt d (Opt_timeout t))) \<and> set_timeout (snd (curl_vsetopt d (Opt_timeout t))) \<le> int_max"
  by (auto simp: int_max_def split: if_splits)

end
