(* ===== verification/Curl_Splay.thy ===== *)
theory Curl_Splay
  imports Prelude "HOL-Library.Multiset"
begin

text \<open>
  The splay tree in which libcurl keeps the times at which its transfers want to be called
  (\<^verbatim>\<open>src/lib/curl/lib/splay.c\<close>, \<^verbatim>\<open>splay.h\<close>). It implements a queue sorted by time, first come
  first served among equal times: the interface \<open>time_queue\<close>, with the queue as its
  abstract value.
\<close>

section \<open>Times\<close>

datatype curltime = Curltime (tv_sec: int) (tv_usec: int)

instantiation curltime :: linorder
begin

definition less_curltime :: "curltime \<Rightarrow> curltime \<Rightarrow> bool" where
  "less_curltime s t \<longleftrightarrow> tv_sec s < tv_sec t \<or> tv_sec s = tv_sec t \<and> tv_usec s < tv_usec t"

definition less_eq_curltime :: "curltime \<Rightarrow> curltime \<Rightarrow> bool" where
  "less_eq_curltime s t \<longleftrightarrow> s < t \<or> s = t"

instance
  by standard (auto simp: less_curltime_def less_eq_curltime_def intro: curltime.expand)

end

definition Curl_splaycomparekeys :: "curltime \<Rightarrow> curltime \<Rightarrow> int" where
  "Curl_splaycomparekeys i j =
     (if tv_sec i < tv_sec j then -1 else if tv_sec i > tv_sec j then 1
      else if tv_usec i < tv_usec j then -1 else if tv_usec i > tv_usec j then 1 else 0)"

lemma comparekeys [simp]:
  "Curl_splaycomparekeys i j < 0 \<longleftrightarrow> i < j" "Curl_splaycomparekeys i j > 0 \<longleftrightarrow> j < i" "Curl_splaycomparekeys i j = 0 \<longleftrightarrow> i = j"
  by (auto simp: Curl_splaycomparekeys_def less_curltime_def intro: curltime.expand)

definition tv_zero :: curltime where "tv_zero = Curltime 0 0"
definition KEY_NOTUSED :: curltime where "KEY_NOTUSED = Curltime (-1) (-1)"

section \<open>The tree\<close>

text \<open>
  A tree of \<^verbatim>\<open>struct Curl_tree\<close> nodes, \<open>Tip\<close> for NULL. The nodes with one key hang on a circular
  list (\<^verbatim>\<open>samen\<close>, \<^verbatim>\<open>samep\<close>) from the one that is in the tree: that one comes first in \<open>nodes\<close>, then
  the others in the order of \<^verbatim>\<open>samen\<close>; their own \<^verbatim>\<open>key\<close> is \<open>KEY_NOTUSED\<close>.
\<close>

datatype 'n Curl_tree = Tip | Node (smaller: "'n Curl_tree") (key: curltime) (nodes: "'n list") (larger: "'n Curl_tree")

text \<open>
  The two trees that \<^verbatim>\<open>Curl_splay\<close> builds on its way down: the nodes linked to \<^verbatim>\<open>l\<close> and to \<^verbatim>\<open>r\<close>,
  the last one first, each with its other subtree. The assembly hangs the subtrees of the
  final root where the next node would go, and the two trees below the root.
\<close>

type_synonym 'n linked = "('n Curl_tree \<times> curltime \<times> 'n list) list"

fun hang_larger :: "'n linked \<Rightarrow> 'n Curl_tree \<Rightarrow> 'n Curl_tree" where
  "hang_larger [] t = t"
| "hang_larger ((a, k, ns) # l) t = hang_larger l (Node a k ns t)"

fun hang_smaller :: "'n linked \<Rightarrow> 'n Curl_tree \<Rightarrow> 'n Curl_tree" where
  "hang_smaller [] t = t"
| "hang_smaller ((b, k, ns) # r) t = hang_smaller r (Node t k ns b)"

fun splay_assemble :: "'n linked \<Rightarrow> 'n linked \<Rightarrow> 'n Curl_tree \<Rightarrow> 'n Curl_tree" where
  "splay_assemble l r Tip = Tip"
| "splay_assemble l r (Node a k ns b) = Node (hang_larger l a) k ns (hang_smaller r b)"

function splay_loop :: "curltime \<Rightarrow> 'n linked \<Rightarrow> 'n linked \<Rightarrow> 'n Curl_tree \<Rightarrow> 'n Curl_tree" where
  "splay_loop i l r Tip = Tip"
| "splay_loop i l r (Node a k ns b) =
     (if Curl_splaycomparekeys i k < 0 then
        case a of
          Tip \<Rightarrow> splay_assemble l r (Node a k ns b)
        | Node ya yk yns yb \<Rightarrow>
            if Curl_splaycomparekeys i yk < 0 then
              let t = Node yb k ns b in
              if ya = Tip then splay_assemble l r (Node ya yk yns t)
              else splay_loop i l ((t, yk, yns) # r) ya
            else splay_loop i l ((b, k, ns) # r) a
      else if Curl_splaycomparekeys i k > 0 then
        case b of
          Tip \<Rightarrow> splay_assemble l r (Node a k ns b)
        | Node ya yk yns yb \<Rightarrow>
            if Curl_splaycomparekeys i yk > 0 then
              let t = Node a k ns ya in
              if yb = Tip then splay_assemble l r (Node t yk yns yb)
              else splay_loop i ((t, yk, yns) # l) r yb
            else splay_loop i ((a, k, ns) # l) r b
      else splay_assemble l r (Node a k ns b))"
  by pat_completeness auto
termination by (relation "measure (\<lambda>(i, l, r, t). size t)") auto

declare splay_loop.simps(2) [simp del]

definition Curl_splay :: "curltime \<Rightarrow> 'n Curl_tree \<Rightarrow> 'n Curl_tree" where
  "Curl_splay i t = splay_loop i [] [] t"

definition Curl_splayinsert :: "curltime \<Rightarrow> 'n Curl_tree \<Rightarrow> 'n \<Rightarrow> 'n Curl_tree" where
  "Curl_splayinsert i t node =
     (case Curl_splay i t of
        Tip \<Rightarrow> Node Tip i [node] Tip
      | Node a k ns b \<Rightarrow>
          if Curl_splaycomparekeys i k = 0 then Node a k (ns @ [node]) b
          else if Curl_splaycomparekeys i k < 0 then Node a i [node] (Node Tip k ns b)
          else Node (Node a k ns Tip) i [node] b)"

text \<open>The second result is \<^verbatim>\<open>*removed\<close>.\<close>

definition Curl_splaygetbest :: "curltime \<Rightarrow> 'n Curl_tree \<Rightarrow> 'n Curl_tree \<times> 'n option" where
  "Curl_splaygetbest i t =
     (case Curl_splay tv_zero t of
        Tip \<Rightarrow> (Tip, None)
      | Node a k ns b \<Rightarrow>
          if Curl_splaycomparekeys i k < 0 then (Node a k ns b, None)
          else if tl ns \<noteq> [] then (Node a k (tl ns) b, Some (hd ns))
          else (b, Some (hd ns)))"

text \<open>
  The field \<^verbatim>\<open>key\<close> of a node: that of its place in the tree when it is the first of its list,
  \<open>KEY_NOTUSED\<close> further down the list, and \<open>out\<close>, whatever it was left with, outside the tree.
\<close>

fun node_key :: "curltime \<Rightarrow> 'n Curl_tree \<Rightarrow> 'n \<Rightarrow> curltime" where
  "node_key out Tip n = out"
| "node_key out (Node a k ns b) n =
     (if ns \<noteq> [] \<and> hd ns = n then k else if n \<in> set ns then KEY_NOTUSED else node_key (node_key out b n) a n)"

fun same_unlink :: "'n \<Rightarrow> 'n Curl_tree \<Rightarrow> 'n Curl_tree" where
  "same_unlink n Tip = Tip"
| "same_unlink n (Node a k ns b) = Node (same_unlink n a) k (if ns \<noteq> [] \<and> hd ns = n then ns else remove1 n ns) (same_unlink n b)"

fun tree_nodes :: "'n Curl_tree \<Rightarrow> 'n list" where
  "tree_nodes Tip = []"
| "tree_nodes (Node a k ns b) = tree_nodes a @ ns @ tree_nodes b"

fun subtree_at :: "'n \<Rightarrow> 'n Curl_tree \<Rightarrow> 'n Curl_tree" where
  "subtree_at n Tip = Tip"
| "subtree_at n (Node a k ns b) =
     (if n \<in> set ns then Node a k ns b else if n \<in> set (tree_nodes a) then subtree_at n a else subtree_at n b)"

text \<open>
  The result and the tree at the caller's root pointer, which is the argument \<^verbatim>\<open>newroot\<close> too. With
  result 2 the nodes have been moved but the pointer still leads to the old root. A node
  outside the tree with the key of a list member was removed before; its \<^verbatim>\<open>samen\<close> is itself.
\<close>

definition Curl_splayremove :: "curltime \<Rightarrow> 'n Curl_tree \<Rightarrow> 'n \<Rightarrow> int \<times> 'n Curl_tree" where
  "Curl_splayremove out t removenode =
     (if t = Tip then (1, t)
      else let rk = node_key out t removenode in
      if Curl_splaycomparekeys KEY_NOTUSED rk = 0 then
        if removenode \<notin> set (tree_nodes t) then (3, t) else (0, same_unlink removenode t)
      else case Curl_splay rk t of
        Tip \<Rightarrow> (2, Tip)
      | Node a k ns b \<Rightarrow>
          if hd ns \<noteq> removenode then (2, subtree_at (hd (nodes t)) (Node a k ns b))
          else if tl ns \<noteq> [] then (0, Node a k (tl ns) b)
          else if a = Tip then (0, b)
          else case Curl_splay rk a of Tip \<Rightarrow> (0, Tip) | Node xa xk xns xb \<Rightarrow> (0, Node xa xk xns b))"

section \<open>Splaying keeps the order and brings the key to the root\<close>

fun inorder :: "'n Curl_tree \<Rightarrow> (curltime \<times> 'n list) list" where
  "inorder Tip = []"
| "inorder (Node a k ns b) = inorder a @ (k, ns) # inorder b"

definition linked_smaller :: "'n linked \<Rightarrow> (curltime \<times> 'n list) list" where
  "linked_smaller l = concat (map (\<lambda>(a, k, ns). inorder a @ [(k, ns)]) (rev l))"

definition linked_larger :: "'n linked \<Rightarrow> (curltime \<times> 'n list) list" where
  "linked_larger r = concat (map (\<lambda>(b, k, ns). (k, ns) # inorder b) r)"

lemma linked_simps [simp]:
  "linked_smaller [] = []" "linked_smaller ((a, k, ns) # l) = linked_smaller l @ inorder a @ [(k, ns)]"
  "linked_larger [] = []" "linked_larger ((b, k, ns) # r) = (k, ns) # inorder b @ linked_larger r"
  by (simp_all add: linked_smaller_def linked_larger_def)

lemma inorder_hang_larger [simp]: "inorder (hang_larger l t) = linked_smaller l @ inorder t"
  by (induction l t rule: hang_larger.induct) simp_all

lemma inorder_hang_smaller [simp]: "inorder (hang_smaller r t) = inorder t @ linked_larger r"
  by (induction r t rule: hang_smaller.induct) simp_all

lemma inorder_assemble: "t \<noteq> Tip \<Longrightarrow> inorder (splay_assemble l r t) = linked_smaller l @ inorder t @ linked_larger r"
  by (cases t) auto

text \<open>The keys of \<open>xs\<close> are all below \<open>i\<close>, or all above.\<close>

abbreviation keys_below :: "(curltime \<times> 'n list) list \<Rightarrow> curltime \<Rightarrow> bool" where
  "keys_below xs i \<equiv> \<forall>x \<in> set xs. fst x < i"

abbreviation keys_above :: "(curltime \<times> 'n list) list \<Rightarrow> curltime \<Rightarrow> bool" where
  "keys_above xs i \<equiv> \<forall>x \<in> set xs. i < fst x"

definition bst :: "'n Curl_tree \<Rightarrow> bool" where
  "bst t \<longleftrightarrow> sorted_wrt (\<lambda>x y. fst x < fst y) (inorder t)"

lemma bst_simps [simp]:
  "bst Tip" "bst (Node a k ns b) \<longleftrightarrow> bst a \<and> bst b \<and> keys_below (inorder a) k \<and> keys_above (inorder b) k"
  by (auto simp: bst_def sorted_wrt_append intro: less_trans)

text \<open>One turn of the loop: it ends with \<open>t'\<close> at the root, or goes on further down.\<close>

definition splay_ends :: "curltime \<Rightarrow> 'n Curl_tree \<Rightarrow> 'n Curl_tree \<Rightarrow> bool" where
  "splay_ends i t t' \<longleftrightarrow> t' \<noteq> Tip \<and> inorder t' = inorder t \<and>
     (key t' = i \<or> i < key t' \<and> smaller t' = Tip \<or> key t' < i \<and> larger t' = Tip)"

definition splay_goes :: "curltime \<Rightarrow> 'n linked \<Rightarrow> 'n linked \<Rightarrow> 'n Curl_tree \<Rightarrow> 'n linked \<Rightarrow> 'n linked \<Rightarrow> 'n Curl_tree \<Rightarrow> bool" where
  "splay_goes i l r t l' r' t' \<longleftrightarrow> t' \<noteq> Tip \<and> size t' < size t \<and>
     linked_smaller l' @ inorder t' @ linked_larger r' = linked_smaller l @ inorder t @ linked_larger r \<and>
     (bst t \<and> keys_below (linked_smaller l) i \<and> keys_above (linked_larger r) i \<longrightarrow>
      bst t' \<and> keys_below (linked_smaller l') i \<and> keys_above (linked_larger r') i)"

definition splay_turns :: "curltime \<Rightarrow> 'n linked \<Rightarrow> 'n linked \<Rightarrow> 'n Curl_tree \<Rightarrow> bool" where
  "splay_turns i l r t \<longleftrightarrow> (\<exists>t'. splay_loop i l r t = splay_assemble l r t' \<and> splay_ends i t t') \<or>
     (\<exists>l' r' t'. splay_loop i l r t = splay_loop i l' r' t' \<and> splay_goes i l r t l' r' t')"

lemma splay_turnsI:
  "splay_loop i l r t = splay_assemble l r t' \<Longrightarrow> splay_ends i t t' \<Longrightarrow> splay_turns i l r t"
  "splay_loop i l r t = splay_loop i l' r' t'' \<Longrightarrow> splay_goes i l r t l' r' t'' \<Longrightarrow> splay_turns i l r t"
  unfolding splay_turns_def by blast+

lemma turn_smaller:
  assumes "i < k"
  shows "splay_turns i l r (Node a k ns b)"
proof (cases a)
  case Tip
  then show ?thesis
    using assms by (intro splay_turnsI(1)[of _ _ _ _ "Node a k ns b"]) (simp_all add: splay_loop.simps(2) splay_ends_def)
next
  case a: (Node ya yk yns yb)
  consider "\<not> i < yk" | "i < yk" "ya = Tip" | "i < yk" "ya \<noteq> Tip" by blast
  then show ?thesis
  proof cases
    case 1
    then show ?thesis using assms a
      by (intro splay_turnsI(2)[of _ _ _ _ l "(b, k, ns) # r" a]) (auto simp: splay_loop.simps(2)[of i l r] splay_goes_def)
  next
    case 2
    then show ?thesis using assms a
      by (intro splay_turnsI(1)[of _ _ _ _ "Node ya yk yns (Node yb k ns b)"]) (simp_all add: splay_loop.simps(2) splay_ends_def)
  next
    case 3
    then show ?thesis using assms a
      by (intro splay_turnsI(2)[of _ _ _ _ l "(Node yb k ns b, yk, yns) # r" ya]) (auto simp: splay_loop.simps(2)[of i l r] splay_goes_def)
  qed
qed

lemma turn_larger:
  assumes "k < i"
  shows "splay_turns i l r (Node a k ns b)"
proof (cases b)
  case Tip
  then show ?thesis
    using assms less_not_sym[OF assms] by (intro splay_turnsI(1)[of _ _ _ _ "Node a k ns b"]) (simp_all add: splay_loop.simps(2) splay_ends_def)
next
  case b: (Node ya yk yns yb)
  consider "\<not> yk < i" | "yk < i" "yb = Tip" | "yk < i" "yb \<noteq> Tip" by blast
  then show ?thesis
  proof cases
    case 1
    then show ?thesis using assms less_not_sym[OF assms] b
      by (intro splay_turnsI(2)[of _ _ _ _ "(a, k, ns) # l" r b]) (auto simp: splay_loop.simps(2)[of i l r] splay_goes_def)
  next
    case 2
    then show ?thesis using assms less_not_sym[OF assms] b
      by (intro splay_turnsI(1)[of _ _ _ _ "Node (Node a k ns ya) yk yns yb"]) (simp_all add: splay_loop.simps(2) splay_ends_def)
  next
    case 3
    then show ?thesis using assms less_not_sym[OF assms] b
      by (intro splay_turnsI(2)[of _ _ _ _ "(Node a k ns ya, yk, yns) # l" r yb]) (auto simp: splay_loop.simps(2)[of i l r] splay_goes_def)
  qed
qed

lemma loop_turn: "t \<noteq> Tip \<Longrightarrow> splay_turns i l r t"
proof (cases t)
  case t: (Node a k ns b)
  show ?thesis
  proof (cases i k rule: linorder_cases)
    case equal
    with t show ?thesis by (intro splay_turnsI(1)[of _ _ _ _ t]) (simp_all add: splay_loop.simps(2) splay_ends_def)
  qed (simp_all add: t turn_smaller turn_larger)
qed simp

lemma inorder_loop: "t \<noteq> Tip \<Longrightarrow> inorder (splay_loop i l r t) = linked_smaller l @ inorder t @ linked_larger r"
proof (induction t arbitrary: l r rule: measure_induct_rule[of size])
  case (less t)
  from loop_turn[OF less.prems, of i l r] show ?case unfolding splay_turns_def
  proof (elim disjE exE conjE)
    fix t' assume "splay_loop i l r t = splay_assemble l r t'" "splay_ends i t t'"
    then show ?thesis by (simp add: splay_ends_def inorder_assemble)
  next
    fix l' r' t' assume "splay_loop i l r t = splay_loop i l' r' t'" "splay_goes i l r t l' r' t'"
    with less.IH[of t' l' r'] show ?thesis by (simp add: splay_goes_def)
  qed
qed

lemma inorder_splay [simp]: "inorder (Curl_splay i t) = inorder t"
  by (cases t) (auto simp: Curl_splay_def inorder_loop)

lemma bst_splay [simp]: "bst (Curl_splay i t) = bst t"
  by (simp add: bst_def)

lemma loop_root:
  "t \<noteq> Tip \<Longrightarrow> bst t \<Longrightarrow> keys_below (linked_smaller l) i \<Longrightarrow> keys_above (linked_larger r) i \<Longrightarrow>
   \<exists>a k ns b. splay_loop i l r t = Node a k ns b \<and> keys_below (inorder a) i \<and> keys_above (inorder b) i"
proof (induction t arbitrary: l r rule: measure_induct_rule[of size])
  case (less t)
  from loop_turn[OF less.prems(1), of i l r] show ?case unfolding splay_turns_def
  proof (elim disjE exE conjE)
    fix t' assume t': "splay_loop i l r t = splay_assemble l r t'" "splay_ends i t t'"
    then have "bst t'" using less.prems(2) by (simp add: splay_ends_def bst_def)
    with t' less.prems(3,4) show ?thesis
      by (cases t') (auto simp: splay_ends_def intro: less_trans)
  next
    fix l' r' t' assume "splay_loop i l r t = splay_loop i l' r' t'" "splay_goes i l r t l' r' t'"
    with less.IH[of t' l' r'] less.prems show ?thesis by (simp add: splay_goes_def)
  qed
qed

lemma splay_root:
  assumes "t \<noteq> Tip" "bst t"
  obtains a k ns b where "Curl_splay i t = Node a k ns b" "keys_below (inorder a) i" "keys_above (inorder b) i"
  using loop_root[OF assms, of "[]" i "[]"] unfolding Curl_splay_def by auto

section \<open>The queue\<close>

text \<open>What the tree stands for: its nodes with their times, in the order in which they are due.\<close>

definition queue :: "'n Curl_tree \<Rightarrow> (curltime \<times> 'n) list" where
  "queue t = concat (map (\<lambda>(k, ns). map (Pair k) ns) (inorder t))"

lemma queue_simps [simp]: "queue Tip = []" "queue (Node a k ns b) = queue a @ map (Pair k) ns @ queue b"
  by (simp_all add: queue_def)

lemma queue_splay [simp]: "queue (Curl_splay i t) = queue t"
  by (simp add: queue_def)

definition tree_inv :: "'n Curl_tree \<Rightarrow> bool" where
  "tree_inv t \<longleftrightarrow> bst t \<and> (\<forall>x \<in> set (inorder t). snd x \<noteq> [] \<and> tv_zero \<le> fst x) \<and> distinct (map snd (queue t))"

lemma tree_inv_splay [simp]: "tree_inv (Curl_splay i t) = tree_inv t"
  by (simp add: tree_inv_def)

lemma queue_below: "keys_below (inorder t) i \<Longrightarrow> \<forall>x \<in> set (queue t). fst x < i"
  by (fastforce simp: queue_def)

lemma queue_above: "keys_above (inorder t) i \<Longrightarrow> \<forall>x \<in> set (queue t). i < fst x"
  by (fastforce simp: queue_def)

text \<open>The specification: a list sorted by time.\<close>

definition enqueue :: "curltime \<Rightarrow> 'n \<Rightarrow> (curltime \<times> 'n) list \<Rightarrow> (curltime \<times> 'n) list" where
  "enqueue i n q = filter (\<lambda>x. fst x \<le> i) q @ (i, n) # filter (\<lambda>x. i < fst x) q"

lemma filter_below:
  fixes i :: curltime
  shows "\<forall>x \<in> set q. fst x < i \<Longrightarrow> filter (\<lambda>x. fst x \<le> i) q = q \<and> filter (\<lambda>x. i < fst x) q = []"
  by (induction q) auto

lemma filter_above:
  fixes i :: curltime
  shows "\<forall>x \<in> set q. i < fst x \<Longrightarrow> filter (\<lambda>x. fst x \<le> i) q = [] \<and> filter (\<lambda>x. i < fst x) q = q"
  by (induction q) auto

lemma queue_insert:
  assumes "bst t"
  shows "queue (Curl_splayinsert i t n) = enqueue i n (queue t)"
proof (cases "t = Tip")
  case True
  then show ?thesis by (simp add: Curl_splayinsert_def Curl_splay_def enqueue_def)
next
  case False
  then obtain a k ns b where s: "Curl_splay i t = Node a k ns b" "keys_below (inorder a) i" "keys_above (inorder b) i"
    using splay_root[OF False assms] by blast
  have q: "queue t = queue a @ map (Pair k) ns @ queue b" using queue_splay[of i t] by (simp add: s(1))
  note ab = filter_below[OF queue_below[OF s(2)]] filter_above[OF queue_above[OF s(3)]]
  with s(1) q show ?thesis
    by (cases i k rule: linorder_cases) (auto simp: Curl_splayinsert_def enqueue_def filter_map comp_def less_imp_le filter_empty_conv)
qed

lemma mset_enqueue: "mset (enqueue i n q) = add_mset (i, n) (mset q)"
proof -
  have "filter (\<lambda>x. i < fst x) q = filter (\<lambda>x. \<not> fst x \<le> i) q" by (simp add: not_le)
  then show ?thesis by (simp add: enqueue_def mset_filter)
qed

lemma distinct_enqueue: "distinct (map snd (enqueue i n q)) \<longleftrightarrow> n \<notin> snd ` set q \<and> distinct (map snd q)"
proof -
  have "mset (map snd (enqueue i n q)) = mset (n # map snd q)" by (simp add: mset_enqueue)
  from mset_eq_imp_distinct_iff[OF this] show ?thesis by simp
qed

lemma insert_inv:
  assumes "tree_inv t" "tv_zero \<le> i" "n \<notin> snd ` set (queue t)"
  shows "tree_inv (Curl_splayinsert i t n)"
proof -
  have t: "bst t" "\<forall>x \<in> set (inorder t). snd x \<noteq> [] \<and> tv_zero \<le> fst x" "distinct (map snd (queue t))"
    using assms(1) by (simp_all add: tree_inv_def)
  have "bst (Curl_splayinsert i t n) \<and> (\<forall>x \<in> set (inorder (Curl_splayinsert i t n)). snd x \<noteq> [] \<and> tv_zero \<le> fst x)"
  proof (cases "t = Tip")
    case True
    with assms(2) show ?thesis by (simp add: Curl_splayinsert_def Curl_splay_def)
  next
    case False
    with t(1) obtain a k ns b where s: "Curl_splay i t = Node a k ns b" "keys_below (inorder a) i" "keys_above (inorder b) i"
      using splay_root by blast
    have "bst (Node a k ns b)" "inorder t = inorder a @ (k, ns) # inorder b"
      using t(1) bst_splay[of i t] inorder_splay[of i t] by (simp_all add: s(1))
    with t(2) s assms(2) show ?thesis
      by (cases i k rule: linorder_cases) (simp_all add: Curl_splayinsert_def ball_Un)
  qed
  with queue_insert[OF t(1), of i n] assms(3) t(3) show ?thesis by (simp add: tree_inv_def distinct_enqueue)
qed

lemma inorder_empty: "inorder t = [] \<longleftrightarrow> t = Tip"
  by (cases t) auto

lemma splay_least:
  assumes "tree_inv t" "t \<noteq> Tip"
  obtains k ns b where "Curl_splay tv_zero t = Node Tip k ns b" "queue t = map (Pair k) ns @ queue b" "ns \<noteq> []" "tree_inv (Node Tip k ns b)"
proof -
  have "bst t" using assms(1) by (simp add: tree_inv_def)
  then obtain a k ns b where s: "Curl_splay tv_zero t = Node a k ns b" "keys_below (inorder a) tv_zero" "keys_above (inorder b) tv_zero"
    by (rule splay_root[OF assms(2)])
  have inv: "tree_inv (Node a k ns b)" using assms(1) tree_inv_splay[of tv_zero t] unfolding s(1) by simp
  have "a = Tip"
  proof (cases a)
    case (Node a' k' ns' b')
    with inv s(2) have "k' < tv_zero" "tv_zero \<le> k'" by (simp_all add: tree_inv_def)
    then show ?thesis by simp
  qed
  moreover have "queue t = queue a @ map (Pair k) ns @ queue b" using queue_splay[of tv_zero t] unfolding s(1) by simp
  moreover have "ns \<noteq> []" using inv by (simp add: tree_inv_def)
  ultimately show thesis using that s(1) inv by simp
qed

lemma getbest_refines:
  assumes "tree_inv t"
  shows "case queue t of
      [] \<Rightarrow> Curl_splaygetbest i t = (Tip, None)
    | (k, n) # q \<Rightarrow> \<exists>t'. tree_inv t' \<and>
        (if i < k then Curl_splaygetbest i t = (t', None) \<and> queue t' = queue t
         else Curl_splaygetbest i t = (t', Some n) \<and> queue t' = q)"
proof (cases "t = Tip")
  case True
  then show ?thesis by (simp add: Curl_splaygetbest_def Curl_splay_def)
next
  case False
  then obtain k ns b where s: "Curl_splay tv_zero t = Node Tip k ns b" "queue t = map (Pair k) ns @ queue b" "ns \<noteq> []"
    "tree_inv (Node Tip k ns b)"
    using splay_least[OF assms] by blast
  obtain n ms where ns: "ns = n # ms" using s(3) by (cases ns) auto
  have "tree_inv (Node Tip k ms b)" if "ms \<noteq> []" using s(4) that ns by (simp add: tree_inv_def)
  moreover have "tree_inv b" using s(4) by (simp add: tree_inv_def)
  ultimately show ?thesis using s ns by (cases "i < k"; cases "ms = []") (simp_all add: Curl_splaygetbest_def)
qed

section \<open>Removing a node\<close>

lemma notused_before: "tv_zero \<le> k \<Longrightarrow> k \<noteq> KEY_NOTUSED" "tv_zero \<le> k \<Longrightarrow> KEY_NOTUSED \<noteq> k"
  by (auto simp: tv_zero_def KEY_NOTUSED_def less_eq_curltime_def less_curltime_def)

lemma tree_nodes_queue: "tree_nodes t = map snd (queue t)"
  by (induction t) (simp_all add: comp_def)

lemma node_key_out: "n \<notin> snd ` set (queue t) \<Longrightarrow> node_key out t n = out"
  by (induction out t n rule: node_key.induct) (auto simp: image_Un image_image)

lemma queue_mem: "(k, ns) \<in> set (inorder t) \<Longrightarrow> n \<in> set ns \<Longrightarrow> (k, n) \<in> set (queue t)"
  by (force simp: queue_def)

lemma node_key_in:
  "distinct (map snd (queue t)) \<Longrightarrow> (k, ns) \<in> set (inorder t) \<Longrightarrow> n \<in> set ns \<Longrightarrow>
   node_key out t n = (if hd ns = n then k else KEY_NOTUSED)"
proof (induction t arbitrary: out)
  case (Node a k' ns' b)
  have d: "distinct (map snd (queue a))" "distinct (map snd (queue b))" "snd ` set (queue a) \<inter> set ns' = {}"
    "snd ` set (queue a) \<inter> snd ` set (queue b) = {}" "snd ` set (queue b) \<inter> set ns' = {}"
    using Node.prems(1) by (auto simp: comp_def image_Un image_image)
  from Node.prems(2) consider "(k, ns) \<in> set (inorder a)" | "k = k'" "ns = ns'" | "(k, ns) \<in> set (inorder b)" by auto
  then show ?case
  proof cases
    case 1
    from queue_mem[OF this Node.prems(3)] have "n \<in> snd ` set (queue a)" by force
    with d have "n \<notin> set ns'" "n \<notin> snd ` set (queue b)" by blast+
    with Node.IH(1)[OF d(1) 1 Node.prems(3)] show ?thesis by (auto simp: node_key_out)
  next
    case 2
    with Node.prems(3) show ?thesis by auto
  next
    case 3
    from queue_mem[OF this Node.prems(3)] have "n \<in> snd ` set (queue b)" by force
    with d have "n \<notin> set ns'" "n \<notin> snd ` set (queue a)" by blast+
    with Node.IH(2)[OF d(2) 3 Node.prems(3)] show ?thesis by (auto simp: node_key_out)
  qed
qed simp

lemma queue_unlink:
  assumes "distinct (map snd (queue t))" "\<forall>x \<in> set (inorder t). snd x = [] \<or> hd (snd x) \<noteq> n"
  shows "queue (same_unlink n t) = filter (\<lambda>x. snd x \<noteq> n) (queue t)"
  using assms
proof (induction t)
  case (Node a k ns b)
  have "remove1 n ns = filter (\<lambda>x. x \<noteq> n) ns"
    using Node.prems(1) by (simp add: comp_def distinct_remove1_removeAll removeAll_filter_not_eq) (metis (lifting))
  with Node show ?case by (auto simp: filter_map comp_def)
qed simp

lemma inorder_unlink:
  "\<forall>x \<in> set (inorder t). snd x = [] \<or> hd (snd x) \<noteq> n \<Longrightarrow> inorder (same_unlink n t) = map (\<lambda>(k, ns). (k, remove1 n ns)) (inorder t)"
  by (induction t) auto

lemma unlink_inv:
  assumes "tree_inv t" "\<forall>x \<in> set (inorder t). hd (snd x) \<noteq> n"
  shows "tree_inv (same_unlink n t)"
proof -
  have i: "inorder (same_unlink n t) = map (\<lambda>(k, ns). (k, remove1 n ns)) (inorder t)" using assms(2) by (intro inorder_unlink) blast
  have "remove1 n ns \<noteq> []" if "(k, ns) \<in> set (inorder t)" for k ns
    using assms that by (cases ns) (fastforce simp: tree_inv_def)+
  moreover have "bst (same_unlink n t)" using assms(1) unfolding tree_inv_def bst_def i by (simp add: sorted_wrt_map split_beta)
  moreover have "distinct (map snd (queue (same_unlink n t)))"
    using assms queue_unlink[of t n] by (auto simp: tree_inv_def distinct_map_filter)
  ultimately show ?thesis using assms(1) unfolding tree_inv_def i by fastforce
qed

lemma splay_to_key:
  assumes "tree_inv t" "(k, ns) \<in> set (inorder t)"
  obtains a b where "Curl_splay k t = Node a k ns b" "tree_inv (Node a k ns b)" "queue t = queue a @ map (Pair k) ns @ queue b"
proof -
  have t: "t \<noteq> Tip" "bst t" using assms by (auto simp: tree_inv_def)
  obtain a k' ns' b where s: "Curl_splay k t = Node a k' ns' b" "keys_below (inorder a) k" "keys_above (inorder b) k"
    by (rule splay_root[OF t])
  have "inorder t = inorder a @ (k', ns') # inorder b" using inorder_splay[of k t] unfolding s(1) by simp
  with assms(2) s(2,3) have "k' = k" "ns' = ns" by fastforce+
  moreover have "tree_inv (Node a k' ns' b)" using assms(1) tree_inv_splay[of k t] unfolding s(1) by simp
  moreover have "queue t = queue a @ map (Pair k') ns' @ queue b" using queue_splay[of k t] unfolding s(1) by simp
  ultimately show thesis using that s(1) by simp
qed

lemma splay_greatest:
  assumes "tree_inv a" "a \<noteq> Tip" "keys_below (inorder a) k"
  obtains xa xk xns where "Curl_splay k a = Node xa xk xns Tip" "inorder a = inorder xa @ [(xk, xns)]"
proof -
  have "bst a" using assms(1) by (simp add: tree_inv_def)
  then obtain xa xk xns xb where s: "Curl_splay k a = Node xa xk xns xb" "keys_below (inorder xa) k" "keys_above (inorder xb) k"
    by (rule splay_root[OF assms(2)])
  have i: "inorder a = inorder xa @ (xk, xns) # inorder xb" using inorder_splay[of k a] unfolding s(1) by simp
  with s(3) assms(3) have "inorder xb = []" by (cases "inorder xb") auto
  then show thesis using that s(1) i by (simp add: inorder_empty)
qed

lemma filter_others: "n \<notin> f ` set xs \<Longrightarrow> filter (\<lambda>x. f x \<noteq> n) xs = xs"
  by (induction xs) auto

lemma remove_head:
  assumes "tree_inv t" "(k, n # ms) \<in> set (inorder t)"
  shows "\<exists>t'. Curl_splayremove out t n = (0, t') \<and> tree_inv t' \<and> queue t' = filter (\<lambda>x. snd x \<noteq> n) (queue t)"
proof -
  obtain a b where s: "Curl_splay k t = Node a k (n # ms) b" "tree_inv (Node a k (n # ms) b)"
    "queue t = queue a @ map (Pair k) (n # ms) @ queue b"
    by (rule splay_to_key[OF assms])
  have "tv_zero \<le> k" using s(2) by (simp add: tree_inv_def)
  then have t: "t \<noteq> Tip" "distinct (map snd (queue t))" "KEY_NOTUSED \<noteq> k"
    using assms notused_before by (auto simp: tree_inv_def)
  have rk: "node_key out t n = k" using node_key_in[OF t(2) assms(2)] by simp
  have inv: "tree_inv a" "tree_inv b" "keys_below (inorder a) k" "keys_above (inorder b) k" using s(2) by (simp_all add: tree_inv_def)
  have q: "filter (\<lambda>x. snd x \<noteq> n) (queue t) = queue a @ map (Pair k) ms @ queue b"
    using t(2) unfolding s(3) by (simp add: filter_others filter_others[of n id, simplified] filter_map comp_def)
  show ?thesis
  proof (cases "ms = []")
    case False
    with s(2) have "tree_inv (Node a k ms b)" by (simp add: tree_inv_def)
    with False t rk s(1) q show ?thesis by (simp add: Curl_splayremove_def)
  next
    case ms: True
    show ?thesis
    proof (cases "a = Tip")
      case True
      with ms t rk s(1) q inv show ?thesis by (simp add: Curl_splayremove_def)
    next
      case False
      obtain xa xk xns where x: "Curl_splay k a = Node xa xk xns Tip" "inorder a = inorder xa @ [(xk, xns)]"
        by (rule splay_greatest[OF inv(1) False inv(3)])
      have io: "inorder (Node xa xk xns b) = inorder a @ inorder b" by (simp add: x(2))
      have qe: "queue (Node xa xk xns b) = queue a @ queue b" unfolding queue_def io by simp
      have "sorted_wrt (\<lambda>x y. fst x < fst y) (inorder a @ inorder b)"
        using inv by (auto simp: sorted_wrt_append tree_inv_def bst_def intro: less_trans)
      moreover have "distinct (map snd (queue a @ queue b))" using s(2) by (auto simp: tree_inv_def)
      moreover have "\<forall>x \<in> set (inorder a @ inorder b). snd x \<noteq> [] \<and> tv_zero \<le> fst x" using inv by (simp add: tree_inv_def ball_Un)
      ultimately have "tree_inv (Node xa xk xns b)" unfolding tree_inv_def bst_def io qe by blast
      with qe False ms t rk s(1) q x(1) show ?thesis by (simp add: Curl_splayremove_def)
    qed
  qed
qed

lemma remove_refines:
  assumes "tree_inv t" "n \<in> snd ` set (queue t)"
  shows "\<exists>t'. Curl_splayremove out t n = (0, t') \<and> tree_inv t' \<and> queue t' = filter (\<lambda>x. snd x \<noteq> n) (queue t)"
proof -
  obtain k ns where ns: "(k, ns) \<in> set (inorder t)" "n \<in> set ns" using assms(2) by (auto simp: queue_def)
  have t: "t \<noteq> Tip" "distinct (map snd (queue t))" "n \<in> set (tree_nodes t)" using assms by (auto simp: tree_inv_def tree_nodes_queue)
  show ?thesis
  proof (cases "hd ns = n")
    case True
    with ns obtain ms where "ns = n # ms" by (cases ns) auto
    with ns(1) remove_head[OF assms(1)] show ?thesis by simp
  next
    case False
    have "hd (snd x) \<noteq> n" if x: "x \<in> set (inorder t)" for x
    proof
      assume "hd (snd x) = n"
      moreover have "snd x \<noteq> []" "fst x \<noteq> KEY_NOTUSED" using assms(1) x notused_before(1)[of "fst x"] by (simp_all add: tree_inv_def)
      moreover from calculation have "n \<in> set (snd x)" by (metis hd_in_set)
      ultimately have "node_key KEY_NOTUSED t n = fst x" using node_key_in[OF t(2), of "fst x" "snd x" n] x by simp
      with node_key_in[OF t(2) ns, of KEY_NOTUSED] False \<open>fst x \<noteq> KEY_NOTUSED\<close> show False by simp
    qed
    then have heads: "\<forall>x \<in> set (inorder t). hd (snd x) \<noteq> n" by blast
    have "Curl_splayremove out t n = (0, same_unlink n t)"
      using t node_key_in[OF t(2) ns] False by (simp add: Curl_splayremove_def)
    with unlink_inv[OF assms(1) heads] queue_unlink[OF t(2), of n] heads show ?thesis by blast
  qed
qed

lemma remove_absent:
  assumes "tree_inv t" "n \<notin> snd ` set (queue t)"
  shows "fst (Curl_splayremove out t n) \<noteq> 0"
proof (cases "t = Tip")
  case False
  have "hd ns \<noteq> n" if "Curl_splay i t = Node a k ns b" for i a k ns b
  proof -
    have "tree_inv (Node a k ns b)" "queue t = queue (Node a k ns b)" using that assms(1) tree_inv_splay[of i t] queue_splay[of i t] by simp_all
    moreover from this(1) have "ns \<noteq> []" by (simp add: tree_inv_def)
    ultimately have "hd ns \<in> snd ` set (queue t)" by (cases ns) simp_all
    with assms(2) show ?thesis by blast
  qed
  then show ?thesis using assms(2) False
    by (auto simp: Curl_splayremove_def node_key_out tree_nodes_queue Let_def split: Curl_tree.split)
qed (simp add: Curl_splayremove_def)

section \<open>The interface\<close>

text \<open>
  What the timers rely on: a queue of distinct nodes sorted by time. \<open>out\<close> stands for what the
  \<^verbatim>\<open>key\<close> of a node outside the queue holds; removing a node that is there does not depend on it.
\<close>

locale time_queue =
  fixes inv :: "'q \<Rightarrow> bool"
    and abs :: "'q \<Rightarrow> (curltime \<times> 'n) list"
    and empty :: 'q
    and insert :: "curltime \<Rightarrow> 'q \<Rightarrow> 'n \<Rightarrow> 'q"
    and getbest :: "curltime \<Rightarrow> 'q \<Rightarrow> 'q \<times> 'n option"
    and remove :: "curltime \<Rightarrow> 'q \<Rightarrow> 'n \<Rightarrow> int \<times> 'q"
  assumes empty: "inv empty" "abs empty = []"
    and sorted: "inv q \<Longrightarrow> sorted_wrt (\<lambda>x y. fst x \<le> fst y) (abs q)"
    and distinct: "inv q \<Longrightarrow> distinct (map snd (abs q))"
    and insert: "inv q \<Longrightarrow> tv_zero \<le> i \<Longrightarrow> n \<notin> snd ` set (abs q) \<Longrightarrow> inv (insert i q n) \<and> abs (insert i q n) = enqueue i n (abs q)"
    and getbest: "inv q \<Longrightarrow> case abs q of
        [] \<Rightarrow> getbest i q = (empty, None)
      | (k, n) # r \<Rightarrow> \<exists>q'. inv q' \<and> (if i < k then getbest i q = (q', None) \<and> abs q' = abs q else getbest i q = (q', Some n) \<and> abs q' = r)"
    and remove: "inv q \<Longrightarrow> n \<in> snd ` set (abs q) \<Longrightarrow>
      \<exists>q'. remove out q n = (0, q') \<and> inv q' \<and> abs q' = filter (\<lambda>x. snd x \<noteq> n) (abs q)"
begin

lemma head_earliest: "inv q \<Longrightarrow> abs q = (k, n) # r \<Longrightarrow> \<forall>x \<in> set (abs q). k \<le> fst x"
  using sorted[of q] by auto

text \<open>Either nothing is due, or the earliest node comes out.\<close>

lemma getbest_cases:
  assumes "inv q"
  obtains (none) q' where "getbest i q = (q', None)" "inv q'" "abs q' = abs q" "\<forall>x \<in> set (abs q). i < fst x"
    | (due) q' k n where "getbest i q = (q', Some n)" "inv q'" "abs q = (k, n) # abs q'" "k \<le> i"
proof (cases "abs q")
  case Nil
  with getbest[OF assms, of i] empty none show thesis by simp
next
  case (Cons x r)
  obtain k n where x: "x = (k, n)" by (cases x)
  from getbest[OF assms, of i] Cons x obtain q' where q': "inv q'"
    "if i < k then getbest i q = (q', None) \<and> abs q' = abs q else getbest i q = (q', Some n) \<and> abs q' = r"
    by auto
  show thesis
  proof (cases "i < k")
    case True
    moreover have "\<forall>x \<in> set (abs q). k \<le> fst x" using head_earliest[OF assms] Cons x by simp
    ultimately show thesis using q' by (intro none[of q']) auto
  next
    case False
    with q' Cons x show thesis by (intro due[of q' n k]) auto
  qed
qed

end

lemma queue_sorted: "tree_inv t \<Longrightarrow> sorted_wrt (\<lambda>x y. fst x \<le> fst y) (queue t)"
proof (induction t)
  case (Node a k ns b)
  then have "tree_inv a" "tree_inv b" "\<forall>x \<in> set (queue a). fst x < k" "\<forall>x \<in> set (queue b). k < fst x"
    using queue_below[of a k] queue_above[of b k] by (simp_all add: tree_inv_def)
  moreover have "sorted_wrt (\<lambda>x y. fst x \<le> fst y) (map (Pair k) ns)" by (induction ns) auto
  ultimately show ?case using Node.IH by (fastforce simp: sorted_wrt_append)
qed simp

lemma insert_refines:
  assumes "tree_inv t" "tv_zero \<le> i" "n \<notin> snd ` set (queue t)"
  shows "tree_inv (Curl_splayinsert i t n) \<and> queue (Curl_splayinsert i t n) = enqueue i n (queue t)"
proof -
  have "bst t" using assms(1) by (simp add: tree_inv_def)
  with insert_inv[OF assms] show ?thesis by (simp add: queue_insert)
qed

lemma tip_inv: "tree_inv Tip" "queue Tip = []"
  by (simp_all add: tree_inv_def)

lemma queue_distinct: "tree_inv t \<Longrightarrow> distinct (map snd (queue t))"
  by (simp add: tree_inv_def)

interpretation splay: time_queue tree_inv queue Tip Curl_splayinsert Curl_splaygetbest Curl_splayremove
  by unfold_locales (rule tip_inv queue_sorted queue_distinct insert_refines getbest_refines remove_refines; assumption)+

text \<open>
  C9: libcurl's splay tree is a queue sorted by time. Over every well-formed tree, inserting a
  node puts it behind all that are not later, extracting takes the earliest node exactly when
  it is due, and removing a node takes out that node and no other; each keeps the tree
  well-formed.
\<close>

theorem splay_is_queue:
  assumes "tree_inv t" "tv_zero \<le> i" "n \<notin> snd ` set (queue t)"
  shows "(let t' = Curl_splayinsert i t n in tree_inv t' \<and> queue t' = filter (\<lambda>x. fst x \<le> i) (queue t) @ (i, n) # filter (\<lambda>x. i < fst x) (queue t)) \<and>
    (let (t', r) = Curl_splaygetbest i t in tree_inv t' \<and>
       (if queue t \<noteq> [] \<and> fst (hd (queue t)) \<le> i then r = Some (snd (hd (queue t))) \<and> queue t' = tl (queue t)
        else r = None \<and> queue t' = queue t)) \<and>
    (\<forall>m out. let (r, t') = Curl_splayremove out t m in
       if m \<in> snd ` set (queue t) then r = 0 \<and> tree_inv t' \<and> queue t' = filter (\<lambda>x. snd x \<noteq> m) (queue t) else r \<noteq> 0)"
proof -
  have "let (t', r) = Curl_splaygetbest i t in tree_inv t' \<and>
       (if queue t \<noteq> [] \<and> fst (hd (queue t)) \<le> i then r = Some (snd (hd (queue t))) \<and> queue t' = tl (queue t)
        else r = None \<and> queue t' = queue t)"
  proof (rule splay.getbest_cases[OF assms(1), of i])
    fix t' assume t': "Curl_splaygetbest i t = (t', None)" "tree_inv t'" "queue t' = queue t" "\<forall>x \<in> set (queue t). i < fst x"
    then have "\<not> (queue t \<noteq> [] \<and> fst (hd (queue t)) \<le> i)" by (cases "queue t") auto
    with t' show ?thesis by auto
  qed auto
  moreover have "let (r, t') = Curl_splayremove out t m in
       if m \<in> snd ` set (queue t) then r = 0 \<and> tree_inv t' \<and> queue t' = filter (\<lambda>x. snd x \<noteq> m) (queue t) else r \<noteq> 0" for m out
  proof (cases "m \<in> snd ` set (queue t)")
    case True
    with splay.remove[OF assms(1) True, of out] show ?thesis by auto
  next
    case False
    with remove_absent[OF assms(1) False, of out] show ?thesis by (simp add: split_beta)
  qed
  ultimately show ?thesis using splay.insert[OF assms] by (simp add: Let_def enqueue_def)
qed

theorem splay_is_queue_witness:
  "queue (Node (Node Tip (Curltime 1 0) [''a''] Tip) (Curltime 2 0) [''b'', ''c''] Tip) = [(Curltime 1 0, ''a''), (Curltime 2 0, ''b''), (Curltime 2 0, ''c'')] \<and>
   queue (Curl_splayinsert (Curltime 2 0) (Node (Node Tip (Curltime 1 0) [''a''] Tip) (Curltime 2 0) [''b'', ''c''] Tip) ''d'') =
     [(Curltime 1 0, ''a''), (Curltime 2 0, ''b''), (Curltime 2 0, ''c''), (Curltime 2 0, ''d'')]"
proof -
  let ?t = "Node (Node Tip (Curltime 1 0) [''a''] Tip) (Curltime 2 0) [''b'', ''c''] Tip"
  have "tree_inv ?t" "tv_zero \<le> Curltime 2 0" "''d'' \<notin> snd ` set (queue ?t)"
    by (simp_all add: tree_inv_def tv_zero_def less_eq_curltime_def less_curltime_def)
  from splay_is_queue[OF this] show ?thesis by (simp add: Let_def less_eq_curltime_def less_curltime_def)
qed

end
