(* ===== verification/Curl_Timers.thy ===== *)
theory Curl_Timers
  imports Curl_Splay "HOL-Library.Signed_Division"
begin

text \<open>
  libcurl's timers (\<^verbatim>\<open>src/lib/curl/lib/multi.c\<close>, \<^verbatim>\<open>timeval.c\<close>): every transfer has a list of timeouts,
  the transfers are queued by the time they want to be called next, and the application is
  told when the earliest is due. It is what the timer callback of \<^verbatim>\<open>src/src/https.c\<close> is given.
\<close>

section \<open>Differences of times\<close>

definition TIMEDIFF_T_MAX :: int where "TIMEDIFF_T_MAX = 2 ^ 63 - 1"
definition TIMEDIFF_T_MIN :: int where "TIMEDIFF_T_MIN = - (2 ^ 63)"

definition Curl_timediff :: "curltime \<Rightarrow> curltime \<Rightarrow> int" where
  "Curl_timediff newer older =
     (let diff = tv_sec newer - tv_sec older in
      if diff \<ge> TIMEDIFF_T_MAX sdiv 1000 then TIMEDIFF_T_MAX
      else if diff \<le> TIMEDIFF_T_MIN sdiv 1000 then TIMEDIFF_T_MIN
      else diff * 1000 + (tv_usec newer - tv_usec older) sdiv 1000)"

definition Curl_timediff_ceil :: "curltime \<Rightarrow> curltime \<Rightarrow> int" where
  "Curl_timediff_ceil newer older =
     (let diff = tv_sec newer - tv_sec older in
      if diff \<ge> TIMEDIFF_T_MAX sdiv 1000 then TIMEDIFF_T_MAX
      else if diff \<le> TIMEDIFF_T_MIN sdiv 1000 then TIMEDIFF_T_MIN
      else diff * 1000 + (tv_usec newer - tv_usec older + 999) sdiv 1000)"

definition Curl_timediff_us :: "curltime \<Rightarrow> curltime \<Rightarrow> int" where
  "Curl_timediff_us newer older =
     (let diff = tv_sec newer - tv_sec older in
      if diff \<ge> TIMEDIFF_T_MAX sdiv 1000000 then TIMEDIFF_T_MAX
      else if diff \<le> TIMEDIFF_T_MIN sdiv 1000000 then TIMEDIFF_T_MIN
      else diff * 1000000 + tv_usec newer - tv_usec older)"

section \<open>The timers\<close>

datatype expire_id = EXPIRE_100_TIMEOUT | EXPIRE_ASYNC_NAME | EXPIRE_CONNECTTIMEOUT | EXPIRE_DNS_PER_NAME | EXPIRE_DNS_PER_NAME2
  | EXPIRE_HAPPY_EYEBALLS_DNS | EXPIRE_HAPPY_EYEBALLS | EXPIRE_MULTI_PENDING | EXPIRE_RUN_NOW | EXPIRE_SPEEDCHECK
  | EXPIRE_TIMEOUT | EXPIRE_TOOFAST | EXPIRE_QUIC | EXPIRE_FTP_ACCEPT | EXPIRE_ALPN_EYEBALLS

text \<open>
  The fields of \<^verbatim>\<open>struct UrlState\<close> and \<^verbatim>\<open>struct Curl_multi\<close> that the timers use. The list holds the
  used entries of \<^verbatim>\<open>expires\<close>. Transfers are numbers, and a node of the tree is the number of the
  transfer it is part of (its \<^verbatim>\<open>payload\<close>). The callback is set or not.
\<close>

record easy_timers =
  et_expiretime :: curltime
  et_timeoutlist :: "(curltime \<times> expire_id) list"

record multi_timers =
  mt_timetree :: "nat Curl_tree"
  mt_easy :: "nat \<Rightarrow> easy_timers"
  mt_timer_cb :: bool
  mt_dead :: bool
  mt_timer_lastcall :: curltime

definition mt_upd :: "multi_timers \<Rightarrow> nat \<Rightarrow> easy_timers \<Rightarrow> multi_timers" where
  "mt_upd m d e = m\<lparr>mt_easy := (mt_easy m)(d := e)\<rparr>"

fun multi_deltimeout :: "(curltime \<times> expire_id) list \<Rightarrow> expire_id \<Rightarrow> (curltime \<times> expire_id) list" where
  "multi_deltimeout [] eid = []"
| "multi_deltimeout (n # ns) eid = (if snd n = eid then ns else n # multi_deltimeout ns eid)"

fun multi_addtimeout :: "(curltime \<times> expire_id) list \<Rightarrow> curltime \<Rightarrow> expire_id \<Rightarrow> (curltime \<times> expire_id) list" where
  "multi_addtimeout [] stamp eid = [(stamp, eid)]"
| "multi_addtimeout (check # ns) stamp eid =
     (if Curl_timediff (fst check) stamp > 0 then (stamp, eid) # check # ns else check # multi_addtimeout ns stamp eid)"

text \<open>The time \<open>milli\<close> milliseconds from \<open>now\<close>; the microseconds are added as \<^verbatim>\<open>unsigned int\<close>.\<close>

definition expire_set :: "curltime \<Rightarrow> int \<Rightarrow> curltime" where
  "expire_set now milli =
     (let sec = tv_sec now + milli sdiv 1000;
          usec = sint (word_of_int (tv_usec now) + word_of_int (milli smod 1000) * 1000 :: 32 word) in
      if usec \<ge> 1000000 then Curltime (sec + 1) (usec - 1000000) else Curltime sec usec)"

text \<open>
  \<^verbatim>\<open>Curl_expire\<close> for a transfer \<open>d\<close> that belongs to the multi handle. \<open>now\<close> is the answer of \<^verbatim>\<open>Curl_now\<close>;
  \<open>out\<close> is what \<^verbatim>\<open>timenode.key\<close> holds should the node not be in the tree.
\<close>

definition Curl_expire :: "curltime \<Rightarrow> curltime \<Rightarrow> multi_timers \<Rightarrow> nat \<Rightarrow> int \<Rightarrow> expire_id \<Rightarrow> multi_timers" where
  "Curl_expire now out m d milli eid =
     (let e = mt_easy m d; set = expire_set now milli; nowp = et_expiretime e;
          e = e\<lparr>et_timeoutlist := multi_addtimeout (multi_deltimeout (et_timeoutlist e) eid) set eid\<rparr> in
      if (tv_sec nowp \<noteq> 0 \<or> tv_usec nowp \<noteq> 0) \<and> Curl_timediff set nowp > 0 then mt_upd m d e
      else
        let t = (if tv_sec nowp \<noteq> 0 \<or> tv_usec nowp \<noteq> 0 then snd (Curl_splayremove out (mt_timetree m) d) else mt_timetree m) in
        (mt_upd m d (e\<lparr>et_expiretime := set\<rparr>))\<lparr>mt_timetree := Curl_splayinsert set t d\<rparr>)"

definition Curl_expire_done :: "multi_timers \<Rightarrow> nat \<Rightarrow> expire_id \<Rightarrow> multi_timers" where
  "Curl_expire_done m d eid =
     (let e = mt_easy m d in mt_upd m d (e\<lparr>et_timeoutlist := multi_deltimeout (et_timeoutlist e) eid\<rparr>))"

definition Curl_expire_clear :: "curltime \<Rightarrow> multi_timers \<Rightarrow> nat \<Rightarrow> multi_timers" where
  "Curl_expire_clear out m d =
     (let e = mt_easy m d; nowp = et_expiretime e in
      if tv_sec nowp \<noteq> 0 \<or> tv_usec nowp \<noteq> 0 then
        (mt_upd m d (e\<lparr>et_timeoutlist := [], et_expiretime := tv_zero\<rparr>))\<lparr>mt_timetree := snd (Curl_splayremove out (mt_timetree m) d)\<rparr>
      else m)"

definition add_next_timeout :: "curltime \<Rightarrow> multi_timers \<Rightarrow> nat \<Rightarrow> multi_timers" where
  "add_next_timeout now m d =
     (let e = mt_easy m d; list = dropWhile (\<lambda>n. Curl_timediff_us (fst n) now \<le> 0) (et_timeoutlist e) in
      case list of
        [] \<Rightarrow> mt_upd m d (e\<lparr>et_timeoutlist := list, et_expiretime := tv_zero\<rparr>)
      | n # _ \<Rightarrow> (mt_upd m d (e\<lparr>et_timeoutlist := list, et_expiretime := fst n\<rparr>))
          \<lparr>mt_timetree := Curl_splayinsert (fst n) (mt_timetree m) d\<rparr>)"

text \<open>The loop at the end of \<^verbatim>\<open>curl_multi_perform\<close>, with the transfers whose timers it took out.\<close>

partial_function (option) expire_loop :: "curltime \<Rightarrow> multi_timers \<Rightarrow> (nat list \<times> multi_timers) option" where
  "expire_loop now m =
     (case Curl_splaygetbest now (mt_timetree m) of
        (t, None) \<Rightarrow> Some ([], m\<lparr>mt_timetree := t\<rparr>)
      | (t, Some d) \<Rightarrow>
          Option.bind (expire_loop now (add_next_timeout now (m\<lparr>mt_timetree := t\<rparr>) d)) (\<lambda>(ds, m'). Some (d # ds, m')))"

definition multi_timeout :: "curltime \<Rightarrow> multi_timers \<Rightarrow> int \<times> multi_timers" where
  "multi_timeout now m =
     (if mt_dead m then (0, m)
      else case Curl_splay tv_zero (mt_timetree m) of
        Tip \<Rightarrow> (-1, m)
      | Node a k ns b \<Rightarrow>
          (if Curl_splaycomparekeys k now > 0 then Curl_timediff_ceil k now else 0, m\<lparr>mt_timetree := Node a k ns b\<rparr>))"

text \<open>
  \<^verbatim>\<open>Curl_update_timer\<close>: the result, the timeouts the callback was called with, the new state. \<open>rc\<close> is
  what the callback answers.
\<close>

definition timer_called :: "int \<Rightarrow> int \<Rightarrow> multi_timers \<Rightarrow> bool \<times> int list \<times> multi_timers" where
  "timer_called rc timeout_ms m = (if rc = -1 then (False, [timeout_ms], m\<lparr>mt_dead := True\<rparr>) else (True, [timeout_ms], m))"

definition Curl_update_timer :: "curltime \<Rightarrow> int \<Rightarrow> multi_timers \<Rightarrow> bool \<times> int list \<times> multi_timers" where
  "Curl_update_timer now rc m =
     (if \<not> mt_timer_cb m \<or> mt_dead m then (True, [], m)
      else let (timeout_ms, m) = multi_timeout now m in
      if timeout_ms < 0 then
        if Curl_splaycomparekeys tv_zero (mt_timer_lastcall m) \<noteq> 0 then timer_called rc (-1) (m\<lparr>mt_timer_lastcall := tv_zero\<rparr>)
        else (True, [], m)
      else if Curl_splaycomparekeys (key (mt_timetree m)) (mt_timer_lastcall m) = 0 then (True, [], m)
      else timer_called rc timeout_ms (m\<lparr>mt_timer_lastcall := key (mt_timetree m)\<rparr>))"

section \<open>Arithmetic of times\<close>

text \<open>A time of the clock: normalised, and within the next thirty thousand years.\<close>

definition time_ok :: "curltime \<Rightarrow> bool" where
  "time_ok t \<longleftrightarrow> 0 \<le> tv_sec t \<and> tv_sec t < 2 ^ 40 \<and> 0 \<le> tv_usec t \<and> tv_usec t < 1000000"

definition usecs :: "curltime \<Rightarrow> int" where
  "usecs t = tv_sec t * 1000000 + tv_usec t"

lemma usecs_less: "time_ok s \<Longrightarrow> time_ok t \<Longrightarrow> s < t \<longleftrightarrow> usecs s < usecs t"
  by (auto simp: time_ok_def usecs_def less_curltime_def)

lemma usecs_le: "time_ok s \<Longrightarrow> time_ok t \<Longrightarrow> s \<le> t \<longleftrightarrow> usecs s \<le> usecs t"
  using usecs_less[of t s] by (simp add: linorder_not_less[symmetric])

lemma sdiv_nonneg: "0 \<le> (a :: int) \<Longrightarrow> 0 < b \<Longrightarrow> a sdiv b = a div b"
  by (simp add: signed_divide_int_def sgn_if)

lemma sdiv_neg: "(a :: int) \<le> 0 \<Longrightarrow> 0 < b \<Longrightarrow> a sdiv b = - (- a div b)"
  by (simp add: signed_divide_int_def sgn_if)

lemmas diff_bounds = TIMEDIFF_T_MAX_def TIMEDIFF_T_MIN_def

lemma timediff_us: "time_ok s \<Longrightarrow> time_ok t \<Longrightarrow> Curl_timediff_us s t = usecs s - usecs t"
  by (simp add: Curl_timediff_us_def Let_def diff_bounds time_ok_def usecs_def sdiv_nonneg sdiv_neg)

lemma timediff:
  assumes "time_ok s" "time_ok t"
  shows "Curl_timediff s t = (tv_sec s - tv_sec t) * 1000 + (tv_usec s - tv_usec t) sdiv 1000"
  using assms by (simp add: Curl_timediff_def Let_def diff_bounds time_ok_def sdiv_nonneg sdiv_neg)

lemma timediff_ceil:
  assumes "time_ok s" "time_ok t" "usecs t < usecs s"
  shows "usecs s \<le> usecs t + Curl_timediff_ceil s t * 1000" "usecs t + Curl_timediff_ceil s t * 1000 < usecs s + 2000" "0 < Curl_timediff_ceil s t"
proof -
  let ?d = "tv_usec s - tv_usec t + 999"
  have c: "Curl_timediff_ceil s t = (tv_sec s - tv_sec t) * 1000 + ?d sdiv 1000"
    using assms(1,2) by (simp add: Curl_timediff_ceil_def Let_def diff_bounds time_ok_def sdiv_nonneg sdiv_neg)
  have d: "?d - 999 \<le> ?d sdiv 1000 * 1000" "?d sdiv 1000 * 1000 < ?d + 1001"
    by (cases "0 \<le> ?d"; simp add: sdiv_nonneg sdiv_neg; linarith)+
  show "usecs s \<le> usecs t + Curl_timediff_ceil s t * 1000" "usecs t + Curl_timediff_ceil s t * 1000 < usecs s + 2000"
    using d unfolding c usecs_def by (simp_all add: algebra_simps)
  then show "0 < Curl_timediff_ceil s t" using assms(3) by simp
qed

lemma sint_small:
  assumes "0 \<le> a" "a < 2 ^ 31"
  shows "sint (word_of_int a :: 32 word) = a"
  using assms by (simp add: int_word_sint)

lemma millis: "milli div 1000 * 1000000 + milli mod 1000 * 1000 = (milli :: int) * 1000"
  by presburger

lemma expire_set:
  assumes "time_ok now" "0 \<le> milli" "tv_sec now + milli div 1000 + 1 < 2 ^ 40"
  shows "time_ok (expire_set now milli)" "usecs (expire_set now milli) = usecs now + milli * 1000"
proof -
  have m: "milli sdiv 1000 = milli div 1000" "milli smod 1000 = milli mod 1000"
    using assms(2) by (simp_all add: sdiv_nonneg signed_modulo_int_def sgn_if)
  have "word_of_int (tv_usec now) + word_of_int (milli mod 1000) * 1000 = (word_of_int (tv_usec now + milli mod 1000 * 1000) :: 32 word)"
    by simp
  moreover have "0 \<le> tv_usec now + milli mod 1000 * 1000" "tv_usec now + milli mod 1000 * 1000 < 2000000"
    using assms(1) by (auto simp: time_ok_def)
  ultimately have u: "sint (word_of_int (tv_usec now) + word_of_int (milli smod 1000) * 1000 :: 32 word) = tv_usec now + milli mod 1000 * 1000"
    unfolding m using sint_small[of "tv_usec now + milli mod 1000 * 1000"] by simp
  have "0 \<le> milli div 1000" using assms(2) by simp
  then show "time_ok (expire_set now milli)"
    using assms(1,3) unfolding expire_set_def m u[unfolded m] Let_def by (auto simp: time_ok_def)
  show "usecs (expire_set now milli) = usecs now + milli * 1000"
    using millis[of milli] unfolding expire_set_def m u[unfolded m] Let_def usecs_def by auto
qed

section \<open>The invariant\<close>

definition times_ok :: "(curltime \<times> expire_id) list \<Rightarrow> bool" where
  "times_ok ns \<longleftrightarrow> (\<forall>n \<in> set ns. time_ok (fst n) \<and> fst n \<noteq> tv_zero)"

text \<open>
  A transfer is in the tree under its \<^verbatim>\<open>expiretime\<close>, unless that is zero; all times are good.
\<close>

definition timers_inv :: "multi_timers \<Rightarrow> bool" where
  "timers_inv m \<longleftrightarrow> tree_inv (mt_timetree m) \<and>
     (\<forall>d. d \<in> snd ` set (queue (mt_timetree m)) \<longleftrightarrow> et_expiretime (mt_easy m d) \<noteq> tv_zero) \<and>
     (\<forall>x \<in> set (queue (mt_timetree m)). fst x = et_expiretime (mt_easy m (snd x))) \<and>
     (\<forall>d. time_ok (et_expiretime (mt_easy m d)) \<and> times_ok (et_timeoutlist (mt_easy m d)))"

lemma tv_zero_iff: "tv_sec t \<noteq> 0 \<or> tv_usec t \<noteq> 0 \<longleftrightarrow> t \<noteq> tv_zero"
  by (cases t) (simp add: tv_zero_def)

lemma time_ok_zero: "time_ok tv_zero"
  by (simp add: time_ok_def tv_zero_def)

lemma time_ok_ge: "time_ok t \<Longrightarrow> tv_zero \<le> t"
  by (cases t) (auto simp: time_ok_def tv_zero_def less_eq_curltime_def less_curltime_def)

lemma set_enqueue: "set (enqueue i n q) = insert (i, n) (set q)"
  by (auto simp: enqueue_def)

lemma set_deltimeout: "set (multi_deltimeout ns eid) \<subseteq> set ns"
  by (induction ns) auto

lemma set_addtimeout: "set (multi_addtimeout ns stamp eid) = insert (stamp, eid) (set ns)"
  by (induction ns) auto

lemma times_ok_delete: "times_ok ns \<Longrightarrow> times_ok (multi_deltimeout ns eid)"
  using set_deltimeout[of ns eid] unfolding times_ok_def by blast

lemma times_ok_add: "times_ok ns \<Longrightarrow> time_ok t \<Longrightarrow> t \<noteq> tv_zero \<Longrightarrow> times_ok (multi_addtimeout ns t eid)"
  by (simp add: times_ok_def set_addtimeout)

lemma times_ok_drop: "times_ok ns \<Longrightarrow> times_ok (dropWhile P ns)"
  by (auto simp: times_ok_def dest: set_dropWhileD)

text \<open>The timers of one transfer change, and its place in the tree.\<close>

lemma timers_upd:
  assumes m: "timers_inv m" and t: "tree_inv t"
    and q: "set (queue t) = {x \<in> set (queue (mt_timetree m)). snd x \<noteq> d} \<union> (if et_expiretime e = tv_zero then {} else {(et_expiretime e, d)})"
    and e: "time_ok (et_expiretime e)" "times_ok (et_timeoutlist e)"
  shows "timers_inv ((mt_upd m d e)\<lparr>mt_timetree := t\<rparr>)"
proof -
  have "d' \<in> snd ` set (queue t) \<longleftrightarrow> et_expiretime (((mt_easy m)(d := e)) d') \<noteq> tv_zero" for d'
  proof (cases "d' = d")
    case True
    then show ?thesis unfolding q by auto
  next
    case False
    then have "d' \<in> snd ` set (queue t) \<longleftrightarrow> d' \<in> snd ` set (queue (mt_timetree m))" unfolding q by force
    with m False show ?thesis by (simp add: timers_inv_def)
  qed
  moreover have "fst x = et_expiretime (((mt_easy m)(d := e)) (snd x))" if "x \<in> set (queue t)" for x
    using m that unfolding q timers_inv_def by (auto split: if_splits)
  moreover have "time_ok (et_expiretime (((mt_easy m)(d := e)) d')) \<and> times_ok (et_timeoutlist (((mt_easy m)(d := e)) d'))" for d'
    using m e by (simp add: timers_inv_def)
  ultimately show ?thesis using t unfolding timers_inv_def by (simp add: mt_upd_def del: fun_upd_apply)
qed

lemma timers_insert:
  assumes m: "timers_inv m" and t: "tree_inv t" "set (queue t) = {x \<in> set (queue (mt_timetree m)). snd x \<noteq> d}"
    and e: "time_ok (et_expiretime e)" "et_expiretime e \<noteq> tv_zero" "times_ok (et_timeoutlist e)"
  shows "timers_inv ((mt_upd m d e)\<lparr>mt_timetree := Curl_splayinsert (et_expiretime e) t d\<rparr>)"
    and "queue (Curl_splayinsert (et_expiretime e) t d) = enqueue (et_expiretime e) d (queue t)"
proof -
  have "d \<notin> snd ` set (queue t)" unfolding t(2) by auto
  from splay.insert[OF t(1) time_ok_ge[OF e(1)] this]
  have i: "tree_inv (Curl_splayinsert (et_expiretime e) t d)"
    "queue (Curl_splayinsert (et_expiretime e) t d) = enqueue (et_expiretime e) d (queue t)"
    by simp_all
  then show "queue (Curl_splayinsert (et_expiretime e) t d) = enqueue (et_expiretime e) d (queue t)" by blast
  show "timers_inv ((mt_upd m d e)\<lparr>mt_timetree := Curl_splayinsert (et_expiretime e) t d\<rparr>)"
    using i(1) e t(2) by (intro timers_upd[OF m]) (auto simp: i(2) set_enqueue)
qed

text \<open>Taking a transfer out of the tree.\<close>

lemma timers_removed:
  assumes "timers_inv m" "et_expiretime (mt_easy m d) \<noteq> tv_zero"
  shows "tree_inv (snd (Curl_splayremove out (mt_timetree m) d))"
    and "queue (snd (Curl_splayremove out (mt_timetree m) d)) = filter (\<lambda>x. snd x \<noteq> d) (queue (mt_timetree m))"
proof -
  have "tree_inv (mt_timetree m)" "d \<in> snd ` set (queue (mt_timetree m))" using assms by (simp_all add: timers_inv_def)
  from splay.remove[OF this, of out] show "tree_inv (snd (Curl_splayremove out (mt_timetree m) d))"
    "queue (snd (Curl_splayremove out (mt_timetree m) d)) = filter (\<lambda>x. snd x \<noteq> d) (queue (mt_timetree m))"
    by auto
qed

lemma expire_set_ok:
  assumes "time_ok now" "0 \<le> milli" "tv_sec now + milli div 1000 + 1 < 2 ^ 40" "now \<noteq> tv_zero"
  shows "time_ok (expire_set now milli)" "expire_set now milli \<noteq> tv_zero"
proof -
  show "time_ok (expire_set now milli)" by (rule expire_set[OF assms(1-3)])
  have "usecs now > 0" using assms(1,4) by (cases now) (auto simp: time_ok_def usecs_def tv_zero_def)
  with expire_set(2)[OF assms(1-3)] assms(2) show "expire_set now milli \<noteq> tv_zero" by (auto simp: usecs_def tv_zero_def)
qed

lemma timers_list:
  assumes "timers_inv m" "times_ok l"
  shows "timers_inv (mt_upd m d ((mt_easy m d)\<lparr>et_timeoutlist := l\<rparr>))"
  using assms unfolding timers_inv_def by (simp add: mt_upd_def)

lemma expire_inv:
  assumes m: "timers_inv m" and now: "time_ok now" "0 \<le> milli" "tv_sec now + milli div 1000 + 1 < 2 ^ 40" "now \<noteq> tv_zero"
  shows "timers_inv (Curl_expire now out m d milli eid)"
proof -
  let ?set = "expire_set now milli" and ?e = "mt_easy m d"
  let ?l = "multi_addtimeout (multi_deltimeout (et_timeoutlist ?e) eid) ?set eid"
  note set = expire_set_ok[OF now]
  have "times_ok (et_timeoutlist ?e)" using m by (simp add: timers_inv_def)
  then have l: "times_ok ?l" using set by (simp add: times_ok_add times_ok_delete)
  let ?t = "if et_expiretime ?e \<noteq> tv_zero then snd (Curl_splayremove out (mt_timetree m) d) else mt_timetree m"
  have t: "tree_inv ?t" "set (queue ?t) = {x \<in> set (queue (mt_timetree m)). snd x \<noteq> d}"
  proof -
    show "tree_inv ?t" using m timers_removed(1)[OF m, of d out] by (simp add: timers_inv_def)
    have "d \<in> snd ` set (queue (mt_timetree m)) \<longleftrightarrow> et_expiretime ?e \<noteq> tv_zero" using m by (simp add: timers_inv_def)
    then show "set (queue ?t) = {x \<in> set (queue (mt_timetree m)). snd x \<noteq> d}"
      using timers_removed(2)[OF m, of d out] by force
  qed
  show ?thesis
  proof (cases "et_expiretime ?e \<noteq> tv_zero \<and> Curl_timediff ?set (et_expiretime ?e) > 0")
    case True
    with timers_list[OF m l, of d] show ?thesis unfolding Curl_expire_def Let_def tv_zero_iff by simp
  next
    case False
    show ?thesis
      using timers_insert(1)[OF m t, of "?e\<lparr>et_timeoutlist := ?l, et_expiretime := ?set\<rparr>"] l set
      unfolding Curl_expire_def Let_def tv_zero_iff if_not_P[OF False] by simp
  qed
qed

lemma expire_clear_inv:
  assumes "timers_inv m"
  shows "timers_inv (Curl_expire_clear out m d)"
proof (cases "et_expiretime (mt_easy m d) = tv_zero")
  case False
  note t = timers_removed[OF assms False, of out]
  have "timers_inv ((mt_upd m d ((mt_easy m d)\<lparr>et_timeoutlist := [], et_expiretime := tv_zero\<rparr>))
      \<lparr>mt_timetree := snd (Curl_splayremove out (mt_timetree m) d)\<rparr>)"
    using t time_ok_zero by (intro timers_upd[OF assms]) (auto simp: times_ok_def)
  with False show ?thesis unfolding Curl_expire_clear_def Let_def tv_zero_iff by simp
qed (use assms in \<open>simp add: Curl_expire_clear_def tv_zero_def\<close>)

lemma expire_done_inv: "timers_inv m \<Longrightarrow> timers_inv (Curl_expire_done m d eid)"
  unfolding Curl_expire_done_def Let_def by (rule timers_list) (simp_all add: timers_inv_def times_ok_delete)

section \<open>Expired timers\<close>

text \<open>What \<open>add_next_timeout\<close> leaves of the list of a transfer whose timer was taken out at \<open>now\<close>.\<close>

definition timers_after :: "curltime \<Rightarrow> easy_timers \<Rightarrow> easy_timers" where
  "timers_after now e =
     (let list = dropWhile (\<lambda>n. fst n \<le> now) (et_timeoutlist e) in
      e\<lparr>et_timeoutlist := list, et_expiretime := (if list = [] then tv_zero else fst (hd list))\<rparr>)"

lemma dropWhile_times:
  assumes "times_ok l" "time_ok now"
  shows "dropWhile (\<lambda>n. Curl_timediff_us (fst n) now \<le> 0) l = dropWhile (\<lambda>n. fst n \<le> now) l"
proof -
  have "Curl_timediff_us (fst n) now \<le> 0 \<longleftrightarrow> fst n \<le> now" if "n \<in> set l" for n
    using assms that by (simp add: times_ok_def timediff_us usecs_le)
  then show ?thesis by (intro dropWhile_cong) auto
qed

lemma mt_upd_tree: "mt_upd (m\<lparr>mt_timetree := t\<rparr>) d e = (mt_upd m d e)\<lparr>mt_timetree := t\<rparr>"
  by (simp add: mt_upd_def)

lemma filter_enqueue: "now < k \<Longrightarrow> filter (\<lambda>x. fst x \<le> now) (enqueue k d q) = filter (\<lambda>x. fst x \<le> now) q"
  by (induction q) (auto simp: enqueue_def)

lemma next_timeout:
  assumes m: "timers_inv m" and now: "time_ok now" and q: "queue (mt_timetree m) = (k, d) # queue t" and t: "tree_inv t"
  defines "m' \<equiv> add_next_timeout now (m\<lparr>mt_timetree := t\<rparr>) d"
  shows "timers_inv m'" "mt_easy m' = (mt_easy m)(d := timers_after now (mt_easy m d))"
    "filter (\<lambda>x. fst x \<le> now) (queue (mt_timetree m')) = filter (\<lambda>x. fst x \<le> now) (queue t)"
proof -
  let ?e = "timers_after now (mt_easy m d)" and ?l = "dropWhile (\<lambda>n. fst n \<le> now) (et_timeoutlist (mt_easy m d))"
  have ok: "times_ok (et_timeoutlist (mt_easy m d))" using m by (simp add: timers_inv_def)
  have "distinct (map snd ((k, d) # queue t))" using m splay.distinct[of "mt_timetree m"] q by (simp add: timers_inv_def)
  then have qt: "set (queue t) = {x \<in> set (queue (mt_timetree m)). snd x \<noteq> d}" unfolding q by force
  have eq: "m' = (if ?l = [] then (mt_upd m d ?e)\<lparr>mt_timetree := t\<rparr>
     else (mt_upd m d ?e)\<lparr>mt_timetree := Curl_splayinsert (et_expiretime ?e) t d\<rparr>)"
    using dropWhile_times[OF ok now]
    by (cases ?l) (simp_all add: m'_def add_next_timeout_def mt_upd_tree timers_after_def Let_def del: dropWhile_eq_Nil_conv)
  show "mt_easy m' = (mt_easy m)(d := ?e)" unfolding eq by (simp add: mt_upd_def)
  have l: "times_ok ?l" using ok by (rule times_ok_drop)
  have "timers_inv m' \<and> filter (\<lambda>x. fst x \<le> now) (queue (mt_timetree m')) = filter (\<lambda>x. fst x \<le> now) (queue t)"
  proof (cases ?l)
    case Nil
    then have "timers_inv ((mt_upd m d ?e)\<lparr>mt_timetree := t\<rparr>)"
      using qt t l time_ok_zero by (intro timers_upd[OF m]) (simp_all add: timers_after_def Let_def)
    with Nil show ?thesis unfolding eq by (simp add: mt_upd_def)
  next
    case (Cons n ns)
    have n: "time_ok (fst n)" "fst n \<noteq> tv_zero" "et_expiretime ?e = fst n" "now < fst n"
      using l Cons hd_dropWhile[of "\<lambda>n. fst n \<le> now" "et_timeoutlist (mt_easy m d)"] by (simp_all add: times_ok_def timers_after_def)
    have e: "times_ok (et_timeoutlist ?e)" using l by (simp add: timers_after_def Let_def)
    have i: "timers_inv ((mt_upd m d ?e)\<lparr>mt_timetree := Curl_splayinsert (et_expiretime ?e) t d\<rparr>)"
      "queue (Curl_splayinsert (et_expiretime ?e) t d) = enqueue (et_expiretime ?e) d (queue t)"
      by (rule timers_insert[OF m t qt]; simp add: n e)+
    have "filter (\<lambda>x. fst x \<le> now) (enqueue (fst n) d (queue t)) = filter (\<lambda>x. fst x \<le> now) (queue t)"
      using n(4) by (rule filter_enqueue)
    with i Cons n show ?thesis unfolding eq by (simp add: mt_upd_def)
  qed
  then show "timers_inv m'" "filter (\<lambda>x. fst x \<le> now) (queue (mt_timetree m')) = filter (\<lambda>x. fst x \<le> now) (queue t)"
    by simp_all
qed

lemma timers_inv_tree: "timers_inv m \<Longrightarrow> tree_inv t \<Longrightarrow> queue t = queue (mt_timetree m) \<Longrightarrow> timers_inv (m\<lparr>mt_timetree := t\<rparr>)"
  by (simp add: timers_inv_def)

text \<open>The loop ends, and takes out the transfers that are due, in the order of their times.\<close>

lemma expire_loop_spec:
  assumes "timers_inv m" "time_ok now"
  shows "\<exists>m'. expire_loop now m = Some (map snd (filter (\<lambda>x. fst x \<le> now) (queue (mt_timetree m))), m') \<and> timers_inv m' \<and>
    (\<forall>x \<in> set (queue (mt_timetree m')). now < fst x) \<and>
    mt_easy m' = (\<lambda>d. if \<exists>k \<le> now. (k, d) \<in> set (queue (mt_timetree m)) then timers_after now (mt_easy m d) else mt_easy m d)"
  using assms(1)
proof (induction "length (filter (\<lambda>x. fst x \<le> now) (queue (mt_timetree m)))" arbitrary: m)
  case 0
  have t: "tree_inv (mt_timetree m)" using 0(2) by (simp add: timers_inv_def)
  have none: "\<not> fst x \<le> now" if "x \<in> set (queue (mt_timetree m))" for x using 0(1) that by (auto simp: filter_empty_conv)
  from t show ?case
  proof (cases rule: splay.getbest_cases[of _ now])
    case (none t')
    then have "expire_loop now m = Some ([], m\<lparr>mt_timetree := t'\<rparr>)" by (simp add: expire_loop.simps[of now m])
    moreover have "timers_inv (m\<lparr>mt_timetree := t'\<rparr>)" using 0(2) none by (simp add: timers_inv_tree)
    ultimately show ?thesis using 0(1) none \<open>\<And>x. x \<in> set (queue (mt_timetree m)) \<Longrightarrow> \<not> fst x \<le> now\<close> by fastforce
  next
    case (due t' k n)
    with none[of "(k, n)"] show ?thesis by simp
  qed
next
  case (Suc j)
  have t: "tree_inv (mt_timetree m)" using Suc(3) by (simp add: timers_inv_def)
  then show ?case
  proof (cases rule: splay.getbest_cases[of _ now])
    case (none t')
    with Suc(2) have False by (metis filter_False length_0_conv linorder_not_less nat.distinct(1))
    then show ?thesis ..
  next
    case (due t' k d)
    let ?m = "add_next_timeout now (m\<lparr>mt_timetree := t'\<rparr>) d"
    note n = next_timeout[OF Suc(3) assms(2) due(3,2)]
    from Suc(1)[of ?m] Suc(2) n(1,3) due(3,4) obtain m' where m': "expire_loop now ?m = Some (map snd (filter (\<lambda>x. fst x \<le> now) (queue t')), m')"
      "timers_inv m'" "\<forall>x \<in> set (queue (mt_timetree m')). now < fst x"
      "mt_easy m' = (\<lambda>d. if \<exists>k \<le> now. (k, d) \<in> set (queue (mt_timetree ?m)) then timers_after now (mt_easy ?m d) else mt_easy ?m d)"
      by auto
    have "expire_loop now m = Some (map snd (filter (\<lambda>x. fst x \<le> now) (queue (mt_timetree m))), m')"
      using m'(1) due by (simp add: expire_loop.simps[of now m])
    moreover have "mt_easy m' = (\<lambda>d. if \<exists>k \<le> now. (k, d) \<in> set (queue (mt_timetree m)) then timers_after now (mt_easy m d) else mt_easy m d)"
    proof
      fix d'
      have same: "(\<exists>k \<le> now. (k, d') \<in> set (queue (mt_timetree ?m))) \<longleftrightarrow> (\<exists>k \<le> now. (k, d') \<in> set (queue t'))"
        using arg_cong[OF n(3), of set] by auto
      have "distinct (map snd ((k, d) # queue t'))" using splay.distinct[OF t] unfolding due(3) .
      then have "\<not> (\<exists>k \<le> now. (k, d) \<in> set (queue t'))" by force
      then show "mt_easy m' d' = (if \<exists>k \<le> now. (k, d') \<in> set (queue (mt_timetree m)) then timers_after now (mt_easy m d') else mt_easy m d')"
        unfolding m'(4) same n(2) due(3) using due(4) by (cases "d' = d") auto
    qed
    ultimately show ?thesis using m'(2,3) by blast
  qed
qed

section \<open>What the application is told\<close>

lemma hd_queue_root:
  assumes "tree_inv t" "t \<noteq> Tip"
  obtains k ns b where "Curl_splay tv_zero t = Node Tip k ns b" "tree_inv (Node Tip k ns b)" "queue (Node Tip k ns b) = queue t"
    "queue t \<noteq> []" "fst (hd (queue t)) = k"
proof -
  obtain k ns b where s: "Curl_splay tv_zero t = Node Tip k ns b" "queue t = map (Pair k) ns @ queue b" "ns \<noteq> []" "tree_inv (Node Tip k ns b)"
    by (rule splay_least[OF assms])
  then show thesis using that[OF s(1,4)] by (cases ns) simp_all
qed

text \<open>The time the earliest timer is due, zero when there is none.\<close>

definition earliest :: "multi_timers \<Rightarrow> curltime" where
  "earliest m = (if queue (mt_timetree m) = [] then tv_zero else fst (hd (queue (mt_timetree m))))"

text \<open>
  Milliseconds from \<open>now\<close> that a caller may wait for the time \<open>t\<close>: none when it has come, otherwise
  at least until then and less than two milliseconds longer.
\<close>

definition wait_for :: "curltime \<Rightarrow> curltime \<Rightarrow> int \<Rightarrow> bool" where
  "wait_for now t ms \<longleftrightarrow> (if t \<le> now then ms = 0 else usecs t \<le> usecs now + ms * 1000 \<and> usecs now + ms * 1000 < usecs t + 2000)"

lemma multi_timeout_spec:
  assumes "timers_inv m" "time_ok now" "\<not> mt_dead m"
  shows "\<exists>ms t. multi_timeout now m = (ms, m\<lparr>mt_timetree := t\<rparr>) \<and> tree_inv t \<and> queue t = queue (mt_timetree m) \<and>
    (if queue (mt_timetree m) = [] then ms = -1 else 0 \<le> ms \<and> key t = earliest m \<and> wait_for now (earliest m) ms)"
proof (cases "mt_timetree m = Tip")
  case True
  with assms(3) show ?thesis
    by (intro exI[of _ "-1"] exI[of _ Tip]) (cases m, simp add: multi_timeout_def Curl_splay_def tip_inv)
next
  case False
  have t: "tree_inv (mt_timetree m)" using assms(1) by (simp add: timers_inv_def)
  obtain k ns b where s: "Curl_splay tv_zero (mt_timetree m) = Node Tip k ns b" "tree_inv (Node Tip k ns b)"
    "queue (Node Tip k ns b) = queue (mt_timetree m)" "queue (mt_timetree m) \<noteq> []" "fst (hd (queue (mt_timetree m))) = k"
    by (rule hd_queue_root[OF t False])
  have "hd (queue (mt_timetree m)) \<in> set (queue (mt_timetree m))" using s(4) by simp
  with assms(1) s(5) have k: "time_ok k" unfolding timers_inv_def by metis
  let ?ms = "if Curl_splaycomparekeys k now > 0 then Curl_timediff_ceil k now else 0"
  have "0 \<le> ?ms \<and> wait_for now k ?ms"
    using timediff_ceil[OF k assms(2)] usecs_less[OF assms(2) k] by (auto simp: wait_for_def)
  with s assms(3) show ?thesis
    by (intro exI[of _ ?ms] exI[of _ "Node Tip k ns b"]) (simp add: multi_timeout_def earliest_def)
qed

lemma update_timer_spec:
  assumes "timers_inv m" "time_ok now" "\<not> mt_dead m" "mt_timer_cb m" "rc \<noteq> -1"
  shows "\<exists>calls m'. Curl_update_timer now rc m = (True, calls, m') \<and> timers_inv m' \<and> queue (mt_timetree m') = queue (mt_timetree m) \<and>
    mt_timer_lastcall m' = earliest m \<and>
    (if mt_timer_lastcall m = earliest m then calls = []
     else \<exists>ms. calls = [ms] \<and> (if queue (mt_timetree m) = [] then ms = -1 else 0 \<le> ms \<and> wait_for now (earliest m) ms))"
proof -
  obtain ms t where t: "multi_timeout now m = (ms, m\<lparr>mt_timetree := t\<rparr>)" "tree_inv t" "queue t = queue (mt_timetree m)"
    "if queue (mt_timetree m) = [] then ms = -1 else 0 \<le> ms \<and> key t = earliest m \<and> wait_for now (earliest m) ms"
    using multi_timeout_spec[OF assms(1-3)] by blast
  let ?m = "m\<lparr>mt_timetree := t\<rparr>" and ?m' = "m\<lparr>mt_timetree := t, mt_timer_lastcall := earliest m\<rparr>"
  have inv: "timers_inv ?m" "timers_inv ?m'" using timers_inv_tree[OF assms(1) t(2,3)] by (simp_all add: timers_inv_def)
  have same: "?m' = ?m" if "mt_timer_lastcall m = earliest m" using that by (cases m) simp
  have "Curl_update_timer now rc m = (True, if mt_timer_lastcall m = earliest m then [] else [ms], ?m')"
    using t(1,4) assms(3-5) same by (cases "queue (mt_timetree m) = []") (auto simp: Curl_update_timer_def timer_called_def earliest_def)
  with inv t(3,4) show ?thesis by (auto split: if_splits)
qed

lemma update_timer_inv:
  assumes "timers_inv m" "time_ok now"
  shows "timers_inv (snd (snd (Curl_update_timer now rc m))) \<and> mt_easy (snd (snd (Curl_update_timer now rc m))) = mt_easy m \<and>
    queue (mt_timetree (snd (snd (Curl_update_timer now rc m)))) = queue (mt_timetree m) \<and> (rc \<noteq> -1 \<longrightarrow> fst (Curl_update_timer now rc m))"
proof (cases "mt_dead m")
  case False
  obtain ms t where t: "multi_timeout now m = (ms, m\<lparr>mt_timetree := t\<rparr>)" "tree_inv t" "queue t = queue (mt_timetree m)"
    using multi_timeout_spec[OF assms False] by blast
  show ?thesis
    using t(1,3) timers_inv_tree[OF assms(1) t(2,3)] assms(1)
    by (simp add: Curl_update_timer_def timer_called_def timers_inv_def)
qed (use assms in \<open>simp add: Curl_update_timer_def\<close>)

section \<open>The states the timers reach\<close>

definition timers_init :: "bool \<Rightarrow> multi_timers" where
  "timers_init cb = \<lparr>mt_timetree = Tip, mt_easy = (\<lambda>d. \<lparr>et_expiretime = tv_zero, et_timeoutlist = []\<rparr>),
     mt_timer_cb = cb, mt_dead = False, mt_timer_lastcall = tv_zero\<rparr>"

text \<open>The clock runs, and a timeout ends before the year thirty thousand.\<close>

definition clock_ok :: "curltime \<Rightarrow> int \<Rightarrow> bool" where
  "clock_ok now milli \<longleftrightarrow> time_ok now \<and> now \<noteq> tv_zero \<and> 0 \<le> milli \<and> tv_sec now + milli div 1000 + 1 < 2 ^ 40"

inductive timers_reach :: "bool \<Rightarrow> multi_timers \<Rightarrow> bool" for cb where
  reach_init: "timers_reach cb (timers_init cb)"
| reach_expire: "timers_reach cb m \<Longrightarrow> clock_ok now milli \<Longrightarrow> timers_reach cb (Curl_expire now out m d milli eid)"
| reach_done: "timers_reach cb m \<Longrightarrow> timers_reach cb (Curl_expire_done m d eid)"
| reach_clear: "timers_reach cb m \<Longrightarrow> timers_reach cb (Curl_expire_clear out m d)"
| reach_none: "timers_reach cb m \<Longrightarrow> Curl_splaygetbest now (mt_timetree m) = (t, None) \<Longrightarrow> timers_reach cb (m\<lparr>mt_timetree := t\<rparr>)"
| reach_next: "timers_reach cb m \<Longrightarrow> time_ok now \<Longrightarrow> Curl_splaygetbest now (mt_timetree m) = (t, Some d) \<Longrightarrow>
    timers_reach cb (add_next_timeout now (m\<lparr>mt_timetree := t\<rparr>) d)"
| reach_update: "timers_reach cb m \<Longrightarrow> time_ok now \<Longrightarrow> Curl_update_timer now rc m = (r, calls, m') \<Longrightarrow> timers_reach cb m'"
| reach_lastcall: "timers_reach cb m \<Longrightarrow> timers_reach cb (m\<lparr>mt_timer_lastcall := tv_zero\<rparr>)"

text \<open>What one look at the queue gives.\<close>

lemma getbest_none:
  assumes "timers_inv m" "Curl_splaygetbest now (mt_timetree m) = (t, None)"
  shows "tree_inv t" "queue t = queue (mt_timetree m)" "\<forall>x \<in> set (queue (mt_timetree m)). now < fst x"
proof -
  have "tree_inv (mt_timetree m)" using assms(1) by (simp add: timers_inv_def)
  then have "tree_inv t \<and> queue t = queue (mt_timetree m) \<and> (\<forall>x \<in> set (queue (mt_timetree m)). now < fst x)"
    by (cases rule: splay.getbest_cases[of _ now]) (use assms(2) in auto)
  then show "tree_inv t" "queue t = queue (mt_timetree m)" "\<forall>x \<in> set (queue (mt_timetree m)). now < fst x" by simp_all
qed

lemma getbest_some:
  assumes "timers_inv m" "Curl_splaygetbest now (mt_timetree m) = (t, Some d)"
  shows "\<exists>k. tree_inv t \<and> queue (mt_timetree m) = (k, d) # queue t \<and> k \<le> now"
proof -
  have "tree_inv (mt_timetree m)" using assms(1) by (simp add: timers_inv_def)
  then show ?thesis by (cases rule: splay.getbest_cases[of _ now]) (use assms(2) in auto)
qed

lemma reach_inv: "timers_reach cb m \<Longrightarrow> timers_inv m"
proof (induction rule: timers_reach.induct)
  case reach_init
  then show ?case by (simp add: timers_inv_def timers_init_def tip_inv time_ok_zero times_ok_def)
next
  case (reach_expire m now milli out d eid)
  then show ?case by (simp add: clock_ok_def expire_inv)
next
  case (reach_none m now t)
  then show ?case using getbest_none[of m] by (simp add: timers_inv_tree)
next
  case (reach_next m now t d)
  from getbest_some[OF reach_next.IH reach_next.hyps(3)] show ?case
    using next_timeout(1)[OF reach_next.IH reach_next.hyps(2)] by blast
next
  case (reach_update m now rc r calls m')
  then show ?case using update_timer_inv[of m now rc] by simp
qed (simp_all add: expire_done_inv expire_clear_inv, simp add: timers_inv_def)

section \<open>No timeout is forgotten\<close>

text \<open>
  The list is sorted by seconds, and the transfer is queued for a second not after that of any
  timeout in its list. Nothing finer is true: see \<open>expire_postponed\<close>.
\<close>

definition list_inv :: "easy_timers \<Rightarrow> bool" where
  "list_inv e \<longleftrightarrow> sorted (map (tv_sec \<circ> fst) (et_timeoutlist e)) \<and> (\<forall>n \<in> set (et_timeoutlist e). tv_sec (et_expiretime e) \<le> tv_sec (fst n)) \<and>
     (et_expiretime e = tv_zero \<longrightarrow> et_timeoutlist e = [])"

lemma timediff_sec:
  assumes "time_ok s" "time_ok t"
  shows "Curl_timediff s t > 0 \<Longrightarrow> tv_sec t \<le> tv_sec s" "\<not> Curl_timediff s t > 0 \<Longrightarrow> tv_sec s \<le> tv_sec t"
proof -
  have u: "-999 \<le> (tv_usec s - tv_usec t) sdiv 1000" "(tv_usec s - tv_usec t) sdiv 1000 \<le> 999"
    using assms by (cases "0 \<le> tv_usec s - tv_usec t"; simp add: sdiv_nonneg sdiv_neg time_ok_def; linarith)+
  then show "Curl_timediff s t > 0 \<Longrightarrow> tv_sec t \<le> tv_sec s" "\<not> Curl_timediff s t > 0 \<Longrightarrow> tv_sec s \<le> tv_sec t"
    unfolding timediff[OF assms] by simp_all
qed

lemma sorted_deltimeout: "sorted (map (tv_sec \<circ> fst) ns) \<Longrightarrow> sorted (map (tv_sec \<circ> fst) (multi_deltimeout ns eid))"
proof (induction ns)
  case (Cons n ns)
  then show ?case using set_deltimeout[of ns eid] by auto
qed simp

lemma sorted_addtimeout:
  assumes "times_ok ns" "time_ok t" "sorted (map (tv_sec \<circ> fst) ns)"
  shows "sorted (map (tv_sec \<circ> fst) (multi_addtimeout ns t eid))"
  using assms(1,3)
proof (induction ns)
  case (Cons n ns)
  have n: "time_ok (fst n)" "times_ok ns" using Cons.prems(1) by (simp_all add: times_ok_def)
  show ?case
    using Cons.IH[OF n(2)] Cons.prems(2) timediff_sec[OF n(1) assms(2)]
    by (auto simp: set_addtimeout intro: order_trans)
qed simp

lemma list_inv_after:
  assumes "list_inv e" "times_ok (et_timeoutlist e)"
  shows "list_inv (timers_after now e)"
proof -
  let ?l = "dropWhile (\<lambda>n. fst n \<le> now) (et_timeoutlist e)"
  have "sorted (map (tv_sec \<circ> fst) ?l)"
    using assms(1) sorted_wrt_drop unfolding list_inv_def by (metis drop_map dropWhile_eq_drop)
  moreover have "times_ok ?l" by (rule times_ok_drop[OF assms(2)])
  ultimately show ?thesis
    unfolding list_inv_def timers_after_def Let_def by (cases ?l) (auto simp: times_ok_def simp del: dropWhile_eq_Nil_conv)
qed

lemma list_inv_expire:
  assumes m: "timers_inv m" and now: "clock_ok now milli" and l: "list_inv (mt_easy m d)"
  shows "list_inv (mt_easy (Curl_expire now out m d milli eid) d)"
proof -
  let ?e = "mt_easy m d" and ?s = "expire_set now milli"
  let ?l = "multi_addtimeout (multi_deltimeout (et_timeoutlist ?e) eid) ?s eid"
  have s: "time_ok ?s" "?s \<noteq> tv_zero" using now expire_set_ok[of now milli] by (simp_all add: clock_ok_def)
  have e: "time_ok (et_expiretime ?e)" "times_ok (et_timeoutlist ?e)" using m by (simp_all add: timers_inv_def)
  note sec = timediff_sec[OF s(1) e(1)]
  have "sorted (map (tv_sec \<circ> fst) ?l)"
    using l e(2) s(1) by (simp add: list_inv_def sorted_addtimeout sorted_deltimeout times_ok_delete)
  moreover have "tv_sec t \<le> tv_sec (fst n)" if "n \<in> set ?l" "tv_sec t \<le> tv_sec ?s" "tv_sec t \<le> tv_sec (et_expiretime ?e) \<or> et_expiretime ?e = tv_zero" for n t
  proof -
    have "n = (?s, eid) \<or> n \<in> set (et_timeoutlist ?e)" using that(1) set_deltimeout by (auto simp: set_addtimeout)
    then show ?thesis using that(2,3) l by (auto simp: list_inv_def intro: order_trans)
  qed
  moreover have "et_expiretime ?e \<noteq> tv_zero \<longleftrightarrow> tv_sec (et_expiretime ?e) \<noteq> 0 \<or> tv_usec (et_expiretime ?e) \<noteq> 0" using tv_zero_iff by blast
  ultimately show ?thesis using sec s(2)
    by (auto simp: list_inv_def Curl_expire_def Let_def mt_upd_def)
qed

lemma easy_other: "d' \<noteq> d \<Longrightarrow> mt_easy (Curl_expire now out m d milli eid) d' = mt_easy m d'"
  by (simp add: Curl_expire_def Let_def mt_upd_def)

lemma reach_list: "timers_reach cb m \<Longrightarrow> list_inv (mt_easy m d)"
proof (induction rule: timers_reach.induct)
  case reach_init
  then show ?case by (simp add: timers_init_def list_inv_def)
next
  case (reach_expire m now milli out d' eid)
  then show ?case using list_inv_expire[OF reach_inv] easy_other by (cases "d = d'") simp_all
next
  case (reach_done m d' eid)
  then show ?case using set_deltimeout by (fastforce simp: Curl_expire_done_def Let_def mt_upd_def list_inv_def sorted_deltimeout)
next
  case (reach_clear m out d')
  then show ?case by (simp add: Curl_expire_clear_def Let_def mt_upd_def list_inv_def)
next
  case (reach_none m now t)
  then show ?case by simp
next
  case (reach_next m now t d')
  note m = reach_inv[OF reach_next.hyps(1)]
  obtain k where "tree_inv t" "queue (mt_timetree m) = (k, d') # queue t" using getbest_some[OF m reach_next.hyps(3)] by blast
  from next_timeout(2)[OF m reach_next.hyps(2) this(2,1)] show ?case
    using reach_next.IH m by (auto simp: list_inv_after timers_inv_def)
next
  case (reach_update m now rc r calls m')
  then show ?case using update_timer_inv[OF reach_inv[OF reach_update.hyps(1)] reach_update.hyps(2), of rc] by simp
qed simp

lemma queued_iff:
  assumes "timers_inv m"
  shows "(k, d) \<in> set (queue (mt_timetree m)) \<longleftrightarrow> k = et_expiretime (mt_easy m d) \<and> k \<noteq> tv_zero"
proof
  assume q: "(k, d) \<in> set (queue (mt_timetree m))"
  then have "k = et_expiretime (mt_easy m d)" using assms unfolding timers_inv_def by fastforce
  moreover have "d \<in> snd ` set (queue (mt_timetree m))" using imageI[OF q, of snd] by simp
  ultimately show "k = et_expiretime (mt_easy m d) \<and> k \<noteq> tv_zero" using assms by (simp add: timers_inv_def)
next
  assume k: "k = et_expiretime (mt_easy m d) \<and> k \<noteq> tv_zero"
  then have "et_expiretime (mt_easy m d) \<noteq> tv_zero" by blast
  with assms have "d \<in> snd ` set (queue (mt_timetree m))" by (simp add: timers_inv_def)
  then obtain k' where "(k', d) \<in> set (queue (mt_timetree m))" by auto
  moreover from this assms have "k' = et_expiretime (mt_easy m d)" unfolding timers_inv_def by fastforce
  ultimately show "(k, d) \<in> set (queue (mt_timetree m))" using k by simp
qed

section \<open>Properties\<close>

text \<open>
  C13: In every state the timers reach, the loop that takes out the expired timers ends. It returns
  the transfers whose time has come, each once and in the order of their times; afterwards no
  queued transfer is due, every transfer that was due has dropped the timeouts of its list that are
  past and is queued for the next one, and the others are as before.
\<close>

theorem timers_expire:
  assumes "timers_reach cb m" "time_ok now"
  shows "\<exists>m'. expire_loop now m = Some (map snd (filter (\<lambda>x. fst x \<le> now) (queue (mt_timetree m))), m') \<and>
    (\<forall>x \<in> set (queue (mt_timetree m')). now < fst x) \<and>
    mt_easy m' = (\<lambda>d. if \<exists>k \<le> now. (k, d) \<in> set (queue (mt_timetree m)) then timers_after now (mt_easy m d) else mt_easy m d)"
  using expire_loop_spec[OF reach_inv[OF assms(1)] assms(2)] by blast

text \<open>Two transfers, the second with two timeouts.\<close>

definition timers_example :: multi_timers where
  "timers_example = Curl_expire (Curltime 10 0) tv_zero (Curl_expire (Curltime 10 0) tv_zero
     (Curl_expire (Curltime 10 0) tv_zero (timers_init True) 1 2000 EXPIRE_TIMEOUT) 1 5 EXPIRE_SPEEDCHECK) 0 300 EXPIRE_TIMEOUT"

lemma clock_example: "0 \<le> ms \<Longrightarrow> ms < 1000000 \<Longrightarrow> clock_ok (Curltime 10 0) ms"
  by (simp add: clock_ok_def time_ok_def tv_zero_def)

lemma reach_example: "timers_reach True timers_example"
  unfolding timers_example_def by (intro reach_expire reach_init clock_example) simp_all

lemma example_tree: "queue (mt_timetree timers_example) = [(Curltime 10 5000, 1), (Curltime 10 300000, 0)]"
  by code_simp

lemma example_list: "et_timeoutlist (mt_easy timers_example 1) = [(Curltime 10 5000, EXPIRE_SPEEDCHECK), (Curltime 12 0, EXPIRE_TIMEOUT)]"
  by code_simp

theorem timers_expire_witness:
  "timers_reach True timers_example \<and> time_ok (Curltime 11 0) \<and>
   (\<exists>m'. expire_loop (Curltime 11 0) timers_example = Some ([1, 0], m') \<and> (\<forall>x \<in> set (queue (mt_timetree m')). Curltime 11 0 < fst x))"
proof -
  have now: "time_ok (Curltime 11 0)" "Curltime 10 5000 \<le> Curltime 11 0" "Curltime 10 300000 \<le> Curltime 11 0" by code_simp+
  then have due: "map snd (filter (\<lambda>x. fst x \<le> Curltime 11 0) (queue (mt_timetree timers_example))) = [1, 0]"
    by (simp add: example_tree)
  show ?thesis using timers_expire[OF reach_example now(1)] reach_example now(1) unfolding due by blast
qed

text \<open>
  C12: No timeout is forgotten. While a timeout is in the list of a transfer, the transfer is queued,
  for a time in the same second or before; so once the clock has passed that second, the loop takes
  the transfer out.
\<close>

theorem timeout_served:
  assumes "timers_reach cb m" "(t, eid) \<in> set (et_timeoutlist (mt_easy m d))"
  shows "\<exists>k. (k, d) \<in> set (queue (mt_timetree m)) \<and> tv_sec k \<le> tv_sec t \<and>
    (\<forall>now. time_ok now \<longrightarrow> tv_sec t < tv_sec now \<longrightarrow> (\<exists>ds m'. expire_loop now m = Some (ds, m') \<and> d \<in> set ds))"
proof -
  note m = reach_inv[OF assms(1)] and l = reach_list[OF assms(1), of d]
  let ?k = "et_expiretime (mt_easy m d)"
  have "?k \<noteq> tv_zero" and sec: "tv_sec ?k \<le> tv_sec t" using l assms(2) by (auto simp: list_inv_def)
  then have k: "(?k, d) \<in> set (queue (mt_timetree m))" by (simp add: queued_iff[OF m])
  have "\<exists>ds m'. expire_loop now m = Some (ds, m') \<and> d \<in> set ds" if "time_ok now" "tv_sec t < tv_sec now" for now
  proof -
    have "?k \<le> now" using sec that(2) by (simp add: less_eq_curltime_def less_curltime_def)
    with k have "(?k, d) \<in> set (filter (\<lambda>x. fst x \<le> now) (queue (mt_timetree m)))" by simp
    from imageI[OF this, of snd] have "d \<in> set (map snd (filter (\<lambda>x. fst x \<le> now) (queue (mt_timetree m))))" by simp
    then show ?thesis using expire_loop_spec[OF m that(1)] by blast
  qed
  with k sec show ?thesis by blast
qed

theorem timeout_served_witness:
  "timers_reach True timers_example \<and> (Curltime 12 0, EXPIRE_TIMEOUT) \<in> set (et_timeoutlist (mt_easy timers_example 1)) \<and>
   (\<exists>ds m'. expire_loop (Curltime 13 0) timers_example = Some (ds, m') \<and> 1 \<in> set ds)"
proof -
  have l: "(Curltime 12 0, EXPIRE_TIMEOUT) \<in> set (et_timeoutlist (mt_easy timers_example 1))" unfolding example_list by simp
  have now: "time_ok (Curltime 13 0)" by code_simp
  have "tv_sec (Curltime 12 0) < tv_sec (Curltime 13 0)" by simp
  then show ?thesis using timeout_served[OF reach_example l] reach_example l now by blast
qed

text \<open>
  C14: The application is told of the earliest timer, and only when it has changed. In every state
  the timers reach, with a callback that does not fail, \<^verbatim>\<open>Curl_update_timer\<close> succeeds, leaves the queue
  as it is and remembers the earliest time. It calls back exactly when that is not the time of the
  last call: with -1 if no timer is left, with 0 if the time has come, and otherwise with the
  milliseconds to wait, never too few and less than two too many.
\<close>

theorem update_timer_exact:
  assumes "timers_reach cb m" "time_ok now" "\<not> mt_dead m" "mt_timer_cb m" "rc \<noteq> -1"
  shows "\<exists>calls m'. Curl_update_timer now rc m = (True, calls, m') \<and> queue (mt_timetree m') = queue (mt_timetree m) \<and>
    mt_timer_lastcall m' = earliest m \<and>
    (if mt_timer_lastcall m = earliest m then calls = []
     else \<exists>ms. calls = [ms] \<and> (if queue (mt_timetree m) = [] then ms = -1 else 0 \<le> ms \<and> wait_for now (earliest m) ms))"
  using update_timer_spec[OF reach_inv[OF assms(1)] assms(2-5)] by blast

theorem update_timer_exact_witness:
  "\<exists>ms m'. Curl_update_timer (Curltime 10 1500) 0 timers_example = (True, [ms], m') \<and> wait_for (Curltime 10 1500) (Curltime 10 5000) ms"
proof -
  have m: "time_ok (Curltime 10 1500)" "\<not> mt_dead timers_example" "mt_timer_cb timers_example" "mt_timer_lastcall timers_example = tv_zero"
    by code_simp+
  have e: "earliest timers_example = Curltime 10 5000" by (simp add: earliest_def example_tree)
  have "mt_timer_lastcall timers_example \<noteq> earliest timers_example" "queue (mt_timetree timers_example) \<noteq> []"
    by (simp_all add: m(4) e tv_zero_def example_tree)
  then show ?thesis using update_timer_exact[OF reach_example m(1-3), of 0] unfolding e by (simp only: if_False) (metis zero_neq_neg_one)
qed

text \<open>A timeout of 5 milliseconds, set at second 10, and another of the same transfer that is renewed every 0.9 milliseconds.\<close>

fun renewals :: "nat \<Rightarrow> multi_timers" where
  "renewals 0 = Curl_expire (Curltime 10 0) tv_zero (timers_init True) 0 5 EXPIRE_TIMEOUT"
| "renewals (Suc j) = Curl_expire (Curltime 10 (900 * int (Suc j))) tv_zero (renewals j) 0 5 EXPIRE_SPEEDCHECK"

lemma expire_set_5:
  assumes "0 \<le> u" "u + 5000 < 1000000"
  shows "expire_set (Curltime s u) 5 = Curltime s (u + 5000)"
  using assms sint_small[of "u + 5000"] by (simp add: expire_set_def Let_def signed_divide_int_def signed_modulo_int_def)

lemma timediff_same: "Curl_timediff (Curltime s u) (Curltime s v) = (u - v) sdiv 1000"
  by (simp add: Curl_timediff_def Let_def diff_bounds signed_divide_int_def)

lemma renewals_state:
  assumes "900 * int j + 5000 < 1000000"
  shows "mt_timetree (renewals j) = Node Tip (Curltime 10 (900 * int j + 5000)) [0] Tip \<and>
    mt_easy (renewals j) 0 = \<lparr>et_expiretime = Curltime 10 (900 * int j + 5000), et_timeoutlist = (Curltime 10 5000, EXPIRE_TIMEOUT) #
      (if j = 0 then [] else [(Curltime 10 (900 * int j + 5000), EXPIRE_SPEEDCHECK)])\<rparr>"
  using assms
proof (induction j)
  case 0
  show ?case by code_simp
next
  case (Suc j)
  let ?u = "900 * int j + 5000" and ?v = "900 * int (Suc j) + 5000"
  have set: "expire_set (Curltime 10 (900 * int (Suc j))) 5 = Curltime 10 ?v" using Suc.prems by (intro expire_set_5) simp_all
  have d: "Curl_timediff (Curltime 10 ?v) (Curltime 10 ?u) = 0" "Curl_timediff (Curltime 10 5000) (Curltime 10 ?v) \<le> 0"
    unfolding timediff_same by (simp_all add: sdiv_nonneg sdiv_neg)
  have t: "Curl_splayremove tv_zero (Node Tip (Curltime 10 ?u) [0] Tip) (0 :: nat) = (0, Tip)"
    by (simp add: Curl_splayremove_def Let_def Curl_splay_def splay_loop.simps(2) KEY_NOTUSED_def)
  have IH: "mt_timetree (renewals j) = Node Tip (Curltime 10 ?u) [0] Tip" "et_expiretime (mt_easy (renewals j) 0) = Curltime 10 ?u"
    "et_timeoutlist (mt_easy (renewals j) 0) = (Curltime 10 5000, EXPIRE_TIMEOUT) # (if j = 0 then [] else [(Curltime 10 ?u, EXPIRE_SPEEDCHECK)])"
    using Suc by simp_all
  have nz: "Curltime 10 ?u \<noteq> tv_zero" "\<not> 0 < Curl_timediff (Curltime 10 ?v) (Curltime 10 ?u)" using d(1) by (simp_all add: tv_zero_def)
  have list: "multi_addtimeout (multi_deltimeout (et_timeoutlist (mt_easy (renewals j) 0)) EXPIRE_SPEEDCHECK) (Curltime 10 ?v) EXPIRE_SPEEDCHECK =
      [(Curltime 10 5000, EXPIRE_TIMEOUT), (Curltime 10 ?v, EXPIRE_SPEEDCHECK)]"
    unfolding IH(3) using d(2) by simp
  show ?case
    unfolding renewals.simps Curl_expire_def Let_def set list IH(1,2) tv_zero_iff using nz
    by (simp only: t) (simp add: mt_upd_def Curl_splayinsert_def Curl_splay_def)
qed

text \<open>
  C39: The clock of a timeout can be held back by another timeout of the same transfer. While one is
  renewed every 0.9 milliseconds, each renewal replaces the transfer's place in the queue by its own
  later time, since times are compared in whole milliseconds; the 5 milliseconds of the first are
  long over and still nothing is taken out, up to the end of the second.
\<close>

theorem expire_postponed:
  assumes "6 \<le> j" "j \<le> 1105"
  shows "timers_reach True (renewals j) \<and> (Curltime 10 5000, EXPIRE_TIMEOUT) \<in> set (et_timeoutlist (mt_easy (renewals j) 0)) \<and>
    Curltime 10 5000 < Curltime 10 (900 * int j) \<and> (\<exists>m'. expire_loop (Curltime 10 (900 * int j)) (renewals j) = Some ([], m'))"
proof -
  have reach: "timers_reach True (renewals i)" if "i \<le> 1105" for i
    using that
  proof (induction i)
    case 0
    show ?case unfolding renewals.simps by (intro reach_expire reach_init clock_example) simp_all
  next
    case (Suc i)
    then show ?case unfolding renewals.simps by (intro reach_expire) (simp_all add: clock_ok_def time_ok_def tv_zero_def)
  qed
  have now: "time_ok (Curltime 10 (900 * int j))" using assms(2) by (simp add: time_ok_def)
  have s: "mt_timetree (renewals j) = Node Tip (Curltime 10 (900 * int j + 5000)) [0] Tip"
    "(Curltime 10 5000, EXPIRE_TIMEOUT) \<in> set (et_timeoutlist (mt_easy (renewals j) 0))"
    using renewals_state[of j] assms(2) by simp_all
  have "filter (\<lambda>x. fst x \<le> Curltime 10 (900 * int j)) (queue (mt_timetree (renewals j))) = []"
    by (simp add: s(1) less_eq_curltime_def less_curltime_def)
  with expire_loop_spec[OF reach_inv[OF reach[OF assms(2)]] now]
  have "\<exists>m'. expire_loop (Curltime 10 (900 * int j)) (renewals j) = Some ([], m')" by auto
  then show ?thesis using reach[OF assms(2)] s(2) assms(1) by (simp add: less_curltime_def)
qed

theorem expire_postponed_witness:
  "Curltime 10 5000 < Curltime 10 994500 \<and> (\<exists>m'. expire_loop (Curltime 10 994500) (renewals 1105) = Some ([], m'))"
proof -
  have "(6 :: nat) \<le> 1105" "(1105 :: nat) \<le> 1105" by simp_all
  from expire_postponed[OF this] show ?thesis by simp
qed

end
