(* ===== verification/Curl_Socket.thy ===== *)
theory Curl_Socket
  imports Curl Curl_Timers
begin

text \<open>
  \<^verbatim>\<open>curl_multi_socket_action\<close> (\<^verbatim>\<open>src/lib/curl/lib/multi.c\<close>), the call by which \<^verbatim>\<open>src/src/https.c\<close> tells libcurl
  that a socket or its timer is ready: which transfers it serves and what it tells the
  application about the next timer. Serving a transfer (\<^verbatim>\<open>multi_runsingle\<close>, \<^verbatim>\<open>singlesocket\<close>) is an
  argument: the codes the two return, the calls they make to the timers, for whatever transfers, and
  the time \<^verbatim>\<open>multi_runsingle\<close> leaves in the loop's variable \<^verbatim>\<open>now\<close>.
\<close>

section \<open>Serving transfers\<close>

datatype timers_op = Op_expire curltime curltime nat int expire_id | Op_done nat expire_id | Op_clear curltime nat

fun timers_exec :: "timers_op \<Rightarrow> multi_timers \<Rightarrow> multi_timers" where
  "timers_exec (Op_expire now out d milli eid) m = Curl_expire now out m d milli eid"
| "timers_exec (Op_done d eid) m = Curl_expire_done m d eid"
| "timers_exec (Op_clear out d) m = Curl_expire_clear out m d"

text \<open>
  What serving a transfer does. \<open>sv_now\<close> is the clock \<^verbatim>\<open>multi_runsingle\<close> read last and stored through its
  argument \<^verbatim>\<open>&now\<close>, if it did.
\<close>

record served =
  sv_run :: curlm_code
  sv_sockets :: curlm_code
  sv_ops :: "timers_op list"
  sv_now :: "curltime option"

definition sv_clock :: "curltime \<Rightarrow> served \<Rightarrow> curltime" where
  "sv_clock now sv = (case sv_now sv of None \<Rightarrow> now | Some t \<Rightarrow> t)"

text \<open>\<^verbatim>\<open>CURLM_OK >= result\<close>.\<close>

definition curlm_fine :: "curlm_code \<Rightarrow> bool" where
  "curlm_fine r \<longleftrightarrow> r = CURLM_OK \<or> r = CURLM_CALL_MULTI_PERFORM"

text \<open>The body of the loop for a transfer: whether the loop is left, the result, \<^verbatim>\<open>now\<close>, the state.\<close>

definition socket_serve :: "served \<Rightarrow> curltime \<Rightarrow> multi_timers \<Rightarrow> bool \<times> curlm_code \<times> curltime \<times> multi_timers" where
  "socket_serve sv now m =
     (let m = fold timers_exec (sv_ops sv) m; now = sv_clock now sv in
      if curlm_fine (sv_run sv) then (sv_sockets sv \<noteq> CURLM_OK, sv_sockets sv, now, m) else (False, sv_run sv, now, m))"

text \<open>
  The loop of \<^verbatim>\<open>multi_socket\<close>: \<open>run i d\<close> is what serving the transfer \<open>d\<close> does in turn \<open>i\<close>. It gives the
  result, the transfers served in order, and the state.
\<close>

partial_function (option) socket_loop ::
  "(nat \<Rightarrow> nat \<Rightarrow> served) \<Rightarrow> curltime \<Rightarrow> nat \<Rightarrow> nat option \<Rightarrow> curlm_code \<Rightarrow> multi_timers \<Rightarrow> (curlm_code \<times> nat list \<times> multi_timers) option" where
  "socket_loop run now i data result m =
     (case (case data of None \<Rightarrow> (False, result, now, m) | Some d \<Rightarrow> socket_serve (run i d) now m) of (stop, result, now, m) \<Rightarrow>
      if stop then Some (result, case data of None \<Rightarrow> [] | Some d \<Rightarrow> [d], m)
      else case Curl_splaygetbest now (mt_timetree m) of
        (t, None) \<Rightarrow> Some (result, case data of None \<Rightarrow> [] | Some d \<Rightarrow> [d], m\<lparr>mt_timetree := t\<rparr>)
      | (t, Some d') \<Rightarrow>
          Option.bind (socket_loop run now (Suc i) (Some d') result (add_next_timeout now (m\<lparr>mt_timetree := t\<rparr>) d'))
            (\<lambda>(r, ds, m'). Some (r, (case data of None \<Rightarrow> [] | Some d \<Rightarrow> [d]) @ ds, m')))"

declare socket_loop.simps [code]

text \<open>
  What the environment answers during a call: the clock when it starts, at every \<^verbatim>\<open>Curl_expire\<close> for
  a transfer of the socket, after those, and in \<^verbatim>\<open>Curl_update_timer\<close>; the keys of nodes outside the
  tree; the application's answer to the timer callback.
\<close>

record socket_env =
  se_now :: curltime
  se_expire :: "nat \<Rightarrow> curltime"
  se_later :: curltime
  se_update :: curltime
  se_out :: curltime
  se_rc :: int
  se_run :: "nat \<Rightarrow> nat \<Rightarrow> served"

fun expire_transfers :: "socket_env \<Rightarrow> nat \<Rightarrow> nat list \<Rightarrow> multi_timers \<Rightarrow> multi_timers" where
  "expire_transfers env i [] m = m"
| "expire_transfers env i (d # ds) m = expire_transfers env (Suc i) ds (Curl_expire (se_expire env i) (se_out env) m d 0 EXPIRE_RUN_NOW)"

definition CURL_SOCKET_TIMEOUT :: int where "CURL_SOCKET_TIMEOUT = -1"

text \<open>\<^verbatim>\<open>multi_socket\<close> as \<^verbatim>\<open>curl_multi_socket_action\<close> calls it, with \<^verbatim>\<open>checkall\<close> false.\<close>

definition multi_socket ::
  "socket_env \<Rightarrow> (int \<Rightarrow> nat list option) \<Rightarrow> int \<Rightarrow> multi_timers \<Rightarrow> (curlm_code \<times> nat list \<times> multi_timers) option" where
  "multi_socket env sockhash s m =
     (if s \<noteq> CURL_SOCKET_TIMEOUT then
        case sockhash s of
          None \<Rightarrow> socket_loop (se_run env) (se_now env) 0 None CURLM_OK m
        | Some ds \<Rightarrow> socket_loop (se_run env) (se_later env) 0 None CURLM_OK (expire_transfers env 0 ds m)
      else socket_loop (se_run env) (se_now env) 0 None CURLM_OK (m\<lparr>mt_timer_lastcall := tv_zero\<rparr>))"

definition CURLM_RECURSIVE_API_CALL :: curlm_code where "CURLM_RECURSIVE_API_CALL = CURLM_fail 8"
definition CURLM_ABORTED_BY_CALLBACK :: curlm_code where "CURLM_ABORTED_BY_CALLBACK = CURLM_fail 11"

text \<open>The result, the transfers served, the calls of the timer callback, the state.\<close>

definition curl_multi_socket_action ::
  "socket_env \<Rightarrow> bool \<Rightarrow> (int \<Rightarrow> nat list option) \<Rightarrow> int \<Rightarrow> multi_timers \<Rightarrow> (curlm_code \<times> nat list \<times> int list \<times> multi_timers) option" where
  "curl_multi_socket_action env in_callback sockhash s m =
     (if in_callback then Some (CURLM_RECURSIVE_API_CALL, [], [], m)
      else Option.bind (multi_socket env sockhash s m) (\<lambda>(result, ds, m).
        if curlm_fine result then
          case Curl_update_timer (se_update env) (se_rc env) m of (ok, calls, m') \<Rightarrow>
            Some (if ok then CURLM_OK else CURLM_ABORTED_BY_CALLBACK, ds, calls, m')
        else Some (result, ds, [], m)))"

section \<open>What the timer calls do to the queue\<close>

abbreviation due :: "curltime \<Rightarrow> multi_timers \<Rightarrow> (curltime \<times> nat) list" where
  "due now m \<equiv> filter (\<lambda>x. fst x \<le> now) (queue (mt_timetree m))"

text \<open>The transfers whose place in the queue a call may change.\<close>

fun moved :: "timers_op \<Rightarrow> nat set" where
  "moved (Op_expire now out d milli eid) = {d}"
| "moved (Op_done d eid) = {}"
| "moved (Op_clear out d) = {d}"

fun op_clock :: "timers_op \<Rightarrow> bool" where
  "op_clock (Op_expire clk out d milli eid) = clock_ok clk milli"
| "op_clock op = True"

lemma exec_reach: "timers_reach cb m \<Longrightarrow> op_clock op \<Longrightarrow> timers_reach cb (timers_exec op m)"
  by (cases op) (simp_all add: timers_reach.intros)

lemma fold_reach: "timers_reach cb m \<Longrightarrow> list_all op_clock ops \<Longrightarrow> timers_reach cb (fold timers_exec ops m)"
  by (induction ops arbitrary: m) (simp_all add: exec_reach)

lemma exec_unmoved: "d \<notin> moved op \<Longrightarrow> et_expiretime (mt_easy (timers_exec op m) d) = et_expiretime (mt_easy m d)"
  by (cases op) (simp_all add: Curl_expire_def Curl_expire_done_def Curl_expire_clear_def Let_def mt_upd_def)

lemma fold_unmoved: "d \<notin> \<Union> (moved ` set ops) \<Longrightarrow> et_expiretime (mt_easy (fold timers_exec ops m) d) = et_expiretime (mt_easy m d)"
  by (induction ops arbitrary: m) (simp_all add: exec_unmoved)

text \<open>What was told to the application, which no timer call touches.\<close>

definition told :: "multi_timers \<Rightarrow> bool \<times> bool \<times> curltime" where
  "told m = (mt_timer_cb m, mt_dead m, mt_timer_lastcall m)"

lemma told_tree [simp]: "told (m\<lparr>mt_timetree := t\<rparr>) = told m"
  by (simp add: told_def)

lemma told_exec: "told (timers_exec op m) = told m"
  by (cases op) (simp_all add: told_def Curl_expire_def Curl_expire_done_def Curl_expire_clear_def Let_def mt_upd_def)

lemma told_fold: "told (fold timers_exec ops m) = told m"
  by (induction ops arbitrary: m) (simp_all add: told_exec)

lemma told_next: "told (add_next_timeout now m d) = told m"
  by (simp add: told_def add_next_timeout_def Let_def mt_upd_def split: list.split)

section \<open>The transfers of a socket\<close>

lemma due_iff:
  assumes "timers_inv m"
  shows "d \<in> snd ` set (due now m) \<longleftrightarrow> et_expiretime (mt_easy m d) \<noteq> tv_zero \<and> et_expiretime (mt_easy m d) \<le> now"
proof
  assume "d \<in> snd ` set (due now m)"
  then obtain k where "(k, d) \<in> set (queue (mt_timetree m))" "k \<le> now" by auto
  then show "et_expiretime (mt_easy m d) \<noteq> tv_zero \<and> et_expiretime (mt_easy m d) \<le> now" unfolding queued_iff[OF assms] by blast
next
  assume "et_expiretime (mt_easy m d) \<noteq> tv_zero \<and> et_expiretime (mt_easy m d) \<le> now"
  then have "(et_expiretime (mt_easy m d), d) \<in> set (due now m)" using queued_iff[OF assms] by simp
  from imageI[OF this, of snd] show "d \<in> snd ` set (due now m)" by simp
qed

lemma expire_set_0:
  assumes "clock_ok clk 0"
  shows "expire_set clk 0 = clk"
proof -
  have "time_ok clk" "time_ok (expire_set clk 0)" "usecs (expire_set clk 0) = usecs clk"
    using assms expire_set[of clk 0] by (simp_all add: clock_ok_def)
  then show ?thesis using usecs_le[of clk "expire_set clk 0"] usecs_le[of "expire_set clk 0" clk] by (simp add: antisym)
qed

lemma timediff_less:
  assumes "time_ok s" "time_ok t" "Curl_timediff s t > 0"
  shows "t < s"
proof (cases "tv_sec t = tv_sec s")
  case True
  then have "tv_usec t < tv_usec s"
    using assms(3) sdiv_neg[of "tv_usec s - tv_usec t" 1000] unfolding timediff[OF assms(1,2)]
    by (cases "tv_usec s - tv_usec t \<le> 0") (simp_all add: pos_imp_zdiv_neg_iff)
  with True show ?thesis by (simp add: less_curltime_def)
next
  case False
  then show ?thesis using timediff_sec(1)[OF assms] by (simp add: less_curltime_def)
qed

lemma expire_now_due:
  assumes m: "timers_inv m" and clk: "clock_ok clk 0" "clk \<le> now" and d': "d' = d \<or> d' \<in> snd ` set (due now m)"
  shows "d' \<in> snd ` set (due now (Curl_expire clk out m d 0 eid))"
proof -
  let ?m = "Curl_expire clk out m d 0 eid" and ?k = "et_expiretime (mt_easy m d)"
  have m': "timers_inv ?m" using clk(1) m by (simp add: clock_ok_def expire_inv)
  have "et_expiretime (mt_easy ?m d') \<noteq> tv_zero \<and> et_expiretime (mt_easy ?m d') \<le> now"
  proof (cases "d' = d")
    case True
    have k: "time_ok clk" "clk \<noteq> tv_zero" "time_ok ?k" using m clk(1) by (simp_all add: timers_inv_def clock_ok_def)
    have "et_expiretime (mt_easy ?m d) = (if ?k \<noteq> tv_zero \<and> Curl_timediff clk ?k > 0 then ?k else clk)"
      unfolding Curl_expire_def Let_def tv_zero_iff expire_set_0[OF clk(1)] by (simp add: mt_upd_def)
    then show ?thesis using True k(2) clk(2) timediff_less[OF k(1,3)] by auto
  next
    case False
    then show ?thesis using d' due_iff[OF m] easy_other[of d' d] by simp
  qed
  then show ?thesis using due_iff[OF m'] by simp
qed

lemma expire_transfers_spec:
  assumes "timers_reach cb m" "\<And>i. clock_ok (se_expire env i) 0 \<and> se_expire env i \<le> now"
  shows "timers_reach cb (expire_transfers env i ds m) \<and> told (expire_transfers env i ds m) = told m \<and>
    set ds \<union> snd ` set (due now m) \<subseteq> snd ` set (due now (expire_transfers env i ds m))"
  using assms(1)
proof (induction ds arbitrary: i m)
  case (Cons d ds)
  let ?m = "Curl_expire (se_expire env i) (se_out env) m d 0 EXPIRE_RUN_NOW"
  have c: "clock_ok (se_expire env i) 0" "se_expire env i \<le> now" using assms(2) by simp_all
  let ?n = "expire_transfers env (Suc i) ds ?m"
  have d: "insert d (snd ` set (due now m)) \<subseteq> snd ` set (due now ?m)"
    using expire_now_due[OF reach_inv[OF Cons.prems] c, of _ d] by (intro subsetI) (simp only: insert_iff)
  have t: "told ?m = told m" using told_exec[of "Op_expire (se_expire env i) (se_out env) d 0 EXPIRE_RUN_NOW" m] by simp
  note ih = Cons.IH[OF reach_expire[OF Cons.prems c(1)], of "Suc i" "se_out env" d EXPIRE_RUN_NOW]
  have "set ds \<union> snd ` set (due now ?m) \<subseteq> snd ` set (due now ?n)" by (rule conjunct2[OF conjunct2[OF ih]])
  with d have "set (d # ds) \<union> snd ` set (due now m) \<subseteq> snd ` set (due now ?n)" by (simp only: list.set) blast
  with t ih show ?case by (simp only: expire_transfers.simps)
qed simp

section \<open>How long the loop can go on\<close>

text \<open>
  The values the variable \<^verbatim>\<open>now\<close> of the loop can take, from \<open>start\<close> on. The transfers settle at turn \<open>N\<close> if
  from then on no timeout is set that comes due at any of them; before, they may set what they
  like, also timeouts that are due at once.
\<close>

definition clock_values :: "curltime \<Rightarrow> (nat \<Rightarrow> nat \<Rightarrow> served) \<Rightarrow> curltime set" where
  "clock_values start run = insert start {t. \<exists>i d. sv_now (run i d) = Some t}"

fun op_after :: "curltime set \<Rightarrow> timers_op \<Rightarrow> bool" where
  "op_after V (Op_expire clk out d milli eid) \<longleftrightarrow> (\<forall>v \<in> V. v < expire_set clk milli)"
| "op_after V op \<longleftrightarrow> True"

definition settles :: "nat \<Rightarrow> curltime \<Rightarrow> (nat \<Rightarrow> nat \<Rightarrow> served) \<Rightarrow> bool" where
  "settles N start run \<longleftrightarrow> (\<forall>i \<ge> N. \<forall>d. list_all (op_after (clock_values start run)) (sv_ops (run i d)))"

text \<open>
  The work left: for every queued transfer, the timeouts of its list that can still come due, and
  one more when its time in the queue is not that of the first of them.
\<close>

definition horizon :: "curltime set \<Rightarrow> curltime \<Rightarrow> bool" where
  "horizon V t \<longleftrightarrow> (\<exists>v \<in> V. t \<le> v)"

definition weight :: "curltime set \<Rightarrow> easy_timers \<Rightarrow> nat" where
  "weight V e = (if et_expiretime e = tv_zero then 0
     else length (filter (\<lambda>n. horizon V (fst n)) (et_timeoutlist e)) +
       (if horizon V (et_expiretime e) \<and> \<not> (et_timeoutlist e \<noteq> [] \<and> fst (hd (et_timeoutlist e)) = et_expiretime e) then 1 else 0))"

definition queued :: "multi_timers \<Rightarrow> nat set" where
  "queued m = {d. et_expiretime (mt_easy m d) \<noteq> tv_zero}"

definition pot :: "curltime set \<Rightarrow> multi_timers \<Rightarrow> nat" where
  "pot V m = (\<Sum>d \<in> queued m. weight V (mt_easy m d))"

lemma queued_finite: "timers_inv m \<Longrightarrow> finite (queued m)"
proof -
  assume "timers_inv m"
  then have "queued m = snd ` set (queue (mt_timetree m))" by (auto simp: timers_inv_def queued_def)
  then show ?thesis by simp
qed

lemma pot_upd:
  assumes "finite (queued m)" "mt_easy m' = (mt_easy m)(d := e)"
  shows "pot V m' + weight V (mt_easy m d) = pot V m + weight V e"
proof -
  let ?S = "insert d (queued m)" and ?R = "\<Sum>d' \<in> queued m - {d}. weight V (mt_easy m d')"
  have out: "weight V (mt_easy n d') = 0" if "d' \<notin> queued n" for n d' using that by (simp add: queued_def weight_def)
  have fin: "finite ?S" using assms(1) by simp
  have s: "queued m \<subseteq> ?S" "queued m' \<subseteq> ?S" using assms(2) by (auto simp: queued_def)
  have "pot V m = (\<Sum>d' \<in> ?S. weight V (mt_easy m d'))" unfolding pot_def using out s(1) by (intro sum.mono_neutral_left[OF fin]) auto
  also have "\<dots> = weight V (mt_easy m d) + ?R" using assms(1) by (simp add: sum.insert_remove)
  finally have "pot V m = weight V (mt_easy m d) + ?R" .
  moreover have "pot V m' = (\<Sum>d' \<in> ?S. weight V (mt_easy m' d'))" unfolding pot_def using out s(2) by (intro sum.mono_neutral_left[OF fin]) auto
  moreover have "\<dots> = weight V e + (\<Sum>d' \<in> queued m - {d}. weight V (mt_easy m' d'))" using assms by (simp add: sum.insert_remove)
  moreover have "(\<Sum>d' \<in> queued m - {d}. weight V (mt_easy m' d')) = ?R" using assms(2) by (intro sum.cong) auto
  ultimately show ?thesis by simp
qed

text \<open>Taking a due transfer out of the queue leaves less work.\<close>

lemma length_filter_dropWhile: "length (filter P (dropWhile Q l)) \<le> length (filter P l)"
  by (induction l) auto

lemma weight_after:
  assumes "et_expiretime e \<noteq> tv_zero" "et_expiretime e \<le> now" "now \<in> V"
  shows "weight V (timers_after now e) < weight V e"
proof -
  let ?l = "et_timeoutlist e" and ?l' = "dropWhile (\<lambda>n. fst n \<le> now) (et_timeoutlist e)" and ?f = "filter (\<lambda>n. horizon V (fst n))"
  have h: "t \<le> now \<Longrightarrow> horizon V t" for t using assms(3) by (auto simp: horizon_def)
  have "weight V (timers_after now e) \<le> length (?f ?l')"
    by (cases ?l') (auto simp: weight_def timers_after_def Let_def)
  moreover have "length (?f ?l') < weight V e"
  proof (cases "?l \<noteq> [] \<and> fst (hd ?l) = et_expiretime e")
    case True
    then obtain n ns where "?l = n # ns" "fst n \<le> now" using assms(2) by (cases ?l) auto
    then show ?thesis using assms(1) h length_filter_dropWhile[of "\<lambda>n. horizon V (fst n)" "\<lambda>n. fst n \<le> now" ns]
      by (simp add: weight_def)
  next
    case False
    then show ?thesis using assms(1,2) h length_filter_dropWhile[of "\<lambda>n. horizon V (fst n)" "\<lambda>n. fst n \<le> now" ?l]
      by (simp add: weight_def less_Suc_eq_le)
  qed
  ultimately show ?thesis by linarith
qed

text \<open>The timer calls leave no more work than there was, if what they set does not come due.\<close>

lemma length_filter_deltimeout: "length (filter P (multi_deltimeout l eid)) \<le> length (filter P l)"
  by (induction l) auto

lemma weight_del: "weight V (e\<lparr>et_timeoutlist := multi_deltimeout (et_timeoutlist e) eid\<rparr>) \<le> weight V e"
proof (cases "et_timeoutlist e")
  case (Cons n ns)
  then show ?thesis
    using length_filter_deltimeout[of "\<lambda>n. horizon V (fst n)" ns eid] by (auto simp: weight_def)
qed (simp add: weight_def)

lemma filter_addtimeout: "\<not> P (t, eid) \<Longrightarrow> filter P (multi_addtimeout l t eid) = filter P l"
  by (induction l) auto

lemma weight_add:
  assumes "times_ok (et_timeoutlist e)" "time_ok t" "\<not> horizon V t"
  shows "weight V (e\<lparr>et_timeoutlist := multi_addtimeout (et_timeoutlist e) t eid\<rparr>) \<le> weight V e"
proof (cases "et_timeoutlist e")
  case Nil
  then show ?thesis using assms(3) by (auto simp: weight_def)
next
  case (Cons n ns)
  have n: "time_ok (fst n)" using assms(1) Cons by (simp add: times_ok_def)
  have "fst n \<noteq> et_expiretime e" if "Curl_timediff (fst n) t > 0" "horizon V (et_expiretime e)"
  proof
    assume "fst n = et_expiretime e"
    then have "t < et_expiretime e" using timediff_less[OF n assms(2) that(1)] by simp
    with that(2) assms(3) show False unfolding horizon_def by (meson less_le_not_le order_trans)
  qed
  then show ?thesis using Cons assms(3) filter_addtimeout[of "\<lambda>n. horizon V (fst n)" t eid] by (auto simp: weight_def)
qed

lemma weight_key:
  assumes "et_expiretime e \<noteq> tv_zero \<or> et_timeoutlist e = []" "\<not> horizon V t"
  shows "weight V (e\<lparr>et_expiretime := t\<rparr>) \<le> weight V e"
  using assms by (auto simp: weight_def)

lemma weight_expire:
  fixes eid :: expire_id
  assumes "times_ok (et_timeoutlist e)" "list_inv e" "time_ok t" "\<not> horizon V t"
  defines "e' \<equiv> e\<lparr>et_timeoutlist := multi_addtimeout (multi_deltimeout (et_timeoutlist e) eid) t eid\<rparr>"
  shows "weight V e' \<le> weight V e" "weight V (e'\<lparr>et_expiretime := t\<rparr>) \<le> weight V e"
proof -
  let ?d = "e\<lparr>et_timeoutlist := multi_deltimeout (et_timeoutlist e) eid\<rparr>"
  have e': "e' = ?d\<lparr>et_timeoutlist := multi_addtimeout (et_timeoutlist ?d) t eid\<rparr>" by (simp add: e'_def)
  have "times_ok (et_timeoutlist ?d)" using times_ok_delete[OF assms(1)] by simp
  from weight_add[OF this assms(3,4), of eid] weight_del[of V e eid] show 1: "weight V e' \<le> weight V e"
    unfolding e' by (rule order_trans)
  show "weight V (e'\<lparr>et_expiretime := t\<rparr>) \<le> weight V e"
  proof (cases "et_expiretime e = tv_zero")
    case True
    with assms(2) have "et_timeoutlist e = []" by (simp add: list_inv_def)
    then show ?thesis using assms(4) by (simp add: e'_def weight_def)
  next
    case False
    then have "et_expiretime e' \<noteq> tv_zero" by (simp add: e'_def)
    from weight_key[of e' V t] this assms(4) 1 show ?thesis by linarith
  qed
qed

lemma exec_easy:
  assumes "timers_reach cb m" "op_clock op" "op_after V op"
  shows "\<exists>d e. mt_easy (timers_exec op m) = (mt_easy m)(d := e) \<and> weight V e \<le> weight V (mt_easy m d)"
proof (cases op)
  case (Op_expire clk out d milli eid)
  let ?e = "mt_easy m d" and ?t = "expire_set clk milli"
  let ?e' = "?e\<lparr>et_timeoutlist := multi_addtimeout (multi_deltimeout (et_timeoutlist ?e) eid) ?t eid\<rparr>"
  have t: "times_ok (et_timeoutlist ?e)" "list_inv ?e" "time_ok ?t" "\<not> horizon V ?t"
    using reach_inv[OF assms(1)] reach_list[OF assms(1)] assms(2,3) expire_set_ok[of clk milli]
    by (auto simp: timers_inv_def Op_expire clock_ok_def horizon_def)
  have "mt_easy (timers_exec op m) \<in> {(mt_easy m)(d := ?e'), (mt_easy m)(d := ?e'\<lparr>et_expiretime := ?t\<rparr>)}"
    by (simp add: Op_expire Curl_expire_def Let_def mt_upd_def)
  then show ?thesis using weight_expire[OF t, of eid] by auto
next
  case (Op_done d eid)
  then show ?thesis using weight_del[of V "mt_easy m d" eid]
    by (intro exI[of _ d] exI[of _ "(mt_easy m d)\<lparr>et_timeoutlist := multi_deltimeout (et_timeoutlist (mt_easy m d)) eid\<rparr>"])
      (simp add: Curl_expire_done_def Let_def mt_upd_def)
next
  case (Op_clear out d)
  show ?thesis
  proof (cases "et_expiretime (mt_easy m d) = tv_zero")
    case True
    then have "mt_easy (timers_exec op m) = (mt_easy m)(d := mt_easy m d)"
      by (simp add: Op_clear Curl_expire_clear_def tv_zero_def Let_def)
    then show ?thesis by blast
  next
    case False
    then have "mt_easy (timers_exec op m) = (mt_easy m)(d := (mt_easy m d)\<lparr>et_timeoutlist := [], et_expiretime := tv_zero\<rparr>)"
      unfolding Op_clear timers_exec.simps Curl_expire_clear_def Let_def tv_zero_iff by (simp add: mt_upd_def)
    moreover have "weight V ((mt_easy m d)\<lparr>et_timeoutlist := [], et_expiretime := tv_zero\<rparr>) = 0" by (simp add: weight_def)
    ultimately show ?thesis by (metis le0)
  qed
qed

lemma fold_pot:
  assumes "timers_reach cb m" "list_all op_clock ops" "list_all (op_after V) ops"
  shows "pot V (fold timers_exec ops m) \<le> pot V m"
  using assms
proof (induction ops arbitrary: m)
  case (Cons op ops)
  have op: "op_clock op" "op_after V op" using Cons.prems by simp_all
  obtain d e where e: "mt_easy (timers_exec op m) = (mt_easy m)(d := e)" "weight V e \<le> weight V (mt_easy m d)"
    using exec_easy[OF Cons.prems(1) op] by blast
  have "pot V (timers_exec op m) \<le> pot V m"
    using pot_upd[OF queued_finite[OF reach_inv[OF Cons.prems(1)]] e(1), of V] e(2) by linarith
  moreover have "pot V (fold timers_exec ops (timers_exec op m)) \<le> pot V (timers_exec op m)"
    using Cons.prems by (intro Cons.IH exec_reach) simp_all
  ultimately show ?case by simp
qed simp

section \<open>The loop\<close>

text \<open>
  The environment's part: every clock reading is a good time, none in the loop is before its
  \<open>start\<close>, and \<^verbatim>\<open>singlesocket\<close> succeeds or fails, it does not ask to be called again (\<^verbatim>\<open>multi.c\<close>, lines
  2860 to 3007).
\<close>

definition run_clock :: "curltime \<Rightarrow> (nat \<Rightarrow> nat \<Rightarrow> served) \<Rightarrow> bool" where
  "run_clock start run \<longleftrightarrow> (\<forall>i d. list_all op_clock (sv_ops (run i d)) \<and> sv_sockets (run i d) \<noteq> CURLM_CALL_MULTI_PERFORM \<and>
     (case sv_now (run i d) of None \<Rightarrow> True | Some t \<Rightarrow> time_ok t \<and> start \<le> t))"

text \<open>Of the turns from \<open>i\<close> on in which \<open>ds\<close> are served: the transfers moved in the queue, and \<^verbatim>\<open>now\<close> at the end.\<close>

fun touched :: "(nat \<Rightarrow> nat \<Rightarrow> served) \<Rightarrow> nat \<Rightarrow> nat list \<Rightarrow> nat set" where
  "touched run i [] = {}"
| "touched run i (d # ds) = \<Union> (moved ` set (sv_ops (run i d))) \<union> touched run (Suc i) ds"

fun loop_now :: "curltime \<Rightarrow> (nat \<Rightarrow> nat \<Rightarrow> served) \<Rightarrow> nat \<Rightarrow> nat list \<Rightarrow> curltime" where
  "loop_now now run i [] = now"
| "loop_now now run i (d # ds) = loop_now (sv_clock now (run i d)) run (Suc i) ds"

abbreviation due_set :: "curltime \<Rightarrow> multi_timers \<Rightarrow> nat set" where
  "due_set now m \<equiv> {d. et_expiretime (mt_easy m d) \<noteq> tv_zero \<and> et_expiretime (mt_easy m d) \<le> now}"

text \<open>Where \<^verbatim>\<open>now\<close> stays while the loop runs.\<close>

definition now_ok :: "curltime \<Rightarrow> (nat \<Rightarrow> nat \<Rightarrow> served) \<Rightarrow> curltime \<Rightarrow> bool" where
  "now_ok start run now \<longleftrightarrow> time_ok now \<and> start \<le> now \<and> now \<in> clock_values start run"

lemma serve_spec:
  assumes "timers_reach cb m" "now_ok start run now" "run_clock start run" "socket_serve (run i d) now m = (stop, r, now', m')"
  shows "timers_reach cb m'" "told m' = told m" "stop \<Longrightarrow> r \<noteq> CURLM_OK" "r \<noteq> CURLM_CALL_MULTI_PERFORM"
    "now' = sv_clock now (run i d)" "now_ok start run now'" "m' = fold timers_exec (sv_ops (run i d)) m"
proof -
  have run: "list_all op_clock (sv_ops (run i d))" "sv_sockets (run i d) \<noteq> CURLM_CALL_MULTI_PERFORM"
    "\<And>t. sv_now (run i d) = Some t \<Longrightarrow> time_ok t \<and> start \<le> t"
    using assms(3) unfolding run_clock_def by (auto split: option.splits)
  show m': "m' = fold timers_exec (sv_ops (run i d)) m" and now': "now' = sv_clock now (run i d)"
    and "stop \<Longrightarrow> r \<noteq> CURLM_OK" "r \<noteq> CURLM_CALL_MULTI_PERFORM"
    using assms(4) run(2) by (auto simp: socket_serve_def curlm_fine_def Let_def split: if_splits)
  show "timers_reach cb m'" unfolding m' by (rule fold_reach[OF assms(1) run(1)])
  show "told m' = told m" unfolding m' by (rule told_fold)
  show "now_ok start run now'"
  proof (cases "sv_now (run i d)")
    case None
    then show ?thesis using assms(2) by (simp add: now' sv_clock_def)
  next
    case (Some t)
    then have "t \<in> clock_values start run" by (auto simp: clock_values_def)
    then show ?thesis using run(3)[OF Some] Some by (simp add: now' sv_clock_def now_ok_def)
  qed
qed

text \<open>Taking the first due transfer out: the others stay as they are, and there is less to do.\<close>

lemma next_due:
  assumes "timers_reach cb m" "now_ok start run now" "Curl_splaygetbest now (mt_timetree m) = (t, Some d)"
  defines "m' \<equiv> add_next_timeout now (m\<lparr>mt_timetree := t\<rparr>) d"
  shows "timers_reach cb m'" "told m' = told m" "\<And>d'. d' \<noteq> d \<Longrightarrow> mt_easy m' d' = mt_easy m d'"
    "pot (clock_values start run) m' < pot (clock_values start run) m"
proof -
  note inv = reach_inv[OF assms(1)]
  have now: "time_ok now" "now \<in> clock_values start run" using assms(2) by (simp_all add: now_ok_def)
  obtain k where k: "tree_inv t" "queue (mt_timetree m) = (k, d) # queue t" "k \<le> now" using getbest_some[OF inv assms(3)] by blast
  show "timers_reach cb m'" unfolding m'_def by (rule reach_next[OF assms(1) now(1) assms(3)])
  show "told m' = told m" unfolding m'_def by (simp add: told_next)
  have easy: "mt_easy m' = (mt_easy m)(d := timers_after now (mt_easy m d))" unfolding m'_def by (rule next_timeout(2)[OF inv now(1) k(2,1)])
  then show "\<And>d'. d' \<noteq> d \<Longrightarrow> mt_easy m' d' = mt_easy m d'" by simp
  have "(k, d) \<in> set (queue (mt_timetree m))" unfolding k(2) by simp
  then have "et_expiretime (mt_easy m d) \<noteq> tv_zero" "et_expiretime (mt_easy m d) \<le> now" using k(3) unfolding queued_iff[OF inv] by auto
  from weight_after[OF this now(2)] pot_upd[OF queued_finite[OF inv] easy, of "clock_values start run"]
  show "pot (clock_values start run) m' < pot (clock_values start run) m" by linarith
qed

abbreviation opt_list :: "'a option \<Rightarrow> 'a list" where
  "opt_list x \<equiv> (case x of None \<Rightarrow> [] | Some d \<Rightarrow> [d])"

text \<open>
  What the loop leaves, when it goes on to serve \<open>ds\<close> from turn \<open>i\<close> on. Every transfer due at \<open>start\<close> has
  been served, or another served one moved it.
\<close>

definition loop_done :: "bool \<Rightarrow> curltime \<Rightarrow> (nat \<Rightarrow> nat \<Rightarrow> served) \<Rightarrow> curltime \<Rightarrow> nat \<Rightarrow> nat list \<Rightarrow> nat list \<Rightarrow> multi_timers \<Rightarrow> curlm_code \<Rightarrow> multi_timers \<Rightarrow> bool" where
  "loop_done cb start run now i all ds m r m' \<longleftrightarrow> timers_reach cb m' \<and> told m' = told m \<and> r \<noteq> CURLM_CALL_MULTI_PERFORM \<and>
     (r = CURLM_OK \<longrightarrow> (\<forall>x \<in> set (queue (mt_timetree m')). loop_now now run i all < fst x) \<and>
        due_set start m \<subseteq> set ds \<union> touched run i all)"

abbreviation first_turn :: "nat option \<Rightarrow> nat \<Rightarrow> nat" where
  "first_turn data i \<equiv> (case data of None \<Rightarrow> Suc i | Some d \<Rightarrow> i)"

text \<open>One turn: if what follows ends, so does the loop.\<close>

lemma socket_turn:
  assumes "timers_reach cb m" "now_ok start run now" "run_clock start run" "result \<noteq> CURLM_CALL_MULTI_PERFORM"
    and "\<And>d now' r1 m1. timers_reach cb m1 \<Longrightarrow> now_ok start run now' \<Longrightarrow> r1 \<noteq> CURLM_CALL_MULTI_PERFORM \<Longrightarrow>
      (settles N start run \<and> N \<le> i \<longrightarrow> pot (clock_values start run) m1 < pot (clock_values start run) m) \<Longrightarrow>
      \<exists>r ds m'. socket_loop run now' (Suc i) (Some d) r1 m1 = Some (r, d # ds, m') \<and> loop_done cb start run now' (Suc i) (d # ds) ds m1 r m'"
  shows "\<exists>r ds m'. socket_loop run now i data result m = Some (r, opt_list data @ ds, m') \<and>
    loop_done cb start run now (first_turn data i) (opt_list data @ ds) ds m r m'"
proof -
  let ?ops = "case data of None \<Rightarrow> [] | Some d \<Rightarrow> sv_ops (run i d)" and ?V = "clock_values start run"
  obtain stop r1 now1 m1 where sv: "(case data of None \<Rightarrow> (False, result, now, m) | Some d \<Rightarrow> socket_serve (run i d) now m) = (stop, r1, now1, m1)"
    by (metis prod_cases4)
  have m1: "timers_reach cb m1" "told m1 = told m" "stop \<Longrightarrow> r1 \<noteq> CURLM_OK" "r1 \<noteq> CURLM_CALL_MULTI_PERFORM" "now_ok start run now1"
      "m1 = fold timers_exec ?ops m"
    and rest: "touched run (first_turn data i) (opt_list data @ ds) = \<Union> (moved ` set ?ops) \<union> touched run (Suc i) ds"
      "loop_now now run (first_turn data i) (opt_list data @ ds) = loop_now now1 run (Suc i) ds" for ds
  proof -
    have "timers_reach cb m1 \<and> told m1 = told m \<and> (stop \<longrightarrow> r1 \<noteq> CURLM_OK) \<and> r1 \<noteq> CURLM_CALL_MULTI_PERFORM \<and> now_ok start run now1 \<and>
      m1 = fold timers_exec ?ops m \<and> now1 = (case data of None \<Rightarrow> now | Some d \<Rightarrow> sv_clock now (run i d))"
    proof (cases data)
      case None
      then show ?thesis using sv assms(1,2,4) by simp
    next
      case (Some d)
      with sv have "socket_serve (run i d) now m = (stop, r1, now1, m1)" by simp
      from serve_spec[OF assms(1-3) this] show ?thesis unfolding Some option.case by blast
    qed
    note all = this
    show "timers_reach cb m1" "told m1 = told m" "stop \<Longrightarrow> r1 \<noteq> CURLM_OK" "r1 \<noteq> CURLM_CALL_MULTI_PERFORM" "now_ok start run now1"
      "m1 = fold timers_exec ?ops m" using all by blast+
    show "loop_now now run (first_turn data i) (opt_list data @ ds) = loop_now now1 run (Suc i) ds" for ds
      using all by (cases data) simp_all
    show "touched run (first_turn data i) (opt_list data @ ds) = \<Union> (moved ` set ?ops) \<union> touched run (Suc i) ds" for ds
      by (simp split: option.split)
  qed
  have stay: "due_set start m \<subseteq> due_set start m1 \<union> \<Union> (moved ` set ?ops)" using fold_unmoved[of _ ?ops m] m1(6) by auto
  have le: "pot ?V m1 \<le> pot ?V m" if "settles N start run" "N \<le> i"
  proof -
    have "list_all op_clock ?ops" "list_all (op_after ?V) ?ops"
      using assms(3) that by (cases data; simp add: run_clock_def settles_def)+
    from fold_pot[OF assms(1) this] show ?thesis unfolding m1(6) .
  qed
  note loop = socket_loop.simps[of run now i data result m, unfolded sv prod.case]
  show ?thesis
  proof (cases stop)
    case True
    then have "loop_done cb start run now (first_turn data i) (opt_list data @ []) [] m r1 m1" using m1 by (simp add: loop_done_def)
    moreover have "socket_loop run now i data result m = Some (r1, opt_list data @ [], m1)" unfolding loop using True by simp
    ultimately show ?thesis by blast
  next
    case go: False
    obtain t best where g: "Curl_splaygetbest now1 (mt_timetree m1) = (t, best)" by (rule prod.exhaust)
    show ?thesis
    proof (cases best)
      case None
      note g = g[unfolded None]
      note t = getbest_none[OF reach_inv[OF m1(1)] g]
      have "due_set start m1 = {}"
      proof -
        have "start \<le> now1" using m1(5) by (simp add: now_ok_def)
        moreover have "now1 < et_expiretime (mt_easy m1 d)" if "et_expiretime (mt_easy m1 d) \<noteq> tv_zero" for d
          using t(3) queued_iff[OF reach_inv[OF m1(1)], of "et_expiretime (mt_easy m1 d)" d] that by auto
        ultimately show ?thesis by (auto simp: not_le[symmetric] dest: order_trans)
      qed
      then have "loop_done cb start run now (first_turn data i) (opt_list data @ []) [] m r1 (m1\<lparr>mt_timetree := t\<rparr>)"
        unfolding loop_done_def rest using m1(2,4) reach_none[OF m1(1) g] stay t(2,3) by auto
      moreover have "socket_loop run now i data result m = Some (r1, opt_list data @ [], m1\<lparr>mt_timetree := t\<rparr>)"
        unfolding loop g using go by simp
      ultimately show ?thesis by blast
    next
      case (Some d)
      note g = g[unfolded Some]
      let ?m = "add_next_timeout now1 (m1\<lparr>mt_timetree := t\<rparr>) d"
      note n = next_due[OF m1(1,5) g]
      have "settles N start run \<and> N \<le> i \<longrightarrow> pot ?V ?m < pot ?V m" using le n(4) by auto
      from assms(5)[OF n(1) m1(5,4) this] obtain r ds m' where
        l: "socket_loop run now1 (Suc i) (Some d) r1 ?m = Some (r, d # ds, m')" "loop_done cb start run now1 (Suc i) (d # ds) ds ?m r m'"
        by blast
      have "due_set start m1 \<subseteq> insert d (due_set start ?m)" using n(3) by auto
      then have "loop_done cb start run now (first_turn data i) (opt_list data @ d # ds) (d # ds) m r m'"
        using l(2) n(2) m1(2) stay unfolding loop_done_def rest by auto
      moreover have "socket_loop run now i data result m = Some (r, opt_list data @ d # ds, m')"
        unfolding loop g using go l(1) by simp
      ultimately show ?thesis by blast
    qed
  qed
qed

text \<open>The loop ends: after turn \<open>N\<close> the work only shrinks, and up to there the turns are counted.\<close>

lemma socket_loop_settled:
  assumes "timers_reach cb m" "now_ok start run now" "run_clock start run" "result \<noteq> CURLM_CALL_MULTI_PERFORM"
    and "settles N start run" "N \<le> i"
  shows "\<exists>r ds m'. socket_loop run now i data result m = Some (r, opt_list data @ ds, m') \<and>
    loop_done cb start run now (first_turn data i) (opt_list data @ ds) ds m r m'"
  using assms
proof (induction "pot (clock_values start run) m" arbitrary: m i data result now rule: less_induct)
  case less
  show ?case
  proof (rule socket_turn[OF less.prems(1-4), of N])
    fix d now' r1 m1
    assume a: "timers_reach cb m1" "now_ok start run now'" "r1 \<noteq> CURLM_CALL_MULTI_PERFORM"
      "settles N start run \<and> N \<le> i \<longrightarrow> pot (clock_values start run) m1 < pot (clock_values start run) m"
    have "N \<le> Suc i" using less.prems(6) by simp
    from less.hyps[OF _ a(1,2) less.prems(3) a(3) less.prems(5) this, of "Some d"] a(4) less.prems(5,6)
    show "\<exists>r ds m'. socket_loop run now' (Suc i) (Some d) r1 m1 = Some (r, d # ds, m') \<and> loop_done cb start run now' (Suc i) (d # ds) ds m1 r m'"
      by simp
  qed
qed

lemma socket_loop_spec:
  assumes "timers_reach cb m" "now_ok start run now" "run_clock start run" "result \<noteq> CURLM_CALL_MULTI_PERFORM" "settles N start run"
  shows "\<exists>r ds m'. socket_loop run now i data result m = Some (r, opt_list data @ ds, m') \<and>
    loop_done cb start run now (first_turn data i) (opt_list data @ ds) ds m r m'"
  using assms
proof (induction "N - i" arbitrary: m i data result now)
  case 0
  then show ?case by (intro socket_loop_settled[of _ _ _ _ _ _ N]) simp_all
next
  case (Suc k)
  show ?case
  proof (rule socket_turn[OF Suc.prems(1-4), of N])
    fix d now' r1 m1
    assume a: "timers_reach cb m1" "now_ok start run now'" "r1 \<noteq> CURLM_CALL_MULTI_PERFORM"
    have "k = N - Suc i" using Suc.hyps(2) by simp
    from Suc.hyps(1)[OF this a(1,2) Suc.prems(3) a(3) Suc.prems(5), of "Some d"]
    show "\<exists>r ds m'. socket_loop run now' (Suc i) (Some d) r1 m1 = Some (r, d # ds, m') \<and> loop_done cb start run now' (Suc i) (d # ds) ds m1 r m'"
      by simp
  qed
qed

section \<open>The call\<close>

text \<open>
  The clock does not go back: no reading in the loop is before \<open>se_later\<close>, the last before it.
\<close>

definition env_ok :: "socket_env \<Rightarrow> bool" where
  "env_ok env \<longleftrightarrow> time_ok (se_now env) \<and> time_ok (se_later env) \<and> time_ok (se_update env) \<and> se_now env \<le> se_later env \<and>
     (\<forall>i. clock_ok (se_expire env i) 0 \<and> se_expire env i \<le> se_later env) \<and> run_clock (se_later env) (se_run env) \<and> se_rc env \<noteq> -1"

text \<open>The time the loop starts with, and the transfers it has to serve: those due then, and those of the socket.\<close>

definition loop_start :: "socket_env \<Rightarrow> (int \<Rightarrow> nat list option) \<Rightarrow> int \<Rightarrow> curltime" where
  "loop_start env sockhash s = (if s \<noteq> CURL_SOCKET_TIMEOUT \<and> sockhash s \<noteq> None then se_later env else se_now env)"

definition to_serve :: "socket_env \<Rightarrow> (int \<Rightarrow> nat list option) \<Rightarrow> int \<Rightarrow> multi_timers \<Rightarrow> nat set" where
  "to_serve env sockhash s m = snd ` set (due (loop_start env sockhash s) m) \<union>
     (if s = CURL_SOCKET_TIMEOUT then {} else case sockhash s of None \<Rightarrow> {} | Some ds \<Rightarrow> set ds)"

lemma due_set_due: "timers_inv m \<Longrightarrow> due_set now m = snd ` set (due now m)"
  using due_iff by blast

definition socket_done :: "bool \<Rightarrow> socket_env \<Rightarrow> curltime \<Rightarrow> nat set \<Rightarrow> multi_timers \<Rightarrow> curlm_code \<Rightarrow> nat list \<Rightarrow> multi_timers \<Rightarrow> bool" where
  "socket_done cb env start D m r ds m' \<longleftrightarrow> timers_reach cb m' \<and> told m' = told m \<and> r \<noteq> CURLM_CALL_MULTI_PERFORM \<and>
     (r = CURLM_OK \<longrightarrow> (\<forall>x \<in> set (queue (mt_timetree m')). loop_now start (se_run env) 1 ds < fst x) \<and>
        D \<subseteq> set ds \<union> touched (se_run env) 1 ds)"

lemma run_clock_mono: "start \<le> start' \<Longrightarrow> run_clock start' run \<Longrightarrow> run_clock start run"
  by (fastforce simp: run_clock_def split: option.splits)

lemma loop_socket:
  assumes "timers_reach cb m" "env_ok env" "start = se_now env \<or> start = se_later env" "settles N start (se_run env)"
    "D \<subseteq> snd ` set (due start m)" "told m = told m0"
  shows "\<exists>r ds m'. socket_loop (se_run env) start 0 None CURLM_OK m = Some (r, ds, m') \<and> socket_done cb env start D m0 r ds m'"
proof -
  have "start \<le> se_later env" "time_ok start" "run_clock (se_later env) (se_run env)" using assms(2,3) by (auto simp: env_ok_def)
  then have env: "now_ok start (se_run env) start" "run_clock start (se_run env)"
    using run_clock_mono by (auto simp: now_ok_def clock_values_def)
  obtain r ds m' where l: "socket_loop (se_run env) start 0 None CURLM_OK m = Some (r, ds, m')" "loop_done cb start (se_run env) start 1 ds ds m r m'"
    using socket_loop_spec[OF assms(1) env _ assms(4), of CURLM_OK 0 None] by auto
  have "D \<subseteq> due_set start m" using assms(5) unfolding due_set_due[OF reach_inv[OF assms(1)]] .
  then have "socket_done cb env start D m0 r ds m'"
    using l(2) assms(6) unfolding loop_done_def socket_done_def by (metis subset_trans)
  with l(1) show ?thesis by blast
qed

lemma multi_socket_spec:
  assumes m: "timers_reach cb m" and env: "env_ok env" and N: "settles N (loop_start env sockhash s) (se_run env)"
  shows "\<exists>r ds m'. multi_socket env sockhash s m = Some (r, ds, m') \<and>
    socket_done cb env (loop_start env sockhash s) (to_serve env sockhash s m)
      (if s = CURL_SOCKET_TIMEOUT then m\<lparr>mt_timer_lastcall := tv_zero\<rparr> else m) r ds m'"
proof (cases "s = CURL_SOCKET_TIMEOUT")
  case True
  then have "loop_start env sockhash s = se_now env" by (simp add: loop_start_def)
  with loop_socket[OF reach_lastcall[OF m] env, of "se_now env" N "to_serve env sockhash s m"] N True
  show ?thesis by (simp add: multi_socket_def to_serve_def)
next
  case s: False
  show ?thesis
  proof (cases "sockhash s")
    case None
    then have "loop_start env sockhash s = se_now env" by (simp add: loop_start_def)
    with loop_socket[OF m env, of "se_now env" N "to_serve env sockhash s m" m] N None s
    show ?thesis by (simp add: multi_socket_def to_serve_def)
  next
    case (Some tr)
    let ?m = "expire_transfers env 0 tr m"
    have start: "loop_start env sockhash s = se_later env" using s Some by (simp add: loop_start_def)
    have c: "clock_ok (se_expire env i) 0 \<and> se_expire env i \<le> se_later env" for i using env by (simp add: env_ok_def)
    note e = expire_transfers_spec[OF m c, of 0 tr]
    have "to_serve env sockhash s m = set tr \<union> snd ` set (due (se_later env) m)"
      using s Some start unfolding to_serve_def by (simp only: if_False option.case) blast
    then have "\<exists>r ds m'. socket_loop (se_run env) (se_later env) 0 None CURLM_OK ?m = Some (r, ds, m') \<and>
        socket_done cb env (se_later env) (to_serve env sockhash s m) m r ds m'"
      using e N unfolding start by (intro loop_socket[OF _ env, of _ _ _ N]) simp_all
    then show ?thesis using s Some start by (simp add: multi_socket_def)
  qed
qed

text \<open>What the application is told at the end of a call, if the last it was told of was the time \<open>prev\<close>.\<close>

definition app_told :: "socket_env \<Rightarrow> curltime \<Rightarrow> int list \<Rightarrow> multi_timers \<Rightarrow> bool" where
  "app_told env prev calls m' \<longleftrightarrow> mt_timer_lastcall m' = earliest m' \<and>
     (if prev = earliest m' then calls = []
      else \<exists>ms. calls = [ms] \<and> (if queue (mt_timetree m') = [] then ms = -1 else 0 \<le> ms \<and> wait_for (se_update env) (earliest m') ms))"

lemma action_spec:
  assumes m: "timers_reach cb m" and env: "env_ok env" and N: "settles N (loop_start env sockhash s) (se_run env)"
  shows "\<exists>r ds calls m'. curl_multi_socket_action env False sockhash s m = Some (r, ds, calls, m') \<and> timers_reach cb m' \<and>
    (r = CURLM_OK \<longrightarrow> (\<forall>x \<in> set (queue (mt_timetree m')). loop_now (loop_start env sockhash s) (se_run env) 1 ds < fst x) \<and>
      to_serve env sockhash s m \<subseteq> set ds \<union> touched (se_run env) 1 ds \<and>
      (mt_timer_cb m \<and> \<not> mt_dead m \<longrightarrow> app_told env (if s = CURL_SOCKET_TIMEOUT then tv_zero else mt_timer_lastcall m) calls m'))"
proof -
  obtain r ds m1 where l: "multi_socket env sockhash s m = Some (r, ds, m1)"
    "socket_done cb env (loop_start env sockhash s) (to_serve env sockhash s m)
      (if s = CURL_SOCKET_TIMEOUT then m\<lparr>mt_timer_lastcall := tv_zero\<rparr> else m) r ds m1"
    using multi_socket_spec[OF m env N] by blast
  note d = l(2)[unfolded socket_done_def]
  have m1: "timers_reach cb m1" using d by blast
  note inv = reach_inv[OF m1]
  have e: "time_ok (se_update env)" "se_rc env \<noteq> -1" using env by (simp_all add: env_ok_def)
  show ?thesis
  proof (cases "r = CURLM_OK")
    case False
    then have "curl_multi_socket_action env False sockhash s m = Some (r, ds, [], m1)"
      using l(1) d by (simp add: curl_multi_socket_action_def curlm_fine_def)
    with False m1 show ?thesis by blast
  next
    case True
    obtain ok calls m2 where u: "Curl_update_timer (se_update env) (se_rc env) m1 = (ok, calls, m2)" by (rule prod_cases3)
    have q: "ok" "queue (mt_timetree m2) = queue (mt_timetree m1)" using update_timer_inv[OF inv e(1), of "se_rc env"] u e(2) by simp_all
    have a: "curl_multi_socket_action env False sockhash s m = Some (CURLM_OK, ds, calls, m2)"
      using l(1) True u q(1) by (simp add: curl_multi_socket_action_def curlm_fine_def)
    have "app_told env (if s = CURL_SOCKET_TIMEOUT then tv_zero else mt_timer_lastcall m) calls m2" if "mt_timer_cb m \<and> \<not> mt_dead m"
    proof -
      have t: "mt_timer_cb m1" "\<not> mt_dead m1" "mt_timer_lastcall m1 = (if s = CURL_SOCKET_TIMEOUT then tv_zero else mt_timer_lastcall m)"
        using d that by (auto simp: told_def split: if_splits)
      have "earliest m2 = earliest m1" by (simp add: earliest_def q(2))
      then show ?thesis using update_timer_spec[OF inv e(1) t(2,1) e(2)] unfolding app_told_def t(3)[symmetric] q(2) u prod.inject by metis
    qed
    moreover have "\<forall>x \<in> set (queue (mt_timetree m2)). loop_now (loop_start env sockhash s) (se_run env) 1 ds < fst x"
      "to_serve env sockhash s m \<subseteq> set ds \<union> touched (se_run env) 1 ds"
      using d True unfolding q(2) by blast+
    ultimately show ?thesis using a reach_update[OF m1 e(1) u] by blast
  qed
qed

lemma earliest_ok:
  assumes "timers_inv m" "queue (mt_timetree m) \<noteq> []"
  shows "time_ok (earliest m)" "earliest m \<noteq> tv_zero"
proof -
  obtain k d where h: "hd (queue (mt_timetree m)) = (k, d)" by fastforce
  have "(k, d) \<in> set (queue (mt_timetree m))" using hd_in_set[OF assms(2)] unfolding h .
  then have k: "k = et_expiretime (mt_easy m d)" "k \<noteq> tv_zero" unfolding queued_iff[OF assms(1)] by blast+
  have "time_ok k" unfolding k(1) using assms(1) by (simp add: timers_inv_def)
  with k(2) show "time_ok (earliest m)" "earliest m \<noteq> tv_zero" using assms(2) h by (simp_all add: earliest_def)
qed

text \<open>After a timeout call the application is told anew of the earliest timer, if one is left.\<close>

lemma timeout_told:
  assumes "timers_reach cb m" "env_ok env" "settles N (se_now env) (se_run env)" "mt_timer_cb m" "\<not> mt_dead m"
  shows "\<exists>r ds calls m'. curl_multi_socket_action env False sockhash CURL_SOCKET_TIMEOUT m = Some (r, ds, calls, m') \<and>
    (r = CURLM_OK \<longrightarrow> (if queue (mt_timetree m') = [] then calls = []
      else \<exists>ms. calls = [ms] \<and> 0 \<le> ms \<and> wait_for (se_update env) (earliest m') ms \<and> time_ok (earliest m')))"
proof -
  have "settles N (loop_start env sockhash CURL_SOCKET_TIMEOUT) (se_run env)" using assms(3) by (simp add: loop_start_def)
  from action_spec[OF assms(1,2) this] assms(4,5) obtain r ds calls m' where
    a: "curl_multi_socket_action env False sockhash CURL_SOCKET_TIMEOUT m = Some (r, ds, calls, m')" "timers_inv m'"
      "r = CURLM_OK \<longrightarrow> app_told env tv_zero calls m'"
    using reach_inv by auto
  have "if queue (mt_timetree m') = [] then calls = []
      else \<exists>ms. calls = [ms] \<and> 0 \<le> ms \<and> wait_for (se_update env) (earliest m') ms \<and> time_ok (earliest m')" if "r = CURLM_OK"
  proof (cases "queue (mt_timetree m') = []")
    case True
    then show ?thesis using a(3) that by (simp add: app_told_def earliest_def)
  next
    case False
    note e = earliest_ok[OF a(2) False]
    then show ?thesis using a(3) that False unfolding app_told_def by auto
  qed
  with a(1) show ?thesis by blast
qed

section \<open>Properties\<close>


text \<open>
  A tenth of a second after \<open>timers_example\<close> was made, the socket of its first transfer is ready. In
  each of the first two turns the transfer served wants to be called again at once, later it only
  sets a timeout; serving takes time.
\<close>

definition env_example :: socket_env where
  "env_example = \<lparr>se_now = Curltime 10 100000, se_expire = (\<lambda>i. Curltime 10 100010), se_later = Curltime 10 100020, se_update = Curltime 10 100400,
     se_out = tv_zero, se_rc = 0,
     se_run = (\<lambda>i d. \<lparr>sv_run = CURLM_OK, sv_sockets = CURLM_OK,
       sv_ops = [Op_expire (Curltime 10 100100) tv_zero d (if i < 3 then 0 else 700) EXPIRE_SPEEDCHECK], sv_now = Some (Curltime 10 100200)\<rparr>)\<rparr>"

definition sockets_example :: "int \<Rightarrow> nat list option" where
  "sockets_example s = (if s = 5 then Some [0] else None)"

lemma env_example_ok: "env_ok env_example"
  by (simp add: env_ok_def env_example_def run_clock_def clock_ok_def time_ok_def tv_zero_def less_eq_curltime_def less_curltime_def)

lemma env_example_settles: "settles 3 (Curltime 10 (100000 + int u)) (se_run env_example)" if "u < 1000" for u
proof -
  have "expire_set (Curltime 10 100100) 700 = Curltime 10 800100" by code_simp
  then show ?thesis using that by (auto simp: settles_def env_example_def clock_values_def less_curltime_def)
qed

lemma action_example:
  "map_option (\<lambda>(r, ds, calls, m'). (r, ds, calls)) (curl_multi_socket_action env_example False sockets_example 5 timers_example) =
     Some (CURLM_OK, [1, 0, 1, 0], [200])"
  by code_simp


end
