(* ===== verification/Hpack_Int.thy ===== *)
theory Hpack_Int
  imports Prelude
begin

text \<open>
  The integers of HPACK, the header compression of HTTP/2, as the vendored nghttp2 writes and
  reads them (\<^verbatim>\<open>src/lib/nghttp2/lib/nghttp2_hd.c\<close>): the first byte has a prefix of some bits, the rest
  follows in groups of seven. An integer may arrive in pieces.
\<close>

unbundle bit_operations_syntax

section \<open>Writing\<close>

text \<open>Buffers are lists of bytes, \<^verbatim>\<open>size_t\<close> is 64 bits wide.\<close>

definition put_byte :: "8 word list \<Rightarrow> nat \<Rightarrow> 8 word \<Rightarrow> 8 word list outcome" where
  "put_byte buf i v = (if i < length buf then Inr (buf[i := v]) else Inl Out_of_bounds)"

definition get_byte :: "8 word list \<Rightarrow> nat \<Rightarrow> 8 word outcome" where
  "get_byte buf i = (if i < length buf then Inr (buf ! i) else Inl Out_of_bounds)"

lemma word_shrinks: "(128 :: 64 word) \<le> n \<Longrightarrow> unat (drop_bit 7 n) < unat n"
  by (simp add: drop_bit_eq_div unat_div word_le_nat_alt)

function count_loop :: "64 word \<Rightarrow> nat \<Rightarrow> nat" where
  "count_loop n len = (if n \<ge> 128 then count_loop (drop_bit 7 n) (len + 1) else len)"
  by pat_completeness auto
termination by (relation "measure (\<lambda>(n, len). unat n)") (auto simp: word_shrinks)

definition count_encoded_length :: "64 word \<Rightarrow> nat \<Rightarrow> nat" where
  "count_encoded_length n prefix =
     (let k = push_bit prefix 1 - 1 in if n < k then 1 else count_loop (n - k) 1 + 1)"

function encode_loop :: "8 word list \<Rightarrow> nat \<Rightarrow> 64 word \<Rightarrow> (nat \<times> 8 word list) outcome" where
  "encode_loop buf i n =
     (if n \<ge> 128 then and_then (put_byte buf i (ucast (push_bit 7 1 OR (n AND 0x7f)))) (\<lambda>buf. encode_loop buf (i + 1) (drop_bit 7 n))
      else and_then (put_byte buf i (ucast n)) (\<lambda>buf. Inr (i + 1, buf)))"
  by pat_completeness auto
termination by (relation "measure (\<lambda>(buf, i, n). unat n)") (auto simp: word_shrinks)

declare count_loop.simps [simp del] encode_loop.simps [simp del]

definition encode_length :: "8 word list \<Rightarrow> 64 word \<Rightarrow> nat \<Rightarrow> (nat \<times> 8 word list) outcome" where
  "encode_length buf n prefix =
     (let k = push_bit prefix 1 - 1 :: 64 word in
      and_then (get_byte buf 0) (\<lambda>b.
      and_then (put_byte buf 0 (ucast (ucast b AND NOT k))) (\<lambda>buf.
      and_then (get_byte buf 0) (\<lambda>b.
      if n < k then and_then (put_byte buf 0 (ucast (ucast b OR n))) (\<lambda>buf. Inr (1, buf))
      else and_then (put_byte buf 0 (ucast (ucast b OR k))) (\<lambda>buf. encode_loop buf 1 (n - k))))))"

section \<open>Reading\<close>

text \<open>An error, or the bytes used, the integer, the shift for the next call, and whether it is complete.\<close>

datatype decoded = Decode_error | Decoded nat "32 word" nat bool

fun decode_loop :: "nat \<Rightarrow> 32 word \<Rightarrow> nat \<Rightarrow> 8 word list \<Rightarrow> decoded" where
  "decode_loop i n shift [] = Decoded i n shift False"
| "decode_loop i n shift (b # bs) =
     (let add = ucast b AND 0x7f :: 32 word in
      if shift \<ge> 32 then Decode_error
      else if drop_bit shift (-1) < add then Decode_error
      else let add = push_bit shift add in
      if - 1 - add < n then Decode_error
      else let n = n + add in
      if b AND push_bit 7 1 = 0 then Decoded (i + 1) n shift True
      else decode_loop (i + 1) n (shift + 7) bs)"

definition decode_length :: "32 word \<Rightarrow> nat \<Rightarrow> 8 word list \<Rightarrow> nat \<Rightarrow> decoded outcome" where
  "decode_length initial shift inp prefix =
     (let k = ucast (push_bit prefix 1 - 1 :: 8 word) :: 32 word in
      if initial = 0 then
        and_then (get_byte inp 0) (\<lambda>b.
        if ucast b AND k \<noteq> k then Inr (Decoded 1 (ucast b AND k) 0 True)
        else if length inp = 1 then Inr (Decoded 1 k 0 False)
        else Inr (decode_loop 1 k shift (tl inp)))
      else Inr (decode_loop 0 initial shift inp))"

text \<open>What the inflater remembers of an integer between calls, and one call: \<open>None\<close> is \<^verbatim>\<open>NGHTTP2_ERR_HEADER_COMP\<close>.\<close>

record hd_int =
  hi_left :: "64 word"
  hi_shift :: nat

definition hd_inflate_read_len :: "hd_int \<Rightarrow> 8 word list \<Rightarrow> nat \<Rightarrow> 64 word \<Rightarrow> ((nat \<times> bool) option \<times> hd_int) outcome" where
  "hd_inflate_read_len st inp prefix maxlen =
     and_then (decode_length (ucast (hi_left st)) (hi_shift st) inp prefix) (\<lambda>d.
       case d of
         Decode_error \<Rightarrow> Inr (None, st\<lparr>hi_shift := 0\<rparr>)
       | Decoded used out shift fin \<Rightarrow>
           if ucast out > maxlen then Inr (None, st\<lparr>hi_shift := shift\<rparr>)
           else Inr (Some (used, fin), st\<lparr>hi_shift := shift, hi_left := ucast out\<rparr>))"

text \<open>The pieces of the input given one after another, until the integer is complete: the bytes that are left.\<close>

fun read_pieces :: "hd_int \<Rightarrow> nat \<Rightarrow> 64 word \<Rightarrow> 8 word list list \<Rightarrow> (8 word list option \<times> hd_int) outcome" where
  "read_pieces st prefix maxlen [] = Inr (None, st)"
| "read_pieces st prefix maxlen (c # cs) =
     and_then (hd_inflate_read_len st c prefix maxlen) (\<lambda>(r, st).
       case r of
         None \<Rightarrow> Inr (None, st)
       | Some (used, fin) \<Rightarrow> if fin then Inr (Some (drop used c @ concat cs), st) else read_pieces st prefix maxlen cs)"

section \<open>What is written\<close>

text \<open>The groups of seven bits of a number, the last without the mark.\<close>

fun groups :: "nat \<Rightarrow> 8 word list" where
  "groups n = (if n \<ge> 128 then word_of_nat (128 + n mod 128) # groups (n div 128) else [word_of_nat n])"

declare groups.simps [simp del]

lemma and_127: "(n :: 64 word) AND 0x7f = take_bit 7 n"
  by (simp add: take_bit_eq_mask mask_eq_exp_minus_1)

lemma marked_byte: "(ucast (0x80 OR (n AND 0x7f) :: 64 word) :: 8 word) = word_of_nat (128 + unat n mod 128)"
proof -
  have "\<not> bit (2 ^ 7 :: 64 word) i \<or> \<not> bit (take_bit 7 n) i" for i by (auto simp only: bit_exp_iff bit_take_bit_iff)
  then have "2 ^ 7 OR take_bit 7 n = 2 ^ 7 + take_bit 7 n" by (rule disjunctive_add[symmetric])
  moreover have t: "unat (take_bit 7 n) = unat n mod 128" by (simp add: take_bit_eq_mod unat_mod)
  then have "unat (2 ^ 7 + take_bit 7 n) = 128 + unat n mod 128"
    by (subst unat_add_lem[THEN iffD1]) (simp_all add: less_trans[OF mod_less_divisor])
  ultimately have "unat (0x80 OR take_bit 7 n) = 128 + unat n mod 128" by simp
  then show ?thesis unfolding and_127
    by (simp add: word_unat_eq_iff unsigned_ucast_eq unat_of_nat take_bit_eq_mod[of 8] del: of_nat_add)
qed

lemma last_byte: "(ucast (n :: 64 word) :: 8 word) = word_of_nat (unat n)"
  by simp

lemma count_loop: "count_loop n len + 1 = len + length (groups (unat n))"
proof (induction n len rule: count_loop.induct)
  case (1 n len)
  then show ?case using word_shrinks
    by (subst count_loop.simps, subst groups.simps) (simp add: word_le_nat_alt drop_bit_eq_div unat_div)
qed

lemma groups_ne [simp]: "groups n \<noteq> []"
  by (subst groups.simps) simp

lemma encode_loop:
  "i + length (groups (unat n)) \<le> length buf \<Longrightarrow>
     encode_loop buf i n = Inr (i + length (groups (unat n)), take i buf @ groups (unat n) @ drop (i + length (groups (unat n))) buf)"
proof (induction buf i n rule: encode_loop.induct)
  case (1 buf i n)
  have i: "i < length buf" using 1(2) by (cases "groups (unat n)") simp_all
  show ?case
  proof (cases "n \<ge> 128")
    case True
    let ?b = "word_of_nat (128 + unat n mod 128) :: 8 word"
    have g: "groups (unat n) = ?b # groups (unat (drop_bit 7 n))"
      using True by (subst groups.simps) (simp add: word_le_nat_alt drop_bit_eq_div unat_div)
    have "encode_loop buf i n = encode_loop (buf[i := ?b]) (i + 1) (drop_bit 7 n)"
      using True i by (subst encode_loop.simps) (simp add: put_byte_def marked_byte del: of_nat_add)
    also have "\<dots> = Inr (i + 1 + length (groups (unat (drop_bit 7 n))), take (i + 1) (buf[i := ?b]) @ groups (unat (drop_bit 7 n)) @
        drop (i + 1 + length (groups (unat (drop_bit 7 n)))) (buf[i := ?b]))"
      using 1(2) i unfolding g by (intro 1(1)[OF True]) (simp_all add: put_byte_def marked_byte del: of_nat_add)
    finally show ?thesis using i unfolding g by (simp add: take_Suc_conv_app_nth del: of_nat_add)
  next
    case False
    then have "groups (unat n) = [word_of_nat (unat n)]" by (subst groups.simps) (simp add: word_le_nat_alt)
    then show ?thesis using False i by (subst encode_loop.simps) (simp add: put_byte_def upd_conv_take_nth_drop)
  qed
qed

text \<open>The first byte keeps the bits above the prefix.\<close>

definition first_byte :: "8 word \<Rightarrow> nat \<Rightarrow> nat \<Rightarrow> 8 word" where
  "first_byte b prefix v = (b AND NOT (mask prefix)) OR word_of_nat v"

definition int_bytes :: "8 word \<Rightarrow> nat \<Rightarrow> nat \<Rightarrow> 8 word list" where
  "int_bytes b prefix n =
     (if n < 2 ^ prefix - 1 then [first_byte b prefix n] else first_byte b prefix (2 ^ prefix - 1) # groups (n - (2 ^ prefix - 1)))"

lemma mask_minus: "push_bit prefix 1 - 1 = (mask prefix :: 'a :: len word)"
  by (simp add: mask_eq_exp_minus_1 push_bit_of_1)

lemma prefix_cases: "(prefix :: nat) \<le> 8 \<Longrightarrow> prefix \<in> {0, 1, 2, 3, 4, 5, 6, 7, 8}"
  by auto

lemma unat_mask64: "prefix \<le> 8 \<Longrightarrow> unat (mask prefix :: 64 word) = 2 ^ prefix - 1"
  by (drule prefix_cases) (auto simp: mask_eq_exp_minus_1)

lemma clear_prefix: "(ucast (ucast (b :: 8 word) AND NOT (mask prefix) :: 64 word) :: 8 word) = b AND NOT (mask prefix)"
  by (rule bit_word_eqI) (auto simp: bit_simps)

lemma set_prefix: "(ucast (ucast (b :: 8 word) OR n :: 64 word) :: 8 word) = b OR word_of_nat (unat n)"
  by (rule bit_word_eqI) (auto simp: bit_simps)

lemma count_length:
  assumes "prefix \<le> 8"
  shows "count_encoded_length n prefix = length (int_bytes b prefix (unat n))"
proof -
  have "unat (n - mask prefix) = unat n - (2 ^ prefix - 1)" if "\<not> n < mask prefix"
    using that unat_mask64[OF assms] by (simp add: unat_sub not_less)
  then show ?thesis using count_loop[of "n - mask prefix" 1] unat_mask64[OF assms]
    unfolding count_encoded_length_def int_bytes_def mask_minus Let_def word_less_nat_alt by auto
qed

lemma encode_length:
  assumes "prefix \<le> 8" "count_encoded_length n prefix \<le> length buf"
  shows "encode_length buf n prefix =
    Inr (count_encoded_length n prefix, int_bytes (hd buf) prefix (unat n) @ drop (count_encoded_length n prefix) buf)"
proof -
  have c: "count_encoded_length n prefix = length (int_bytes (hd buf) prefix (unat n))" by (rule count_length[OF assms(1)])
  then have "buf \<noteq> []" using assms(2) by (auto simp: int_bytes_def split: if_splits)
  then obtain b bs where buf: "buf = b # bs" by (cases buf) auto
  let ?k = "2 ^ prefix - 1 :: nat"
  have k: "n < mask prefix \<longleftrightarrow> unat n < ?k" "word_of_nat (unat (mask prefix :: 64 word)) = (word_of_nat ?k :: 8 word)"
    using unat_mask64[OF assms(1)] by (simp_all add: word_less_nat_alt)
  show ?thesis
  proof (cases "unat n < ?k")
    case True
    then show ?thesis using k(1) c unfolding buf encode_length_def mask_minus Let_def
      by (simp add: get_byte_def put_byte_def clear_prefix set_prefix first_byte_def int_bytes_def)
  next
    case False
    have m: "unat (n - mask prefix) = unat n - ?k" using False k(1) unat_mask64[OF assms(1)] by (simp add: unat_sub not_less)
    have "encode_length buf n prefix = encode_loop (first_byte b prefix ?k # bs) 1 (n - mask prefix)"
      using False k unfolding buf encode_length_def mask_minus Let_def
      by (simp add: get_byte_def put_byte_def clear_prefix set_prefix first_byte_def)
    also have "\<dots> = Inr (1 + length (groups (unat n - ?k)), [first_byte b prefix ?k] @ groups (unat n - ?k) @ drop (length (groups (unat n - ?k))) bs)"
      using encode_loop[of 1 "n - mask prefix" "first_byte b prefix ?k # bs"] assms(2) c False unfolding m buf by (simp add: int_bytes_def)
    finally show ?thesis using c False unfolding buf by (simp add: int_bytes_def)
  qed
qed

section \<open>What is read\<close>

text \<open>The bytes up to the first without the mark, the number they stand for, and whether there is such a byte.\<close>

fun used :: "8 word list \<Rightarrow> 8 word list" where
  "used [] = []"
| "used (b # bs) = b # (if unat b < 128 then [] else used bs)"

fun tail_value :: "8 word list \<Rightarrow> nat" where
  "tail_value [] = 0"
| "tail_value (b # bs) = unat b mod 128 + (if unat b < 128 then 0 else 128 * tail_value bs)"

definition complete :: "8 word list \<Rightarrow> bool" where
  "complete bs \<longleftrightarrow> (\<exists>b \<in> set bs. unat b < 128)"

lemma complete_simps [simp]: "\<not> complete []" "complete (b # bs) \<longleftrightarrow> unat b < 128 \<or> complete bs"
  by (auto simp: complete_def)

lemma unat_byte: "unat (b :: 8 word) < 2 ^ 8"
  using unsigned_less[of b, where ?'a = nat] by simp

lemma unat_word32: "unat (a :: 32 word) < 2 ^ 32"
  using unsigned_less[of a, where ?'a = nat] by simp

lemma low_bits: "unat (ucast (b :: 8 word) AND 0x7f :: 32 word) = unat b mod 128"
proof -
  have "ucast b AND 0x7f = take_bit 7 (ucast b :: 32 word)" by (simp add: take_bit_eq_mask mask_eq_exp_minus_1)
  moreover have "unat (ucast b :: 32 word) = unat b" using unat_byte[of b] by (simp add: unsigned_ucast_eq take_bit_nat_eq_self)
  ultimately show ?thesis by (simp add: take_bit_eq_mod unat_mod)
qed

lemma too_big: "shift < 32 \<Longrightarrow> drop_bit shift (-1) < (a :: 32 word) \<longleftrightarrow> 2 ^ 32 \<le> unat a * 2 ^ shift"
proof -
  have "unat (drop_bit shift (-1 :: 32 word)) = (2 ^ 32 - 1) div 2 ^ shift"
    unfolding unat_drop_bit_eq unsigned_minus_1_eq_mask unfolding drop_bit_eq_div by (simp add: mask_eq_exp_minus_1)
  then have "drop_bit shift (-1) < a \<longleftrightarrow> (2 ^ 32 - 1) div 2 ^ shift < unat a" by (simp add: word_less_nat_alt)
  also have "\<dots> \<longleftrightarrow> 2 ^ 32 - 1 < unat a * 2 ^ shift" by (rule div_less_iff_less_mult) simp
  finally show ?thesis by auto
qed

lemma unat_shifted: "unat (a :: 32 word) * 2 ^ shift < 2 ^ 32 \<Longrightarrow> unat (push_bit shift a) = unat a * 2 ^ shift"
  unfolding unsigned_push_bit_eq unfolding push_bit_eq_mult take_bit_eq_mod by simp

lemma sum_too_big: "- 1 - a < (n :: 32 word) \<longleftrightarrow> 2 ^ 32 \<le> unat n + unat a"
proof -
  have "unat (- 1 :: 32 word) = 2 ^ 32 - 1" by (simp add: unsigned_minus_1_eq_mask mask_eq_exp_minus_1)
  moreover have "a \<le> - 1" by simp
  ultimately have "unat (- 1 - a) = 2 ^ 32 - 1 - unat a" using unat_sub[of a "- 1"] by simp
  then show ?thesis using unat_word32[of a] by (auto simp: word_less_nat_alt)
qed

lemma even_div_128: "even (n div 128) \<longleftrightarrow> n < 128" if "n < 256" for n :: nat
proof (cases "n < 128")
  case False
  then have "n div 128 = 1" using that by (intro div_nat_eqI) simp_all
  then show ?thesis using False by simp
qed simp

lemma unmarked: "(b :: 8 word) AND push_bit 7 1 = 0 \<longleftrightarrow> unat b < 128"
proof -
  have "b AND push_bit 7 1 = 0 \<longleftrightarrow> \<not> bit b 7" using bit_iff_and_push_bit_not_eq_0[of b 7] by blast
  also have "\<dots> \<longleftrightarrow> \<not> bit (unat b) 7" by (simp add: bit_unsigned_iff)
  also have "\<dots> \<longleftrightarrow> even (unat b div 128)" by (simp add: bit_iff_odd)
  also have "\<dots> \<longleftrightarrow> unat b < 128" using even_div_128[of "unat b"] unat_byte[of b] by simp
  finally show ?thesis .
qed

lemma decode_loop_eq:
  "decode_loop i n s bs =
     (if bs = [] \<or> s + 7 * (length (used bs) - 1) < 32 \<and> unat n + tail_value bs * 2 ^ s < 2 ^ 32
      then Decoded (i + length (used bs)) (word_of_nat (unat n + tail_value bs * 2 ^ s))
        (s + 7 * (if complete bs then length (used bs) - 1 else length (used bs))) (complete bs)
      else Decode_error)"
proof (induction bs arbitrary: i n s)
  case (Cons b bs)
  let ?a = "ucast b AND 0x7f :: 32 word" and ?d = "unat b mod 128 * 2 ^ s"
  let ?n = "n + push_bit s ?a" and ?ok = "unat n + tail_value (b # bs) * 2 ^ s < 2 ^ 32"
  have big: "?d \<le> tail_value (b # bs) * 2 ^ s" by simp
  show ?case
  proof (cases "s < 32 \<and> unat n + ?d < 2 ^ 32")
    case False
    then have "decode_loop i n s (b # bs) = Decode_error"
      using too_big[of s ?a] sum_too_big[of "push_bit s ?a" n] unat_shifted[of ?a s] by (auto simp: low_bits Let_def)
    moreover have "\<not> (s + 7 * (length (used (b # bs)) - 1) < 32 \<and> ?ok)" using False big by linarith
    ultimately show ?thesis by (simp only: list.simps if_False simp_thms)
  next
    case True
    then have d: "?d < 2 ^ 32" by linarith
    then have p: "unat (push_bit s ?a) = ?d" using unat_shifted[of ?a s] by (simp add: low_bits)
    have n: "unat ?n = unat n + ?d" using True p unat_add_lem[of n "push_bit s ?a"] by simp
    then have w: "?n = word_of_nat (unat n + ?d)" using True by (simp only: word_unat_eq_iff unat_of_nat) simp
    have step: "decode_loop i n s (b # bs) = (if unat b < 128 then Decoded (i + 1) ?n s True else decode_loop (i + 1) ?n (s + 7) bs)"
    proof -
      have "\<not> 32 \<le> s" "\<not> drop_bit s (- 1) < ?a" "\<not> - 1 - push_bit s ?a < n"
        using True d too_big[of s ?a] unfolding sum_too_big p low_bits by linarith+
      then show ?thesis unfolding decode_loop.simps Let_def unmarked by (simp only: if_False)
    qed
    show ?thesis
    proof (cases "unat b < 128")
      case True
      then show ?thesis using \<open>s < 32 \<and> _\<close> step w by simp
    next
      case False
      have v: "unat n + tail_value (b # bs) * 2 ^ s = unat ?n + tail_value bs * 2 ^ (s + 7)"
        using False n by (simp add: algebra_simps power_add)
      show ?thesis
      proof (cases bs)
        case Nil
        then show ?thesis using False True step w by simp
      next
        case (Cons c cs)
        then have "length (used (b # bs)) - 1 = Suc (length (used bs) - 1)" using False by simp
        then show ?thesis unfolding step v Cons.IH using False Cons by (simp add: algebra_simps)
      qed
    qed
  qed
qed simp

section \<open>Reading in pieces\<close>

definition marked :: "8 word list \<Rightarrow> bool" where
  "marked c \<longleftrightarrow> (\<forall>b \<in> set c. 128 \<le> unat b)"

lemma marked_append:
  assumes "marked c"
  shows "used (c @ ys) = c @ used ys" "tail_value (c @ ys) = tail_value c + 128 ^ length c * tail_value ys" "complete (c @ ys) \<longleftrightarrow> complete ys"
  using assms by (induction c) (auto simp: marked_def algebra_simps)

lemma marked_all: "marked c \<Longrightarrow> used c = c" "marked c \<Longrightarrow> \<not> complete c"
  using marked_append(1,3)[of c "[]"] by simp_all

text \<open>Bytes that are an integer's tail: all but the last carry the mark.\<close>

definition whole :: "8 word list \<Rightarrow> bool" where
  "whole g \<longleftrightarrow> g \<noteq> [] \<and> marked (butlast g) \<and> unat (last g) < 128"

lemma whole_append:
  assumes "whole g"
  shows "used (g @ ys) = g" "tail_value (g @ ys) = tail_value g" "complete (g @ ys)"
proof -
  obtain c b where g: "g = c @ [b]" "marked c" "unat b < 128" using assms by (metis append_butlast_last_id whole_def)
  then show "used (g @ ys) = g" "tail_value (g @ ys) = tail_value g" "complete (g @ ys)" by (simp_all add: marked_append)
qed

lemma whole_cut: "whole (c @ g) \<Longrightarrow> g \<noteq> [] \<Longrightarrow> marked c \<and> whole g"
  by (auto simp: whole_def butlast_append marked_def)

lemma ucast_back: "(ucast (ucast (n :: 32 word) :: 64 word) :: 32 word) = n"
  by (rule bit_word_eqI) (auto simp: bit_simps)

lemma unat_up: "unat (ucast (n :: 32 word) :: 64 word) = unat n"
  using unat_word32[of n] unfolding unsigned_ucast_eq by (intro take_bit_nat_eq_self) simp

lemma unat_down: "unat n < 2 ^ 32 \<Longrightarrow> unat (ucast (n :: 64 word) :: 32 word) = unat n"
  unfolding unsigned_ucast_eq by (intro take_bit_nat_eq_self) simp

lemma ucast_le: "(ucast (n :: 32 word) :: 64 word) \<le> m \<longleftrightarrow> unat n \<le> unat m"
  by (simp add: word_le_nat_alt unat_up)

text \<open>The rest of an integer of which the value \<open>n\<close> was read.\<close>

lemma read_rest:
  assumes "n \<noteq> (0 :: 32 word)" "concat cs = g @ rest" "whole g" "s + 7 * (length g - 1) < 32"
    "unat n + tail_value g * 2 ^ s = unat (v :: 32 word)" "unat v \<le> unat maxlen"
  shows "\<exists>t. read_pieces \<lparr>hi_left = ucast n, hi_shift = s\<rparr> prefix maxlen cs = Inr (Some rest, \<lparr>hi_left = ucast v, hi_shift = t\<rparr>)"
  using assms
proof (induction cs arbitrary: n s g)
  case Nil
  then show ?case by (simp add: whole_def)
next
  case (Cons c cs)
  have len: "unat n + tail_value g * 2 ^ s < 2 ^ 32" unfolding Cons.prems(5) by (rule unat_word32)
  have read: "hd_inflate_read_len \<lparr>hi_left = ucast n, hi_shift = s\<rparr> c prefix maxlen =
      Inr (Some (j, f), \<lparr>hi_left = ucast w, hi_shift = t\<rparr>)"
    if "decode_loop 0 n s c = Decoded j w t f" "unat w \<le> unat v" for j w t f
    using Cons.prems(1,6) that ucast_le[of w maxlen]
    by (simp add: hd_inflate_read_len_def decode_length_def ucast_back Let_def not_less)
  from Cons.prems(2) obtain us where us: "c = g @ us \<and> us @ concat cs = rest \<or> c @ us = g \<and> concat cs = us @ rest"
    by (auto simp: append_eq_append_conv2)
  consider (all) r where "c = g @ r" "rest = r @ concat cs" | (cut) g' where "g = c @ g'" "concat cs = g' @ rest" "g' \<noteq> []"
    using us by (cases "us = []") auto
  then show ?case
  proof cases
    case all
    note w = whole_append[OF Cons.prems(3), of r]
    have "g \<noteq> []" using Cons.prems(3) by (simp add: whole_def)
    then have "decode_loop 0 n s c = Decoded (length g) v (s + 7 * (length g - 1)) True"
      using Cons.prems(4,5) len w unfolding all(1) decode_loop_eq by (simp add: word_unat_eq_iff unat_of_nat)
    from read[OF this] all show ?thesis by simp
  next
    case cut
    have c: "marked c" "whole g'" using whole_cut[of c g'] Cons.prems(3) cut by simp_all
    let ?n = "word_of_nat (unat n + tail_value c * 2 ^ s) :: 32 word" and ?s = "s + 7 * length c"
    have v: "tail_value g = tail_value c + 128 ^ length c * tail_value g'" unfolding cut(1) by (rule marked_append(2)[OF c(1)])
    have g: "length g - 1 = length c + (length g' - 1)" using cut by (cases g') simp_all
    have "tail_value c * 2 ^ s \<le> tail_value g * 2 ^ s" unfolding v by simp
    then have n: "unat n + tail_value c * 2 ^ s < 2 ^ 32" "unat n + tail_value c * 2 ^ s \<le> unat v" using len Cons.prems(5) by linarith+
    then have u: "unat ?n = unat n + tail_value c * 2 ^ s" by (simp only: unat_of_nat) simp
    have "decode_loop 0 n s c = Decoded (length c) ?n ?s False"
    proof -
      have "s + 7 * (length c - 1) \<le> s + 7 * (length c + (length g' - 1))" by simp
      then have "s + 7 * (length c - 1) < 32" using Cons.prems(4) unfolding g by (rule le_less_trans)
      then have "c = [] \<or> s + 7 * (length (used c) - 1) < 32 \<and> unat n + tail_value c * 2 ^ s < 2 ^ 32"
        using n(1) unfolding marked_all(1)[OF c(1)] by blast
      then show ?thesis unfolding decode_loop_eq[of 0 n s c] using marked_all[OF c(1)] by (simp only: if_True if_False) simp
    qed
    note step = read[OF this, unfolded u, OF n(2)]
    have "?n \<noteq> 0" using u Cons.prems(1) by (auto simp: word_unat_eq_iff)
    moreover have "?s + 7 * (length g' - 1) < 32" using Cons.prems(4) g by simp
    moreover have "unat ?n + tail_value g' * 2 ^ ?s = unat v"
    proof -
      have "2 ^ ?s = 2 ^ s * (128 :: nat) ^ length c" by (simp add: power_add power_mult)
      then show ?thesis using Cons.prems(5) unfolding u v by (simp add: algebra_simps)
    qed
    ultimately show ?thesis using Cons.IH[OF _ cut(2) c(2) _ _ Cons.prems(6), of ?n ?s] step by simp
  qed
qed

section \<open>Properties\<close>

lemma unat_marked: "unat (word_of_nat (128 + m mod 128) :: 8 word) = 128 + m mod 128"
  by (simp add: unat_of_nat del: of_nat_add)

lemma groups_whole: "whole (groups m) \<and> tail_value (groups m) = m"
proof (induction m rule: groups.induct)
  case (1 m)
  show ?case
  proof (cases "m \<ge> 128")
    case True
    then have g: "groups m = word_of_nat (128 + m mod 128) # groups (m div 128)" by (subst groups.simps) simp
    show ?thesis using 1[OF True] unfolding g by (simp add: whole_def marked_def unat_marked del: of_nat_add)
  next
    case False
    then have "groups m = [word_of_nat m]" by (subst groups.simps) simp
    then show ?thesis using False by (simp add: whole_def marked_def unat_of_nat)
  qed
qed

lemma groups_short: "m < 2 ^ 32 \<Longrightarrow> 7 * (length (groups m) - 1) < 32"
proof -
  have "length (groups m) = 1 \<or> 2 ^ (7 * (length (groups m) - 1)) \<le> m"
  proof (induction m rule: groups.induct)
    case (1 m)
    show ?case
    proof (cases "m \<ge> 128")
      case True
      then have g: "length (groups m) = Suc (length (groups (m div 128)))" by (subst groups.simps) simp
      have "length (groups (m div 128)) \<noteq> 0" by simp
      then have e: "(2 :: nat) ^ (7 * length (groups (m div 128))) = 128 * 2 ^ (7 * (length (groups (m div 128)) - 1))"
        by (cases "length (groups (m div 128))") (simp_all add: power_add)
      have "2 ^ (7 * (length (groups (m div 128)) - 1)) \<le> m div 128" using 1[OF True] True by auto
      then show ?thesis unfolding g using e by simp
    next
      case False
      then show ?thesis by (subst groups.simps) simp
    qed
  qed
  moreover assume "m < 2 ^ 32"
  ultimately have "length (groups m) = 1 \<or> (2 :: nat) ^ (7 * (length (groups m) - 1)) < 2 ^ 32" by linarith
  then show ?thesis by (auto simp del: power_numeral)
qed

lemma first_prefix:
  assumes "v < 2 ^ prefix" "prefix \<le> 8"
  shows "first_byte b prefix v AND mask prefix = word_of_nat v"
proof -
  have "word_of_nat v AND mask prefix = (word_of_nat v :: 8 word)"
    using assms by (simp add: take_bit_eq_mask[symmetric] take_bit_of_nat take_bit_nat_eq_self)
  then show ?thesis unfolding first_byte_def by (simp add: bit.conj_disj_distrib2 and.assoc)
qed

text \<open>The first piece of an integer that goes on: as if the prefix had been read before.\<close>

lemma prefix_bits:
  assumes "v < 2 ^ prefix" "prefix \<le> 8"
  shows "(ucast (first_byte b prefix v) AND ucast (push_bit prefix 1 - 1 :: 8 word) :: 32 word) = word_of_nat v"
proof -
  have "(ucast (first_byte b prefix v) AND ucast (mask prefix :: 8 word) :: 32 word) = ucast (first_byte b prefix v AND mask prefix)"
    by (rule bit_word_eqI) (auto simp: bit_simps)
  also have "\<dots> = ucast (word_of_nat v :: 8 word)" by (simp add: first_prefix[OF assms])
  also have "\<dots> = word_of_nat v"
  proof -
    have "(2 :: nat) ^ prefix \<le> 2 ^ 8" using assms(2) by (rule power_increasing) simp
    then have "v < 256" using assms(1) by simp
    then show ?thesis by (simp add: word_unat_eq_iff unsigned_ucast_eq unat_of_nat take_bit_nat_eq_self)
  qed
  finally show ?thesis unfolding mask_minus .
qed

lemma prefix_word:
  assumes "prefix \<le> 8"
  shows "ucast (push_bit prefix 1 - 1 :: 8 word) = (word_of_nat (2 ^ prefix - 1) :: 32 word)"
    "unat (word_of_nat (2 ^ prefix - 1) :: 32 word) = 2 ^ prefix - 1"
  using prefix_cases[OF assms] by (auto simp: mask_minus mask_eq_exp_minus_1)

lemma decode_loop_offset:
  "decode_loop (Suc i) n s bs = (case decode_loop i n s bs of Decode_error \<Rightarrow> Decode_error | Decoded j v t f \<Rightarrow> Decoded (Suc j) v t f)"
  by (simp add: decode_loop_eq)

lemma read_prefix:
  assumes "1 \<le> prefix" "prefix \<le> 8"
    "read_pieces \<lparr>hi_left = ucast (word_of_nat (2 ^ prefix - 1) :: 32 word), hi_shift = 0\<rparr> prefix maxlen (c # cs) = Inr (Some rest, st)"
  shows "read_pieces \<lparr>hi_left = 0, hi_shift = 0\<rparr> prefix maxlen ((first_byte b prefix (2 ^ prefix - 1) # c) # cs) = Inr (Some rest, st)"
proof -
  define k where "k = (word_of_nat (2 ^ prefix - 1) :: 32 word)"
  define f where "f = first_byte b prefix (2 ^ prefix - 1)"
  have "(1 :: nat) < 2 ^ prefix" using assms(1) by (intro one_less_power) simp_all
  then have k: "k \<noteq> 0" unfolding k_def using prefix_word(2)[OF assms(2)] by (auto simp: word_unat_eq_iff)
  have "ucast f AND ucast (push_bit prefix 1 - 1 :: 8 word) = k" unfolding k_def f_def by (rule prefix_bits[OF _ assms(2)]) simp
  then have "decode_length 0 0 (f # c) prefix = Inr (decode_loop 1 k 0 c)"
    unfolding decode_length_def Let_def prefix_word(1)[OF assms(2)] k_def[symmetric] by (simp add: get_byte_def)
  moreover have "decode_length k 0 c prefix = Inr (decode_loop 0 k 0 c)" using k by (simp add: decode_length_def Let_def)
  ultimately show ?thesis
    using assms(3) decode_loop_offset[of 0 k 0 c] unfolding k_def[symmetric] f_def[symmetric]
    by (cases "decode_loop 0 k 0 c") (auto simp: hd_inflate_read_len_def ucast_back split: if_splits)
qed

text \<open>
  C15: An integer that is written is read back, however its bytes are cut. For every number of 32
  bits, every prefix and every first byte, \<^verbatim>\<open>encode_length\<close> writes exactly as many bytes as
  \<^verbatim>\<open>count_encoded_length\<close> says and leaves the rest of the buffer alone; given to the inflater in any
  pieces, of which the first is not empty, followed by any other bytes, they give the number, and
  just these bytes are used up.
\<close>

theorem hpack_int_round_trip:
  assumes "1 \<le> prefix" "prefix \<le> 8" "unat n < 2 ^ 32" "n \<le> maxlen" "count_encoded_length n prefix \<le> length buf"
  shows "\<exists>bs. encode_length buf n prefix = Inr (length bs, bs @ drop (length bs) buf) \<and> length bs = count_encoded_length n prefix \<and>
    (\<forall>c cs rest. c \<noteq> [] \<longrightarrow> c @ concat cs = bs @ rest \<longrightarrow>
      (\<exists>t. read_pieces \<lparr>hi_left = 0, hi_shift = 0\<rparr> prefix maxlen (c # cs) = Inr (Some rest, \<lparr>hi_left = n, hi_shift = t\<rparr>)))"
proof -
  let ?k = "2 ^ prefix - 1 :: nat" and ?v = "ucast n :: 32 word" and ?bs = "int_bytes (hd buf) prefix (unat n)"
  have v: "unat ?v = unat n" "ucast ?v = n"
    using unat_down[OF assms(3)] unat_up[of ?v] by (simp_all only: word_unat_eq_iff)
  have "\<exists>t. read_pieces \<lparr>hi_left = 0, hi_shift = 0\<rparr> prefix maxlen (c # cs) = Inr (Some rest, \<lparr>hi_left = n, hi_shift = t\<rparr>)"
    if ne: "c \<noteq> []" and cut: "c @ concat cs = ?bs @ rest" for c cs rest
  proof (cases "unat n < ?k")
    case True
    obtain c' where c: "c = first_byte (hd buf) prefix (unat n) # c'" "rest = c' @ concat cs"
      using ne cut True by (cases c) (auto simp: int_bytes_def)
    have "ucast (first_byte (hd buf) prefix (unat n)) AND ucast (push_bit prefix 1 - 1 :: 8 word) = (word_of_nat (unat n) :: 32 word)"
      using True by (intro prefix_bits[OF _ assms(2)]) simp
    moreover have w: "word_of_nat (unat n) = ?v" using assms(3) v(1) by (simp add: word_unat_eq_iff unat_of_nat)
    moreover have "?v \<noteq> word_of_nat (2 ^ prefix - 1)" using True prefix_word(2)[OF assms(2)] v(1) by (metis less_irrefl)
    ultimately have "decode_length 0 0 c prefix = Inr (Decoded 1 ?v 0 True)"
      unfolding c(1) decode_length_def Let_def prefix_word(1)[OF assms(2)] by (simp add: get_byte_def)
    moreover have "\<not> maxlen < n" using assms(4) by simp
    ultimately show ?thesis using v(2) c by (simp add: hd_inflate_read_len_def)
  next
    case False
    obtain c' where c: "c = first_byte (hd buf) prefix ?k # c'" "concat (c' # cs) = groups (unat n - ?k) @ rest"
      using ne cut False by (cases c) (auto simp: int_bytes_def)
    note k = prefix_word(2)[OF assms(2)]
    have g: "whole (groups (unat n - ?k))" "tail_value (groups (unat n - ?k)) = unat n - ?k" using groups_whole by simp_all
    have "(1 :: nat) < 2 ^ prefix" using assms(1) by (intro one_less_power) simp_all
    then have "(word_of_nat ?k :: 32 word) \<noteq> 0" using k by (auto simp: word_unat_eq_iff)
    moreover have "0 + 7 * (length (groups (unat n - ?k)) - 1) < 32" using groups_short[OF less_imp_diff_less[OF assms(3)]] unfolding add_0 .
    moreover have "unat (word_of_nat ?k :: 32 word) + tail_value (groups (unat n - ?k)) * 2 ^ 0 = unat ?v"
      using False unfolding k g(2) v(1) by simp
    moreover have "unat ?v \<le> unat maxlen" using assms(4) v(1) by (simp add: word_le_nat_alt)
    ultimately obtain t where "read_pieces \<lparr>hi_left = ucast (word_of_nat ?k :: 32 word), hi_shift = 0\<rparr> prefix maxlen (c' # cs) =
        Inr (Some rest, \<lparr>hi_left = ucast ?v, hi_shift = t\<rparr>)"
      using read_rest[OF _ c(2) g(1)] by blast
    from read_prefix[OF assms(1,2) this] show ?thesis unfolding c(1) v(2) by blast
  qed
  then show ?thesis using encode_length[OF assms(2,5)] count_length[OF assms(2), of n "hd buf"] by (intro exI[of _ ?bs]) simp
qed


text \<open>Three pieces, of which the second is empty.\<close>

theorem hpack_int_round_trip_witness:
  "encode_length [0x80, 7, 7, 7] 1337 5 = Inr (3, [0x9f, 0x9a, 0x0a, 7]) \<and>
   (\<exists>t. read_pieces \<lparr>hi_left = 0, hi_shift = 0\<rparr> 5 65536 [[0x9f, 0x9a], [], [0x0a, 0x55], [0x66]] =
     Inr (Some [0x55, 0x66], \<lparr>hi_left = 1337, hi_shift = t\<rparr>))"
proof -
  have e: "encode_length [0x80, 7, 7, 7] 1337 5 = Inr (3, [0x9f, 0x9a, 0x0a, 7])" by code_simp
  have a: "(1 :: nat) \<le> 5" "(5 :: nat) \<le> 8" "unat (1337 :: 64 word) < 2 ^ 32" "(1337 :: 64 word) \<le> 65536"
    by simp_all
  have n: "count_encoded_length 1337 5 \<le> length [0x80, 7, 7, 7 :: 8 word]" by code_simp
  obtain bs where bs: "encode_length [0x80, 7, 7, 7] 1337 5 = Inr (length bs, bs @ drop (length bs) [0x80, 7, 7, 7])"
    "\<forall>c cs rest. c \<noteq> [] \<longrightarrow> c @ concat cs = bs @ rest \<longrightarrow>
      (\<exists>t. read_pieces \<lparr>hi_left = 0, hi_shift = 0\<rparr> 5 65536 (c # cs) = Inr (Some rest, \<lparr>hi_left = 1337, hi_shift = t\<rparr>))"
    using hpack_int_round_trip[OF a n] by blast
  have "length bs = 3" using bs(1) e by simp
  then have "bs = [0x9f, 0x9a, 0x0a]" using bs(1) e by (simp add: numeral_3_eq_3)
  then show ?thesis using e bs(2)[rule_format, of "[0x9f, 0x9a]" "[[], [0x0a, 0x55], [0x66]]" "[0x55, 0x66]"] by simp
qed

text \<open>
  C17: Reading an integer is exact on every input. From scratch, with at least one byte, the result is
  never out of bounds of the input; it is the prefix alone if that is not full, and otherwise the prefix
  plus the groups up to the first byte without the mark, as natural numbers: the code reports an
  error exactly when a group would start at bit 32 or beyond or the number does not fit 32 bits,
  and never wraps around. Without an unmarked byte it asks for more.
\<close>

theorem decode_length_exact:
  assumes "1 \<le> prefix" "prefix \<le> 8"
  shows "decode_length 0 0 (b # bs) prefix = Inr (
    let k = 2 ^ prefix - 1 in
    if unat b mod 2 ^ prefix < k then Decoded 1 (word_of_nat (unat b mod 2 ^ prefix)) 0 True
    else if bs = [] \<or> 7 * (length (used bs) - 1) < 32 \<and> k + tail_value bs < 2 ^ 32
    then Decoded (1 + length (used bs)) (word_of_nat (k + tail_value bs))
      (7 * (if complete bs then length (used bs) - 1 else length (used bs))) (complete bs)
    else Decode_error)"
proof -
  define k where "k = (word_of_nat (2 ^ prefix - 1) :: 32 word)"
  have k: "unat k = 2 ^ prefix - 1" unfolding k_def by (rule prefix_word(2)[OF assms(2)])
  have "(ucast b AND ucast (mask prefix :: 8 word) :: 32 word) = ucast (take_bit prefix b)"
    using assms(2) by (intro bit_word_eqI) (auto simp: bit_simps)
  moreover have t: "unat (take_bit prefix b) = unat b mod 2 ^ prefix" unfolding unsigned_take_bit_eq unfolding take_bit_eq_mod ..
  moreover have "unat (ucast x :: 32 word) = unat x" for x :: "8 word"
    using unat_byte[of x] unfolding unsigned_ucast_eq by (intro take_bit_nat_eq_self) simp
  ultimately have m: "unat (ucast b AND k) = unat b mod 2 ^ prefix"
    unfolding k_def prefix_word(1)[OF assms(2), symmetric] mask_minus by simp
  then have w: "ucast b AND k = word_of_nat (unat b mod 2 ^ prefix)"
    using unat_word32[of "ucast b AND k"] by (simp only: word_unat_eq_iff unat_of_nat) simp
  have "unat b mod 2 ^ prefix < 2 ^ prefix" by simp
  then have full: "ucast b AND k \<noteq> k \<longleftrightarrow> unat b mod 2 ^ prefix < 2 ^ prefix - 1"
    unfolding word_unat_eq_iff m k by linarith
  have "decode_length 0 0 (b # bs) prefix =
      Inr (if ucast b AND k \<noteq> k then Decoded 1 (ucast b AND k) 0 True else decode_loop 1 k 0 bs)"
    unfolding decode_length_def Let_def prefix_word(1)[OF assms(2)] k_def[symmetric] by (simp add: get_byte_def)
  then show ?thesis unfolding full unfolding w decode_loop_eq k Let_def by simp
qed


theorem decode_length_exact_witness:
  "decode_length 0 0 [0x1f, 0x9a, 0x0a, 7] 5 = Inr (Decoded 3 1337 7 True) \<and>
   decode_length 0 0 [0x1f, 0xff, 0xff, 0xff, 0xff, 0x0f] 5 = Inr Decode_error"
proof -
  have p: "(1 :: nat) \<le> 5" "(5 :: nat) \<le> 8" by simp_all
  show ?thesis
    using decode_length_exact[OF p, where b = "0x1f" and bs = "[0x9a, 0x0a, 7]"]
      decode_length_exact[OF p, where b = "0x1f" and bs = "[0xff, 0xff, 0xff, 0xff, 0x0f]"] by simp
qed

end
