(* ===== verification/Hpack_Ring.thy ===== *)
theory Hpack_Ring
  imports Prelude
begin

text \<open>
  The ring buffer of nghttp2's header table (\<^verbatim>\<open>src/lib/nghttp2/lib/nghttp2_hd.c\<close>): an array whose size is a
  power of two, entered at the front and left at the back. \<^verbatim>\<open>first\<close> runs downwards and wraps around.
\<close>

unbundle bit_operations_syntax

section \<open>The operations\<close>

text \<open>
  \<^verbatim>\<open>size_t\<close> is 64 bits wide where it wraps; lengths are numbers. A slot that was never written is \<open>None\<close>, and
  using it as an entry counts as following a null pointer. A failed \<^verbatim>\<open>assert\<close> is a panic.
\<close>

record 'e ringbuf =
  rb_buffer :: "'e option list"
  rb_mask :: "64 word"
  rb_first :: "64 word"
  rb_len :: nat

text \<open>The loop for the size, which starts at 1. Up to \<open>2 ^ 63\<close> the doubling does not wrap; beyond it the loop of the source has no end.\<close>

function ring_size :: "nat \<Rightarrow> nat \<Rightarrow> nat" where
  "ring_size bufsize sz = (if sz < bufsize \<and> sz \<noteq> 0 then ring_size bufsize (2 * sz) else sz)"
  by pat_completeness auto
termination by (relation "measure (\<lambda>(bufsize, sz). bufsize - sz)") auto

declare ring_size.simps [simp del]

text \<open>The array of \<^verbatim>\<open>sizeof(nghttp2_hd_entry *) * size\<close> bytes, a product that wraps.\<close>

definition ring_alloc :: "nat \<Rightarrow> 'e option list" where
  "ring_alloc sz = replicate (8 * sz mod 2 ^ 64 div 8) None"

text \<open>The argument \<open>malloc_ok\<close> says whether the allocator gives memory.\<close>

definition hd_ringbuf_init :: "nat \<Rightarrow> bool \<Rightarrow> 'e ringbuf option" where
  "hd_ringbuf_init bufsize malloc_ok =
     (let sz = ring_size bufsize 1 in
      if \<not> malloc_ok then None
      else Some \<lparr>rb_buffer = ring_alloc sz, rb_mask = word_of_nat sz - 1, rb_first = 0, rb_len = 0\<rparr>)"

definition hd_ringbuf_get :: "'e ringbuf \<Rightarrow> nat \<Rightarrow> 'e outcome" where
  "hd_ringbuf_get rb idx =
     (if \<not> idx < rb_len rb then Inl Panic
      else let i = unat ((rb_first rb + word_of_nat idx) AND rb_mask rb) in
      if \<not> i < length (rb_buffer rb) then Inl Out_of_bounds
      else case rb_buffer rb ! i of None \<Rightarrow> Inl Null_deref | Some e \<Rightarrow> Inr e)"

fun ring_copy :: "'e ringbuf \<Rightarrow> nat list \<Rightarrow> 'e option list \<Rightarrow> 'e option list outcome" where
  "ring_copy rb [] buffer = Inr buffer"
| "ring_copy rb (i # is) buffer =
     and_then (hd_ringbuf_get rb i) (\<lambda>e.
       if \<not> i < length buffer then Inl Out_of_bounds else ring_copy rb is (buffer[i := Some e]))"

definition hd_ringbuf_reserve :: "'e ringbuf \<Rightarrow> nat \<Rightarrow> bool \<Rightarrow> (bool \<times> 'e ringbuf) outcome" where
  "hd_ringbuf_reserve rb bufsize malloc_ok =
     (if unat (rb_mask rb + 1) \<ge> bufsize then Inr (True, rb)
      else let sz = ring_size bufsize 1 in
      if \<not> malloc_ok then Inr (False, rb)
      else and_then (ring_copy rb [0..<rb_len rb] (ring_alloc sz)) (\<lambda>buffer.
        Inr (True, rb\<lparr>rb_buffer := buffer, rb_mask := word_of_nat sz - 1, rb_first := 0\<rparr>)))"

definition hd_ringbuf_push_front :: "'e ringbuf \<Rightarrow> 'e \<Rightarrow> bool \<Rightarrow> (bool \<times> 'e ringbuf) outcome" where
  "hd_ringbuf_push_front rb ent malloc_ok =
     and_then (hd_ringbuf_reserve rb (rb_len rb + 1) malloc_ok) (\<lambda>(ok, rb).
       if \<not> ok then Inr (False, rb)
       else let first = rb_first rb - 1; i = unat (first AND rb_mask rb) in
       if \<not> i < length (rb_buffer rb) then Inl Out_of_bounds
       else Inr (True, rb\<lparr>rb_first := first, rb_buffer := (rb_buffer rb)[i := Some ent], rb_len := rb_len rb + 1\<rparr>))"

definition hd_ringbuf_pop_back :: "'e ringbuf \<Rightarrow> 'e ringbuf outcome" where
  "hd_ringbuf_pop_back rb = (if \<not> rb_len rb > 0 then Inl Panic else Inr (rb\<lparr>rb_len := rb_len rb - 1\<rparr>))"

section \<open>The interface\<close>

text \<open>
  A queue that is entered at the front and left at the back. \<open>abs\<close> is its list, front first; \<open>limit\<close>
  is how long it may become. Entering fails when memory is needed and not given, and then
  changes nothing.
\<close>

locale front_queue =
  fixes inv :: "'q \<Rightarrow> bool"
    and abs :: "'q \<Rightarrow> 'e list"
    and limit :: nat
    and get :: "'q \<Rightarrow> nat \<Rightarrow> 'e outcome"
    and push :: "'q \<Rightarrow> 'e \<Rightarrow> bool \<Rightarrow> (bool \<times> 'q) outcome"
    and pop :: "'q \<Rightarrow> 'q outcome"
  assumes get: "inv q \<Longrightarrow> i < length (abs q) \<Longrightarrow> get q i = Inr (abs q ! i)"
    and push: "inv q \<Longrightarrow> length (abs q) < limit \<Longrightarrow> \<exists>q' ok. push q e m = Inr (ok, q') \<and> inv q' \<and> (m \<longrightarrow> ok) \<and> abs q' = (if ok then e # abs q else abs q)"
    and pop: "inv q \<Longrightarrow> abs q \<noteq> [] \<Longrightarrow> \<exists>q'. pop q = Inr q' \<and> inv q' \<and> abs q' = butlast (abs q)"
begin

lemma get_last: "inv q \<Longrightarrow> abs q \<noteq> [] \<Longrightarrow> get q (length (abs q) - 1) = Inr (last (abs q))"
  using get[of q "length (abs q) - 1"] by (simp add: last_conv_nth)

end

section \<open>The ring is such a queue\<close>

definition slot :: "'e ringbuf \<Rightarrow> nat \<Rightarrow> nat" where
  "slot rb i = unat ((rb_first rb + word_of_nat i) AND rb_mask rb)"

definition ring_list :: "'e ringbuf \<Rightarrow> 'e list" where
  "ring_list rb = map (\<lambda>i. the (rb_buffer rb ! slot rb i)) [0..<rb_len rb]"

definition ring_inv :: "'e ringbuf \<Rightarrow> bool" where
  "ring_inv rb \<longleftrightarrow> (\<exists>e < 61. length (rb_buffer rb) = 2 ^ e \<and> rb_mask rb = mask e) \<and> rb_len rb \<le> length (rb_buffer rb) \<and>
     (\<forall>i < rb_len rb. rb_buffer rb ! slot rb i \<noteq> None)"

lemma unat_and_mask: "unat (w AND mask e :: 64 word) = unat w mod 2 ^ e"
  unfolding take_bit_eq_mask[symmetric] unsigned_take_bit_eq unfolding take_bit_eq_mod ..

lemma slot_mod:
  assumes "e < 61" "rb_mask rb = mask e"
  shows "slot rb i = (unat (rb_first rb) + i) mod 2 ^ e"
proof -
  have "unat (rb_first rb + word_of_nat i) = (unat (rb_first rb) + i) mod 2 ^ 64"
    by (simp add: unat_word_ariths unat_of_nat mod_simps)
  moreover have "(2 :: nat) ^ e dvd 2 ^ 64" using assms(1) by (intro le_imp_power_dvd) simp
  ultimately show ?thesis unfolding slot_def assms(2) unat_and_mask by (simp add: mod_mod_cancel)
qed

lemma ring_size_power: "\<exists>f \<ge> e. ring_size n (2 ^ e) = 2 ^ f \<and> n \<le> 2 ^ f \<and> (f = e \<or> 2 ^ (f - 1) < n)"
proof (induction "n - 2 ^ e" arbitrary: e rule: less_induct)
  case less
  show ?case
  proof (cases "2 ^ e < n")
    case True
    then have "n - 2 ^ Suc e < n - 2 ^ e" by (intro diff_less_mono2) simp_all
    from less[OF this] obtain f where f: "Suc e \<le> f" "ring_size n (2 ^ Suc e) = 2 ^ f" "n \<le> 2 ^ f" "f = Suc e \<or> 2 ^ (f - 1) < n" by blast
    moreover have "ring_size n (2 ^ e) = ring_size n (2 ^ Suc e)" using True by (subst ring_size.simps) simp
    ultimately show ?thesis using True by (intro exI[of _ f]) auto
  next
    case False
    then have "ring_size n (2 ^ e) = 2 ^ e" by (subst ring_size.simps) simp
    with False show ?thesis by (intro exI[of _ e]) simp
  qed
qed

lemma ring_size_fits:
  assumes "n \<le> 2 ^ 60"
  shows "\<exists>f < 61. ring_size n 1 = 2 ^ f \<and> n \<le> 2 ^ f"
proof -
  obtain f where f: "ring_size n 1 = 2 ^ f" "n \<le> 2 ^ f" "f = 0 \<or> 2 ^ (f - 1) < n" using ring_size_power[of 0 n] by auto
  have "f < 61"
  proof (cases "f = 0")
    case False
    with f(3) assms have "(2 :: nat) ^ (f - 1) < 2 ^ 60" by linarith
    then have "f - 1 < 60" by (rule power_less_imp_less_exp[rotated]) simp
    then show ?thesis by simp
  qed simp
  with f show ?thesis by blast
qed

lemma size_mask: "word_of_nat (2 ^ e) - 1 = (mask e :: 64 word)"
  by (simp add: mask_eq_exp_minus_1)

lemma ring_alloc_power: "e < 61 \<Longrightarrow> ring_alloc (2 ^ e) = replicate (2 ^ e) None"
proof -
  assume "e < 61"
  then have "(2 :: nat) ^ (3 + e) < 2 ^ 64" by (intro power_strict_increasing) simp_all
  then show ?thesis unfolding ring_alloc_def by (simp add: power_add)
qed

lemma unat_size: "e < 61 \<Longrightarrow> unat (mask e + 1 :: 64 word) = 2 ^ e"
proof -
  assume "e < 61"
  then have "(2 :: nat) ^ e < 2 ^ 64" by (intro power_strict_increasing) simp_all
  moreover have "(mask e + 1 :: 64 word) = word_of_nat (2 ^ e)" by (simp add: mask_eq_exp_minus_1)
  ultimately show ?thesis by (simp only: unat_of_nat) simp
qed

lemma length_ring_list [simp]: "length (ring_list rb) = rb_len rb"
  by (simp add: ring_list_def)

lemma ring_list_nth: "i < rb_len rb \<Longrightarrow> ring_list rb ! i = the (rb_buffer rb ! slot rb i)"
  by (simp add: ring_list_def)

lemma ring_get:
  assumes "ring_inv rb" "i < rb_len rb"
  shows "hd_ringbuf_get rb i = Inr (ring_list rb ! i)"
proof -
  obtain e where e: "e < 61" "length (rb_buffer rb) = 2 ^ e" "rb_mask rb = mask e" using assms(1) by (auto simp: ring_inv_def)
  have "slot rb i < length (rb_buffer rb)" unfolding slot_mod[OF e(1,3)] e(2) by simp
  moreover have "rb_buffer rb ! slot rb i \<noteq> None" using assms by (simp add: ring_inv_def)
  ultimately show ?thesis using assms(2) by (auto simp: hd_ringbuf_get_def ring_list_def slot_def[symmetric] Let_def)
qed

lemma fold_update:
  "length (fold (\<lambda>i b. b[i := f i]) is buf) = length buf"
  "j < length buf \<Longrightarrow> fold (\<lambda>i b. b[i := f i]) is buf ! j = (if j \<in> set is then f j else buf ! j)"
  by (induction "is" arbitrary: buf) (auto simp: nth_list_update)

lemma ring_copy:
  "ring_inv rb \<Longrightarrow> \<forall>i \<in> set is. i < rb_len rb \<and> i < length buf \<Longrightarrow>
     ring_copy rb is buf = Inr (fold (\<lambda>i b. b[i := Some (ring_list rb ! i)]) is buf)"
  by (induction "is" arbitrary: buf) (simp_all add: ring_get)

lemma ring_reserve:
  assumes "ring_inv rb" "rb_len rb \<le> n" "n \<le> 2 ^ 60"
  shows "\<exists>ok rb'. hd_ringbuf_reserve rb n m = Inr (ok, rb') \<and> ring_inv rb' \<and> ring_list rb' = ring_list rb \<and>
    (m \<longrightarrow> ok) \<and> (ok \<longrightarrow> n \<le> length (rb_buffer rb'))"
proof -
  obtain e where e: "e < 61" "length (rb_buffer rb) = 2 ^ e" "rb_mask rb = mask e" using assms(1) by (auto simp: ring_inv_def)
  show ?thesis
  proof (cases "n \<le> 2 ^ e \<or> \<not> m")
    case True
    then show ?thesis using assms(1) e unat_size[OF e(1)] by (auto simp: hd_ringbuf_reserve_def)
  next
    case False
    obtain f where f: "f < 61" "ring_size n 1 = 2 ^ f" "n \<le> 2 ^ f" using ring_size_fits[OF assms(3)] by blast
    let ?buf = "fold (\<lambda>i b. b[i := Some (ring_list rb ! i)]) [0..<rb_len rb] (replicate (2 ^ f) None)"
    let ?rb = "rb\<lparr>rb_buffer := ?buf, rb_mask := mask f, rb_first := 0\<rparr>"
    have "ring_copy rb [0..<rb_len rb] (replicate (2 ^ f) None) = Inr ?buf"
      using f(3) assms(2) by (intro ring_copy[OF assms(1)]) simp
    then have r: "hd_ringbuf_reserve rb n m = Inr (True, ?rb)"
      using False e f(2) unat_size[OF e(1)] by (simp add: ring_alloc_power[OF f(1)] hd_ringbuf_reserve_def mask_eq_exp_minus_1[of f] Let_def)
    have s: "slot ?rb i = i" "i < 2 ^ f" if "i < rb_len rb" for i
      using slot_mod[OF f(1), of ?rb i] that f(3) assms(2) by simp_all
    have b: "?buf ! i = Some (ring_list rb ! i)" if "i < rb_len rb" for i
      using s(2)[OF that] that by (subst fold_update(2)) simp_all
    have "ring_inv ?rb" using f s b assms(2) by (auto simp: ring_inv_def fold_update(1))
    moreover have "ring_list ?rb = ring_list rb" 
    proof (rule nth_equalityI)
      show "ring_list ?rb ! i = ring_list rb ! i" if "i < length (ring_list ?rb)" for i
        using that ring_list_nth[of i ?rb] s(1)[of i] b[of i] by simp
    qed simp
    ultimately show ?thesis using r f(3) by (intro exI[of _ True] exI[of _ ?rb]) (simp add: fold_update(1))
  qed
qed

lemma mod_apart: "0 < d \<Longrightarrow> d < n \<Longrightarrow> (a + d) mod n \<noteq> a mod (n :: nat)"
  using mod_eq_dvd_iff_nat[of a "a + d" n] nat_dvd_not_less[of d n] by auto

lemma ring_push:
  assumes "ring_inv rb" "rb_len rb < 2 ^ 60"
  shows "\<exists>rb' ok. hd_ringbuf_push_front rb ent m = Inr (ok, rb') \<and> ring_inv rb' \<and> (m \<longrightarrow> ok) \<and>
    ring_list rb' = (if ok then ent # ring_list rb else ring_list rb)"
proof -
  obtain ok r where r: "hd_ringbuf_reserve rb (rb_len rb + 1) m = Inr (ok, r)" "ring_inv r" "ring_list r = ring_list rb"
    "m \<longrightarrow> ok" "ok \<longrightarrow> rb_len rb + 1 \<le> length (rb_buffer r)"
    using ring_reserve[OF assms(1), of "rb_len rb + 1" m] assms(2) by auto
  have len: "rb_len r = rb_len rb" using arg_cong[OF r(3), of length] by simp
  show ?thesis
  proof (cases ok)
    case False
    then show ?thesis using r by (intro exI[of _ r] exI[of _ False]) (simp add: hd_ringbuf_push_front_def)
  next
    case True
    obtain e where e: "e < 61" "length (rb_buffer r) = 2 ^ e" "rb_mask r = mask e" using r(2) by (auto simp: ring_inv_def)
    let ?f = "rb_first r - 1"
    let ?r = "r\<lparr>rb_first := ?f, rb_buffer := (rb_buffer r)[unat (?f AND rb_mask r) := Some ent], rb_len := rb_len r + 1\<rparr>"
    have next_slot: "slot ?r (Suc i) = slot r i" for i by (simp add: slot_def algebra_simps)
    have first: "slot ?r 0 = unat (?f AND rb_mask r)" by (simp add: slot_def)
    have bound: "slot ?r i < 2 ^ e" "slot r i < 2 ^ e" for i
      using slot_mod[OF e(1), of ?r i] slot_mod[OF e(1), of r i] e(3) by simp_all
    have apart: "unat (?f AND rb_mask r) \<noteq> slot r i" if "i < rb_len rb" for i
    proof -
      have "slot ?r (0 + Suc i) \<noteq> slot ?r 0"
        using slot_mod[OF e(1), of ?r] e mod_apart[of "Suc i" "2 ^ e" "unat ?f"] that r(5) True by simp
      then show ?thesis using next_slot first by simp
    qed
    have p: "hd_ringbuf_push_front rb ent m = Inr (True, ?r)"
      using r(1) True bound(1)[of 0] first e(2) len by (simp add: hd_ringbuf_push_front_def Let_def)
    have "[0..<Suc (rb_len r)] = 0 # map Suc [0..<rb_len r]" by (simp add: upt_conv_Cons map_Suc_upt del: upt_Suc)
    then have "ring_list ?r = the (rb_buffer ?r ! slot ?r 0) # map (\<lambda>i. the (rb_buffer ?r ! slot r i)) [0..<rb_len r]"
      using next_slot by (simp add: ring_list_def del: upt_Suc)
    also have "\<dots> = ent # ring_list r"
      using bound(1)[of 0] e(2) apart unfolding first by (simp add: ring_list_def len)
    finally have list: "ring_list ?r = ent # ring_list rb" unfolding r(3) .
    have "rb_buffer ?r ! slot ?r i \<noteq> None" if "i < rb_len ?r" for i
    proof (cases i)
      case 0
      then show ?thesis using bound(1)[of 0] e(2) unfolding 0 first by simp
    next
      case (Suc j)
      then have "j < rb_len rb" using that len by simp
      then show ?thesis using r(2) apart[of j] len unfolding Suc next_slot by (simp add: ring_inv_def)
    qed
    then have "ring_inv ?r" using e len r(5) True by (auto simp: ring_inv_def)
    with p list True show ?thesis by (intro exI[of _ ?r] exI[of _ True]) simp
  qed
qed

lemma ring_pop:
  assumes "ring_inv rb" "ring_list rb \<noteq> []"
  shows "\<exists>rb'. hd_ringbuf_pop_back rb = Inr rb' \<and> ring_inv rb' \<and> ring_list rb' = butlast (ring_list rb)"
proof -
  have l: "rb_len rb > 0" using assms(2) by (metis length_greater_0_conv length_ring_list)
  let ?r = "rb\<lparr>rb_len := rb_len rb - 1\<rparr>"
  have "ring_inv ?r" using assms(1) by (auto simp: ring_inv_def slot_def)
  moreover have "ring_list ?r = butlast (ring_list rb)"
    using l by (cases "rb_len rb") (simp_all add: ring_list_def slot_def)
  ultimately show ?thesis using l by (simp add: hd_ringbuf_pop_back_def)
qed

interpretation ring: front_queue ring_inv ring_list "2 ^ 60" hd_ringbuf_get hd_ringbuf_push_front hd_ringbuf_pop_back
proof
  show "hd_ringbuf_get q i = Inr (ring_list q ! i)" if "ring_inv q" "i < length (ring_list q)" for q :: "'a ringbuf" and i
    using ring_get[OF that(1)] that(2) by simp
  show "\<exists>q' ok. hd_ringbuf_push_front q e m = Inr (ok, q') \<and> ring_inv q' \<and> (m \<longrightarrow> ok) \<and> ring_list q' = (if ok then e # ring_list q else ring_list q)"
    if "ring_inv q" "length (ring_list q) < 2 ^ 60" for q :: "'a ringbuf" and e m
    using ring_push[OF that(1)] that(2) by simp
  show "\<exists>q'. hd_ringbuf_pop_back q = Inr q' \<and> ring_inv q' \<and> ring_list q' = butlast (ring_list q)"
    if "ring_inv q" "ring_list q \<noteq> []" for q :: "'a ringbuf"
    by (rule ring_pop[OF that])
qed

lemma ring_init:
  assumes "n \<le> 2 ^ 60"
  shows "\<exists>rb. hd_ringbuf_init n True = Some rb \<and> ring_inv rb \<and> ring_list rb = []"
proof -
  obtain f where "f < 61" "ring_size n 1 = 2 ^ f" using ring_size_fits[OF assms] by blast
  then show ?thesis by (auto simp: hd_ringbuf_init_def ring_inv_def ring_list_def ring_alloc_power mask_eq_exp_minus_1 Let_def)
qed

section \<open>Properties\<close>

datatype 'e ring_op = Ring_push 'e | Ring_pop

text \<open>The table's two operations on the ring, with memory available, and what they do to a list; \<open>None\<close> when an empty list is popped.\<close>

fun ring_exec :: "'e ring_op \<Rightarrow> 'e ringbuf \<Rightarrow> 'e ringbuf outcome" where
  "ring_exec (Ring_push e) rb = and_then (hd_ringbuf_push_front rb e True) (\<lambda>(ok, rb). Inr rb)"
| "ring_exec Ring_pop rb = hd_ringbuf_pop_back rb"

fun list_after :: "'e ring_op list \<Rightarrow> 'e list \<Rightarrow> 'e list option" where
  "list_after [] l = Some l"
| "list_after (Ring_push e # ops) l = list_after ops (e # l)"
| "list_after (Ring_pop # ops) l = (if l = [] then None else list_after ops (butlast l))"

lemma ring_run:
  assumes "ring_inv rb" "list_after ops (ring_list rb) = Some l" "length (ring_list rb) + length ops \<le> 2 ^ 60"
  shows "\<exists>rb'. run_ops ring_exec ops rb = Inr rb' \<and> ring_inv rb' \<and> ring_list rb' = l"
  using assms
proof (induction ops arbitrary: rb)
  case (Cons op ops)
  show ?case
  proof (cases op)
    case (Ring_push e)
    have "length (ring_list rb) < 2 ^ 60" using Cons.prems(3) by simp
    from ring.push[OF Cons.prems(1) this, of e True] obtain q where
      q: "hd_ringbuf_push_front rb e True = Inr (True, q)" "ring_inv q" "ring_list q = e # ring_list rb" by auto
    have "length (ring_list q) + length ops \<le> 2 ^ 60" using Cons.prems(3) unfolding q(3) by simp
    moreover have "list_after ops (ring_list q) = Some l" using Cons.prems(2) unfolding q(3) Ring_push by simp
    ultimately show ?thesis using Cons.IH[OF q(2)] q(1) Ring_push by simp
  next
    case Ring_pop
    then have ne: "ring_list rb \<noteq> []" using Cons.prems(2) by (auto split: if_splits)
    from ring.pop[OF Cons.prems(1) this] obtain q where
      q: "hd_ringbuf_pop_back rb = Inr q" "ring_inv q" "ring_list q = butlast (ring_list rb)" by auto
    have "length (ring_list q) + length ops \<le> 2 ^ 60" using Cons.prems(3) unfolding q(3) by simp
    moreover have "list_after ops (ring_list q) = Some l" using Cons.prems(2) ne unfolding q(3) Ring_pop by simp
    ultimately show ?thesis using Cons.IH[OF q(2)] q(1) Ring_pop by simp
  qed
qed simp

text \<open>
  C16: The ring buffer is a list. From a fresh ring of any size up to \<open>2 ^ 60\<close> slots (beyond, the
  product that is allocated may wrap), every sequence of entries put in at the front and taken out at the
  back runs without a fault as long as none is taken from the empty ring, however often the
  array is outgrown and \<^verbatim>\<open>first\<close> wraps around; afterwards \<^verbatim>\<open>hd_ringbuf_get\<close> returns exactly the
  entries of the list, newest first, and its assertion fails for every other index.
\<close>

theorem ring_is_list:
  fixes rb :: "'e ringbuf"
  assumes "n \<le> 2 ^ 60" "hd_ringbuf_init n True = Some rb" "list_after ops [] = Some l" "length ops \<le> 2 ^ 60"
  shows "\<exists>rb'. run_ops ring_exec ops rb = Inr rb' \<and> rb_len rb' = length l \<and>
    (\<forall>i. hd_ringbuf_get rb' i = (if i < length l then Inr (l ! i) else Inl Panic))"
proof -
  obtain rb0 :: "'e ringbuf" where "hd_ringbuf_init n True = Some rb0" "ring_inv rb0" "ring_list rb0 = []"
    using ring_init[OF assms(1)] by blast
  with assms(2) have "ring_inv rb" "ring_list rb = []" by simp_all
  then obtain q where q: "run_ops ring_exec ops rb = Inr q" "ring_inv q" "ring_list q = l"
    using ring_run[of rb ops l] assms(3,4) by auto
  have len: "rb_len q = length l" using length_ring_list[of q] unfolding q(3) by simp
  have "hd_ringbuf_get q i = (if i < length l then Inr (l ! i) else Inl Panic)" for i
    using ring_get[OF q(2), of i] len q(3) by (simp add: hd_ringbuf_get_def)
  with q(1) len show ?thesis by blast
qed

text \<open>A ring for two entries that is outgrown and then wraps around.\<close>

theorem ring_is_list_witness:
  "\<exists>rb rb'. hd_ringbuf_init 2 True = Some rb \<and>
     run_ops ring_exec [Ring_push (1 :: int), Ring_push 2, Ring_push 3, Ring_pop, Ring_push 4, Ring_pop] rb = Inr rb' \<and>
     hd_ringbuf_get rb' 0 = Inr 4 \<and> hd_ringbuf_get rb' 1 = Inr 3 \<and> hd_ringbuf_get rb' 2 = Inl Panic"
proof -
  have n: "(2 :: nat) \<le> 2 ^ 60" "length [Ring_push (1 :: int), Ring_push 2, Ring_push 3, Ring_pop, Ring_push 4, Ring_pop] \<le> 2 ^ 60" by simp_all
  have l: "list_after [Ring_push (1 :: int), Ring_push 2, Ring_push 3, Ring_pop, Ring_push 4, Ring_pop] [] = Some [4, 3]" by simp
  obtain rb :: "int ringbuf" where rb: "hd_ringbuf_init 2 True = Some rb" using ring_init[OF n(1)] by blast
  obtain rb' where run: "run_ops ring_exec [Ring_push (1 :: int), Ring_push 2, Ring_push 3, Ring_pop, Ring_push 4, Ring_pop] rb = Inr rb'"
    and get: "\<forall>i. hd_ringbuf_get rb' i = (if i < length [4, 3 :: int] then Inr ([4, 3] ! i) else Inl Panic)"
    using ring_is_list[OF n(1) rb l n(2)] by (elim exE conjE) (rule that)
  have "hd_ringbuf_get rb' 0 = Inr 4" "hd_ringbuf_get rb' 1 = Inr 3" "hd_ringbuf_get rb' 2 = Inl Panic"
    using get[THEN spec, of 0] get[THEN spec, of 1] get[THEN spec, of 2] by simp_all
  with rb run show ?thesis by (intro exI[of _ rb] exI[of _ rb'] conjI)
qed

end
