(* ===== verification/Https.thy ===== *)
theory Https
  imports Curl
begin

text \<open>
  The HTTPS module (\<^verbatim>\<open>src/src/https.h\<close>, \<^verbatim>\<open>src/src/https.c\<close>): a state machine around one libcurl
  easy handle in a multi handle, driven by the caller's poll loop. Every function of the file
  is here. What the system and libcurl decide is an argument of each operation: which calls
  succeed, which callbacks libcurl makes, which result codes and messages it returns. The
  theorems hold for every choice of them.
\<close>

section \<open>Types\<close>

definition evs_maxlen :: nat where "evs_maxlen = 12"
definition fds_maxlen :: nat where "fds_maxlen = 24"

datatype https_ev_type = https_ev_init | https_ev_init_fail | https_ev_stopped | https_ev_req_fin | https_ev_req_fail

datatype https_req_method = https_method_get | https_method_post

datatype https_init_res = https_init_fail_timerfd | https_init_fail_no_mem | https_init_fail_curl_easy_init
  | https_init_fail_curl_multi_init | https_init_ok

datatype https_stop_prep_res = https_stop_prep_fail | https_stop_prep_ok

datatype https_stop_res = https_stop_fail_no_prep | https_stop_fail | https_stop_ok

datatype https_verbosity = https_verbosity_silent | https_verbosity_debug

datatype https_stop_strategy = https_stop_strat_abort | https_stop_strat_wait

datatype https_req_res = https_req_fail_stopping | https_req_fail_other_pend | https_req_fail | https_req_ok

datatype hs_st = Hs_uninit | Hs_just_init | Hs_idle | Hs_pend | Hs_stopped | Hs_err

text \<open>A handle of libcurl: never obtained, obtained, or given back.\<close>

datatype handle = H_null | H_live | H_freed

text \<open>
  The struct \<^verbatim>\<open>https_mod\<close>. \<open>hm_evs\<close> is the used part of the array of events; \<open>hm_fds\<close> is the
  whole array of descriptors and \<open>hm_fds_len\<close> the used length. Behind the pointers: the
  options of the easy handle (\<open>hm_set\<close>), whether it is in the multi handle (\<open>hm_added\<close>), the
  time the timer was last set to (\<open>hm_timer\<close>), and what the user's callback was given
  (\<open>hm_received\<close>). The list of headers is \<open>Some []\<close> for NULL and \<open>None\<close> once it was freed,
  when the struct still holds the pointer.
\<close>

record https_mod =
  hm_st :: hs_st
  hm_stop_strat :: https_stop_strategy
  hm_is_stop_waiting :: bool
  hm_curl_err :: curl_code
  hm_curlm_err :: curlm_code
  hm_evs :: "https_ev_type list"
  hm_data_cb :: bool
  hm_resp_status :: int
  hm_fds :: "pollfd list"
  hm_fds_len :: nat
  hm_timerfd :: int
  hm_curl :: handle
  hm_curlm :: handle
  hm_json_hdrs :: "string list option"
  hm_set :: curl_set
  hm_added :: bool
  hm_timer :: "int \<times> int"
  hm_received :: "string list"

section \<open>Events and the descriptor table\<close>

definition hs_set_st :: "https_mod \<Rightarrow> hs_st \<Rightarrow> https_mod" where
  "hs_set_st m st = m\<lparr>hm_st := st\<rparr>"

definition hs_add_ev :: "https_mod \<Rightarrow> https_ev_type \<Rightarrow> bool \<times> https_mod" where
  "hs_add_ev m ty =
     (if length (hm_evs m) = evs_maxlen then (False, m) else (True, m\<lparr>hm_evs := hm_evs m @ [ty]\<rparr>))"

text \<open>Every caller panics when an event does not fit.\<close>

definition hs_must_add_ev :: "https_mod \<Rightarrow> https_ev_type \<Rightarrow> https_mod outcome" where
  "hs_must_add_ev m ty = (case hs_add_ev m ty of (ok, m') \<Rightarrow> if ok then Inr m' else sob_panic)"

fun hs_find_from :: "pollfd list \<Rightarrow> int \<Rightarrow> nat \<Rightarrow> nat \<Rightarrow> nat option" where
  "hs_find_from fds fd i 0 = None"
| "hs_find_from fds fd i (Suc n) = (if pfd_fd (fds ! i) = fd then Some i else hs_find_from fds fd (Suc i) n)"

definition hs_find_fd :: "https_mod \<Rightarrow> int \<Rightarrow> nat option" where
  "hs_find_fd m fd = hs_find_from (hm_fds m) fd 0 (hm_fds_len m)"

definition hs_add_fd :: "https_mod \<Rightarrow> int \<Rightarrow> 16 word \<Rightarrow> nat option \<times> https_mod" where
  "hs_add_fd m fd events =
     (if hm_fds_len m < fds_maxlen then
        (Some (hm_fds_len m),
         m\<lparr>hm_fds := (hm_fds m)[hm_fds_len m := \<lparr>pfd_fd = fd, pfd_events = events, pfd_revents = 0\<rparr>],
           hm_fds_len := hm_fds_len m + 1\<rparr>)
      else (None, m))"

definition hs_set_fd :: "https_mod \<Rightarrow> int \<Rightarrow> 16 word \<Rightarrow> bool \<times> https_mod" where
  "hs_set_fd m fd events =
     (case hs_find_fd m fd of
        None \<Rightarrow> (case hs_add_fd m fd events of (None, m') \<Rightarrow> (False, m') | (Some _, m') \<Rightarrow> (True, m'))
      | Some pos \<Rightarrow> (True, m\<lparr>hm_fds := (hm_fds m)[pos := (hm_fds m ! pos)\<lparr>pfd_events := events\<rparr>]\<rparr>))"

text \<open>The loop of \<^verbatim>\<open>del_fd_\<close>: every later entry moves one down.\<close>

fun hs_shift :: "pollfd list \<Rightarrow> nat \<Rightarrow> nat \<Rightarrow> pollfd list" where
  "hs_shift fds i 0 = fds"
| "hs_shift fds i (Suc n) = hs_shift (fds[i - 1 := fds ! i]) (Suc i) n"

definition hs_del_fd :: "https_mod \<Rightarrow> int \<Rightarrow> bool \<times> https_mod" where
  "hs_del_fd m fd =
     (case hs_find_fd m fd of
        None \<Rightarrow> (False, m)
      | Some pos \<Rightarrow> (True, m\<lparr>hm_fds := hs_shift (hm_fds m) (pos + 1) (hm_fds_len m - (pos + 1)),
                           hm_fds_len := hm_fds_len m - 1\<rparr>))"

section \<open>Callbacks\<close>

text \<open>The \<^verbatim>\<open>CURL_POLL_\<close> constants.\<close>

definition hs_poll_events :: "int \<Rightarrow> 16 word" where
  "hs_poll_events what = (if what = 1 then POLLIN else if what = 2 then POLLOUT else if what = 3 then 5 else 0)"

definition hs_sock_cb :: "https_mod \<Rightarrow> int \<Rightarrow> int \<Rightarrow> (int \<times> https_mod) outcome" where
  "hs_sock_cb m fd what =
     (if fd = hm_timerfd m then sob_panic
      else if what = 4 then
        (case hs_del_fd m fd of (ok, m) \<Rightarrow> Inr (if ok then 0 else -1, m))
      else
        (case hs_set_fd m fd (hs_poll_events what) of (ok, m) \<Rightarrow> Inr (if ok then 0 else -1, m)))"

text \<open>The \<^verbatim>\<open>it_value\<close> for a timeout in milliseconds: seconds and nanoseconds.\<close>

definition hs_timer_value :: "int \<Rightarrow> int \<times> int" where
  "hs_timer_value timeout_ms =
     (if timeout_ms > 0 then (timeout_ms div 1000, (timeout_ms mod 1000) * 1000 * 1000)
      else if timeout_ms = 0 then (0, 1)
      else (0, 0))"

definition hs_timer_cb :: "https_mod \<Rightarrow> int \<Rightarrow> bool \<Rightarrow> int \<times> https_mod" where
  "hs_timer_cb m timeout_ms settime_ok =
     (let m = snd (if timeout_ms \<ge> 0 then hs_set_fd m (hm_timerfd m) POLLIN else hs_del_fd m (hm_timerfd m)) in
      if settime_ok then (0, m\<lparr>hm_timer := hs_timer_value timeout_ms\<rparr>) else (-1, m))"

definition hs_write_cb :: "https_mod \<Rightarrow> string \<Rightarrow> nat \<times> https_mod" where
  "hs_write_cb m data = (length data, if hm_data_cb m then m\<lparr>hm_received := hm_received m @ [data]\<rparr> else m)"

text \<open>
  The calls libcurl makes back while it runs, in order. A callback's answer is libcurl's to
  use: the sequences quantified over include every way it can react.
\<close>

datatype curl_cb = Cb_sock int int | Cb_timer int bool | Cb_write string

fun hs_callback :: "https_mod \<Rightarrow> curl_cb \<Rightarrow> https_mod outcome" where
  "hs_callback m (Cb_sock fd what) = and_then (hs_sock_cb m fd what) (\<lambda>(r, m). Inr m)"
| "hs_callback m (Cb_timer ms ok) = Inr (snd (hs_timer_cb m ms ok))"
| "hs_callback m (Cb_write data) = Inr (snd (hs_write_cb m data))"

fun hs_callbacks :: "https_mod \<Rightarrow> curl_cb list \<Rightarrow> https_mod outcome" where
  "hs_callbacks m [] = Inr m"
| "hs_callbacks m (cb # cbs) = and_then (hs_callback m cb) (\<lambda>m. hs_callbacks m cbs)"

section \<open>Operations\<close>

text \<open>
  \<^verbatim>\<open>curl_easy_setopt\<close> on the module's handle. A handle that was given back must not be passed;
  for NULL, which libcurl refuses, there are no options and \<open>hm_set\<close> has no meaning.
\<close>

definition hs_easy_setopt :: "https_mod \<Rightarrow> curl_opt \<Rightarrow> https_mod" where
  "hs_easy_setopt m opt = m\<lparr>hm_set := snd (curl_vsetopt (hm_set m) opt)\<rparr>"

definition hs_setopt :: "https_mod \<Rightarrow> curl_opt \<Rightarrow> https_mod outcome" where
  "hs_setopt m opt = (if hm_curl m = H_freed then Inl Use_after_free else Inr (hs_easy_setopt m opt))"

text \<open>What the system answers in \<^verbatim>\<open>https_init\<close>.\<close>

record init_env =
  ie_easy :: bool
  ie_multi :: bool
  ie_hdr1 :: "bool \<times> bool"
  ie_hdr2 :: "bool \<times> bool"
  ie_timerfd :: int

definition https_init :: "https_mod \<Rightarrow> init_env \<Rightarrow> bool \<Rightarrow> https_init_res \<times> https_mod" where
  "https_init m env data_cb =
     (let m = m\<lparr>hm_st := Hs_just_init, hm_stop_strat := https_stop_strat_wait, hm_is_stop_waiting := False,
                hm_curl_err := CURLE_OK, hm_curlm_err := CURLM_OK, hm_evs := [], hm_data_cb := data_cb,
                hm_resp_status := 0\<rparr> in
      if \<not> ie_easy env then (https_init_fail_curl_easy_init, m\<lparr>hm_curl := H_null\<rparr>)
      else let m = m\<lparr>hm_curl := H_live, hm_set := curl_set_default, hm_added := False\<rparr> in
      if \<not> ie_multi env then (https_init_fail_curl_multi_init, m\<lparr>hm_curlm := H_null, hm_curl := H_freed\<rparr>)
      else let m = m\<lparr>hm_curlm := H_live\<rparr>;
               hdrs = curl_slist_append (ie_hdr1 env) [] ''Content-Type: application/json'';
               hdrs = curl_slist_append (ie_hdr2 env) hdrs ''Accept: application/json'';
               m = m\<lparr>hm_json_hdrs := Some hdrs\<rparr> in
      if hdrs = [] then (https_init_fail_no_mem, m\<lparr>hm_curl := H_freed, hm_curlm := H_freed\<rparr>)
      else let m = hs_easy_setopt m (Opt_postfieldsize (-1));
               m = hs_easy_setopt m (Opt_httpheader hdrs);
               m = m\<lparr>hm_timerfd := ie_timerfd env\<rparr> in
      if ie_timerfd env = -1 then (https_init_fail_timerfd, m)
      else (https_init_ok, m\<lparr>hm_fds_len := 0\<rparr>))"

text \<open>\<open>cbs\<close>: the callbacks made by \<^verbatim>\<open>curl_multi_remove_handle\<close>.\<close>

definition hs_remove_handle :: "https_mod \<Rightarrow> curl_cb list \<Rightarrow> https_mod outcome" where
  "hs_remove_handle m cbs =
     (if hm_curlm m = H_freed \<or> hm_curl m = H_freed then Inl Use_after_free
      else and_then (hs_callbacks m cbs) (\<lambda>m. Inr (m\<lparr>hm_added := False\<rparr>)))"

definition https_stop_prep :: "https_mod \<Rightarrow> curl_cb list \<Rightarrow> (https_stop_prep_res \<times> https_mod) outcome" where
  "https_stop_prep m cbs =
     (case hm_stop_strat m of
        https_stop_strat_abort \<Rightarrow>
          and_then (if hm_st m = Hs_pend then hs_remove_handle m cbs else Inr m) (\<lambda>m.
          Inr (https_stop_prep_ok, (hs_set_st m Hs_stopped)\<lparr>hm_is_stop_waiting := False\<rparr>))
      | https_stop_strat_wait \<Rightarrow>
          if \<not> hm_is_stop_waiting m then
            if hm_st m = Hs_pend then Inr (https_stop_prep_ok, m\<lparr>hm_is_stop_waiting := True\<rparr>)
            else Inr (https_stop_prep_ok, hs_set_st m Hs_stopped)
          else Inr (https_stop_prep_ok, m))"

text \<open>
  \<^verbatim>\<open>https_stop\<close> does not clear the pointers it gives back, so a second run of its first branch
  gives them back again. \<open>cbs\<close>: the callbacks of the two cleanups, which may still close
  connections.
\<close>

definition https_stop :: "https_mod \<Rightarrow> curl_cb list \<Rightarrow> (https_stop_res \<times> https_mod) outcome" where
  "https_stop m cbs =
     (if hm_st m = Hs_stopped then
        let m = m\<lparr>hm_st := Hs_uninit\<rparr> in
        if hm_curl m = H_freed \<or> hm_curlm m = H_freed then Inl Use_after_free
        else and_then (hs_callbacks m cbs) (\<lambda>m.
          let m = m\<lparr>hm_added := False, hm_curl := H_freed, hm_curlm := H_freed\<rparr> in
          if hm_json_hdrs m = None then Inl Use_after_free
          else Inr (https_stop_ok, m\<lparr>hm_json_hdrs := None\<rparr>))
      else Inr (https_stop_fail_no_prep, m))"

definition https_pollfds :: "https_mod \<Rightarrow> pollfd list \<times> nat" where
  "https_pollfds m = (hm_fds m, if hm_st m = Hs_pend then hm_fds_len m else 0)"

definition hs_req_fail :: "https_mod \<Rightarrow> https_mod outcome" where
  "hs_req_fail m = hs_must_add_ev (hs_set_st m Hs_err) https_ev_req_fail"

text \<open>The switch on \<^verbatim>\<open>revents\<close>, whose cases fall through: the \<^verbatim>\<open>CURL_CSELECT_\<close> bits.\<close>

definition hs_cselect :: "16 word \<Rightarrow> nat" where
  "hs_cselect revents =
     (if revents = POLLIN then 1 + 2 + 4
      else if revents = POLLOUT then 2 + 4
      else if revents = POLLERR \<or> revents = POLLHUP \<or> revents = POLLNVAL then 4
      else 0)"

text \<open>
  What libcurl does in one round of the loop: the callbacks and the result of
  \<^verbatim>\<open>curl_multi_socket_action\<close>, as a function of the descriptor (\<open>None\<close> for
  \<^verbatim>\<open>CURL_SOCKET_TIMEOUT\<close>) and the event bits; the messages \<^verbatim>\<open>curl_multi_info_read\<close> returns before
  it returns NULL; the response code; the callbacks of the removal after a success.
\<close>

datatype curl_msg = Msg_done curl_code | Msg_other

record curl_turn =
  ct_action :: "int option \<Rightarrow> nat \<Rightarrow> curl_cb list \<times> curlm_code"
  ct_msgs :: "curl_msg list"
  ct_status :: int
  ct_remove :: "curl_cb list"

definition hs_req_done :: "https_mod \<Rightarrow> curl_turn \<Rightarrow> https_mod outcome" where
  "hs_req_done m t =
     (if hm_curl m = H_freed then Inl Use_after_free
      else let m = hs_set_st (m\<lparr>hm_resp_status := ct_status t\<rparr>) Hs_idle in
      and_then (hs_must_add_ev m https_ev_req_fin) (\<lambda>m.
      and_then (hs_remove_handle m (ct_remove t)) (\<lambda>m.
      if hm_is_stop_waiting m then
        hs_must_add_ev (hs_set_st (m\<lparr>hm_is_stop_waiting := False\<rparr>) Hs_stopped) https_ev_stopped
      else Inr m)))"

text \<open>The inner loop; the flag says that \<^verbatim>\<open>https_update\<close> returns.\<close>

fun hs_messages :: "https_mod \<Rightarrow> curl_turn \<Rightarrow> curl_msg list \<Rightarrow> (bool \<times> https_mod) outcome" where
  "hs_messages m t [] = Inr (False, m)"
| "hs_messages m t (Msg_other # msgs) = hs_messages m t msgs"
| "hs_messages m t (Msg_done r # msgs) =
     (if r = CURLE_OK then and_then (hs_req_done m t) (\<lambda>m. Inr (True, m))
      else and_then (hs_req_fail (m\<lparr>hm_curl_err := r\<rparr>)) (\<lambda>m. hs_messages m t msgs))"

text \<open>
  The descriptors passed to \<^verbatim>\<open>https_update\<close> are the caller's (\<open>Some\<close>) or, as in the demo, the
  module's own array that \<^verbatim>\<open>https_pollfds\<close> handed out (\<open>None\<close>), which the callbacks change
  under the loop.
\<close>

definition hs_fd_at :: "https_mod \<Rightarrow> pollfd list option \<Rightarrow> nat \<Rightarrow> pollfd outcome" where
  "hs_fd_at m fds i = (let a = (case fds of None \<Rightarrow> hm_fds m | Some a \<Rightarrow> a) in
     if i < length a then Inr (a ! i) else Inl Out_of_bounds)"

definition hs_action :: "https_mod \<Rightarrow> pollfd \<Rightarrow> curl_turn \<Rightarrow> curl_cb list \<times> curlm_code" where
  "hs_action m fd t =
     (if pfd_fd fd = hm_timerfd m then
        if and (pfd_revents fd) POLLIN \<noteq> 0 then ct_action t None 0 else ([], CURLM_OK)
      else ct_action t (Some (pfd_fd fd)) (hs_cselect (pfd_revents fd)))"

definition hs_turn :: "https_mod \<Rightarrow> pollfd \<Rightarrow> curl_turn \<Rightarrow> (bool \<times> https_mod) outcome" where
  "hs_turn m fd t =
     (let call = hs_action m fd t in
      if hm_curlm m = H_freed then Inl Use_after_free
      else and_then (hs_callbacks m (fst call)) (\<lambda>m.
      if snd call = CURLM_OK then hs_messages m t (ct_msgs t)
      else and_then (hs_req_fail (m\<lparr>hm_curlm_err := snd call\<rparr>)) (\<lambda>m. Inr (True, m))))"

fun hs_turns :: "https_mod \<Rightarrow> pollfd list option \<Rightarrow> (nat \<Rightarrow> curl_turn) \<Rightarrow> nat \<Rightarrow> nat \<Rightarrow> https_mod outcome" where
  "hs_turns m fds ts i 0 = Inr m"
| "hs_turns m fds ts i (Suc n) =
     and_then (hs_fd_at m fds i) (\<lambda>fd.
     and_then (hs_turn m fd (ts i)) (\<lambda>(ret, m).
     if ret then Inr m else hs_turns m fds ts (Suc i) n))"

definition https_update :: "https_mod \<Rightarrow> pollfd list option \<Rightarrow> nat \<Rightarrow> (nat \<Rightarrow> curl_turn) \<Rightarrow> https_mod outcome" where
  "https_update m fds nfds ts =
     (let m = m\<lparr>hm_evs := []\<rparr> in
      if hm_st m = Hs_stopped then hs_must_add_ev m https_ev_stopped
      else if hm_st m = Hs_just_init then hs_must_add_ev (hs_set_st m Hs_idle) https_ev_init
      else if hm_st m \<noteq> Hs_pend then Inr m
      else hs_turns m fds ts 0 nfds)"

definition https_events :: "https_mod \<Rightarrow> https_ev_type list" where
  "https_events m = hm_evs m"

definition https_set_timeout :: "https_mod \<Rightarrow> int \<Rightarrow> https_mod outcome" where
  "https_set_timeout m timeout_s = hs_setopt m (Opt_timeout timeout_s)"

definition https_set_verbosity :: "https_mod \<Rightarrow> https_verbosity \<Rightarrow> https_mod outcome" where
  "https_set_verbosity m level = (case level of
       https_verbosity_silent \<Rightarrow> hs_setopt m (Opt_verbose 0)
     | https_verbosity_debug \<Rightarrow> hs_setopt m (Opt_verbose 1))"

definition https_set_stop_strat :: "https_mod \<Rightarrow> https_stop_strategy \<Rightarrow> https_mod" where
  "https_set_stop_strat m s = m\<lparr>hm_stop_strat := s\<rparr>"

text \<open>
  \<open>url_ok\<close>: libcurl's copy of the URL is allocated; \<open>cbs\<close> and \<open>add_ok\<close>: the callbacks of
  \<^verbatim>\<open>curl_multi_add_handle\<close> and whether it succeeds, which the source does not look at.
\<close>

definition https_req_json :: "https_mod \<Rightarrow> https_req_method \<Rightarrow> string \<Rightarrow> string option \<Rightarrow> bool \<Rightarrow> curl_cb list \<Rightarrow> bool \<Rightarrow>
    (https_req_res \<times> https_mod) outcome" where
  "https_req_json m method url data url_ok cbs add_ok =
     (if hm_st m \<noteq> Hs_idle then Inr (https_req_fail_other_pend, m)
      else if hm_is_stop_waiting m then Inr (https_req_fail_stopping, m)
      else
        and_then (case method of
            https_method_get \<Rightarrow> hs_setopt m (Opt_httpget 1)
          | https_method_post \<Rightarrow> hs_setopt m (Opt_post 1)) (\<lambda>m.
        and_then (hs_setopt m (Opt_url url_ok url)) (\<lambda>m.
        and_then (hs_setopt m (Opt_postfields data)) (\<lambda>m.
        if hm_curlm m = H_freed then Inl Use_after_free
        else and_then (hs_callbacks m cbs) (\<lambda>m.
          Inr (https_req_ok, hs_set_st (m\<lparr>hm_added := add_ok\<rparr>) Hs_pend))))))"

definition https_resp_status :: "https_mod \<Rightarrow> int" where
  "https_resp_status m = hm_resp_status m"


section \<open>The descriptor table as a map\<close>

text \<open>
  What libcurl relies on: the table is a finite map from descriptors to the events watched,
  of at most \<open>cap\<close> descriptors, where setting and deleting are map update and removal.
\<close>

fun watch_all :: "('t \<Rightarrow> int \<Rightarrow> 16 word \<Rightarrow> bool \<times> 't) \<Rightarrow> ('t \<Rightarrow> int \<Rightarrow> bool \<times> 't) \<Rightarrow> 't \<Rightarrow> (int \<times> 16 word option) list \<Rightarrow> 't" where
  "watch_all st dl t [] = t"
| "watch_all st dl t ((fd, e) # ops) =
     watch_all st dl (snd (case e of Some e \<Rightarrow> st t fd e | None \<Rightarrow> dl t fd)) ops"

locale fd_table =
  fixes inv :: "'t \<Rightarrow> bool"
    and watched :: "'t \<Rightarrow> int \<Rightarrow> 16 word option"
    and set_fd :: "'t \<Rightarrow> int \<Rightarrow> 16 word \<Rightarrow> bool \<times> 't"
    and del_fd :: "'t \<Rightarrow> int \<Rightarrow> bool \<times> 't"
    and cap :: nat
  assumes dom_bound: "inv t \<Longrightarrow> finite (dom (watched t)) \<and> card (dom (watched t)) \<le> cap"
    and set_room: "inv t \<Longrightarrow> watched t fd \<noteq> None \<or> card (dom (watched t)) < cap \<Longrightarrow>
      fst (set_fd t fd e) \<and> inv (snd (set_fd t fd e)) \<and> watched (snd (set_fd t fd e)) = (watched t)(fd \<mapsto> e)"
    and set_full: "inv t \<Longrightarrow> watched t fd = None \<Longrightarrow> card (dom (watched t)) = cap \<Longrightarrow> set_fd t fd e = (False, t)"
    and del_there: "inv t \<Longrightarrow> watched t fd \<noteq> None \<Longrightarrow>
      fst (del_fd t fd) \<and> inv (snd (del_fd t fd)) \<and> watched (snd (del_fd t fd)) = (watched t)(fd := None)"
    and del_missing: "inv t \<Longrightarrow> watched t fd = None \<Longrightarrow> del_fd t fd = (False, t)"
begin

lemma set_inv: "inv t \<Longrightarrow> inv (snd (set_fd t fd e))"
  using set_room[of t fd e] set_full[of t fd e] dom_bound[of t] by (cases "watched t fd") fastforce+

lemma del_inv: "inv t \<Longrightarrow> inv (snd (del_fd t fd))"
  using del_there[of t fd] del_missing[of t fd] by (cases "watched t fd") auto

lemma del_watched: "inv t \<Longrightarrow> watched (snd (del_fd t fd)) = (watched t)(fd := None)"
  using del_there[of t fd] del_missing[of t fd] by (cases "watched t fd") (auto simp: fun_upd_idem)

lemma watch_all_inv: "inv t \<Longrightarrow> inv (watch_all set_fd del_fd t ops)"
proof (induction ops arbitrary: t)
  case (Cons op ops)
  obtain fd e where op: "op = (fd, e)" by (cases op)
  show ?case using Cons set_inv del_inv by (cases e) (auto simp: op)
qed simp

lemma watch_all_map:
  assumes "inv t" "card (dom (watched t) \<union> fst ` set ops) \<le> cap"
  shows "watched (watch_all set_fd del_fd t ops) = foldl (\<lambda>w (fd, e). w(fd := e)) (watched t) ops"
  using assms
proof (induction ops arbitrary: t)
  case (Cons op ops)
  obtain fd e where op: "op = (fd, e)" by (cases op)
  have fin: "finite (dom (watched t) \<union> fst ` set (op # ops))" using dom_bound[OF Cons.prems(1)] by simp
  let ?t = "snd (case e of Some e \<Rightarrow> set_fd t fd e | None \<Rightarrow> del_fd t fd)"
  have step: "inv ?t" "watched ?t = (watched t)(fd := e)"
  proof -
    have "watched t fd \<noteq> None \<or> card (dom (watched t)) < cap"
    proof (rule disjCI)
      assume "\<not> card (dom (watched t)) < cap"
      then have "card (dom (watched t) \<union> fst ` set (op # ops)) \<le> card (dom (watched t))" using Cons.prems(2) by linarith
      then have "dom (watched t) = dom (watched t) \<union> fst ` set (op # ops)"
        by (intro card_seteq[OF fin]) auto
      then show "watched t fd \<noteq> None" by (auto simp: op dom_def)
    qed
    then show "inv ?t" "watched ?t = (watched t)(fd := e)"
      using Cons.prems(1) set_room[OF Cons.prems(1), of fd] del_inv del_watched by (cases e; simp)+
  qed
  have "dom (watched ?t) \<union> fst ` set ops \<subseteq> dom (watched t) \<union> fst ` set (op # ops)"
    using step(2) by (auto simp: op split: if_splits)
  then have "card (dom (watched ?t) \<union> fst ` set ops) \<le> cap" using card_mono[OF fin] Cons.prems(2) by (meson le_trans)
  from Cons.IH[OF step(1) this] step(2) show ?case by (simp add: op)
qed simp

end

definition hs_used :: "https_mod \<Rightarrow> pollfd list" where
  "hs_used m = take (hm_fds_len m) (hm_fds m)"

definition hs_table :: "https_mod \<Rightarrow> bool" where
  "hs_table m \<longleftrightarrow> length (hm_fds m) = fds_maxlen \<and> hm_fds_len m \<le> fds_maxlen \<and> distinct (map pfd_fd (hs_used m))"

definition hs_watched :: "https_mod \<Rightarrow> int \<Rightarrow> 16 word option" where
  "hs_watched m = map_of (map (\<lambda>p. (pfd_fd p, pfd_events p)) (hs_used m))"

lemma hs_find_from_Some:
  "hs_find_from fds fd i n = Some j \<Longrightarrow> i \<le> j \<and> j < i + n \<and> pfd_fd (fds ! j) = fd"
  by (induction fds fd i n rule: hs_find_from.induct) (auto split: if_splits)

lemma hs_find_from_None: "hs_find_from fds fd i n = None \<longleftrightarrow> (\<forall>j. i \<le> j \<and> j < i + n \<longrightarrow> pfd_fd (fds ! j) \<noteq> fd)"
proof (induction fds fd i n rule: hs_find_from.induct)
  case (2 fds fd i n)
  have "(\<forall>j. i \<le> j \<and> j < i + Suc n \<longrightarrow> pfd_fd (fds ! j) \<noteq> fd) \<longleftrightarrow>
      pfd_fd (fds ! i) \<noteq> fd \<and> (\<forall>j. Suc i \<le> j \<and> j < Suc i + n \<longrightarrow> pfd_fd (fds ! j) \<noteq> fd)"
    by (metis Suc_leD add_Suc add_Suc_right le_antisym less_add_Suc1 not_less_eq_eq order_refl)
  with 2 show ?case by auto
qed simp

lemma hs_shift_eq:
  "0 < i \<Longrightarrow> i + n \<le> length fds \<Longrightarrow> hs_shift fds i n = take (i - 1) fds @ take n (drop i fds) @ drop (i - 1 + n) fds"
proof (induction fds i n rule: hs_shift.induct)
  case (2 fds i n)
  let ?fds = "fds[i - 1 := fds ! i]"
  have "hs_shift ?fds (Suc i) n = take i ?fds @ take n (drop (Suc i) ?fds) @ drop (i + n) ?fds"
    using 2 by simp
  moreover have "take i ?fds = take (i - 1) fds @ [fds ! i]"
    using 2(2,3) by (cases i) (auto simp: take_Suc_update)
  moreover have "drop (Suc i) ?fds = drop (Suc i) fds" "drop (i + n) ?fds = drop (i + n) fds"
    using 2(2) by auto
  moreover have "drop i fds = fds ! i # drop (Suc i) fds" using 2(3) by (simp add: Cons_nth_drop_Suc)
  ultimately show ?case using 2(2) by simp
qed auto


abbreviation pfd_pair :: "pollfd \<Rightarrow> int \<times> 16 word" where
  "pfd_pair p \<equiv> (pfd_fd p, pfd_events p)"

lemma map_of_pfd_split:
  assumes "distinct (map pfd_fd (xs @ p # ys))"
  shows "map_of (map pfd_pair (xs @ ys)) = (map_of (map pfd_pair (xs @ p # ys)))(pfd_fd p := None)"
    and "pfd_fd q = pfd_fd p \<Longrightarrow>
      map_of (map pfd_pair (xs @ q # ys)) = (map_of (map pfd_pair (xs @ p # ys)))(pfd_fd p \<mapsto> pfd_events q)"
proof -
  have none: "map_of (map pfd_pair xs) (pfd_fd p) = None" "map_of (map pfd_pair ys) (pfd_fd p) = None"
    using assms by (auto simp: map_of_eq_None_iff image_image)
  show "map_of (map pfd_pair (xs @ ys)) = (map_of (map pfd_pair (xs @ p # ys)))(pfd_fd p := None)"
    using none by (auto simp: fun_eq_iff map_add_def split: option.splits)
  show "map_of (map pfd_pair (xs @ q # ys)) = (map_of (map pfd_pair (xs @ p # ys)))(pfd_fd p \<mapsto> pfd_events q)"
    if "pfd_fd q = pfd_fd p"
    using none that by (auto simp: fun_eq_iff map_add_def split: option.splits)
qed

lemma hs_used_length [simp]: "hs_table m \<Longrightarrow> length (hs_used m) = hm_fds_len m"
  by (simp add: hs_used_def hs_table_def)

lemma hs_find_used:
  assumes "hs_table m"
  shows "hs_find_fd m fd = Some pos \<Longrightarrow> pos < hm_fds_len m \<and> hs_used m ! pos = hm_fds m ! pos \<and> pfd_fd (hs_used m ! pos) = fd"
    and "hs_find_fd m fd = None \<longleftrightarrow> fd \<notin> pfd_fd ` set (hs_used m)"
proof -
  show "hs_find_fd m fd = Some pos \<Longrightarrow> pos < hm_fds_len m \<and> hs_used m ! pos = hm_fds m ! pos \<and> pfd_fd (hs_used m ! pos) = fd"
    using hs_find_from_Some[of "hm_fds m" fd 0 "hm_fds_len m" pos] by (auto simp: hs_find_fd_def hs_used_def)
  have "(\<forall>j < hm_fds_len m. pfd_fd (hm_fds m ! j) \<noteq> fd) \<longleftrightarrow> fd \<notin> pfd_fd ` set (hs_used m)"
    using assms nth_image[of "hm_fds_len m" "hm_fds m", symmetric] by (auto simp: hs_used_def hs_table_def)
  then show "hs_find_fd m fd = None \<longleftrightarrow> fd \<notin> pfd_fd ` set (hs_used m)"
    by (simp add: hs_find_fd_def hs_find_from_None)
qed

lemma hs_watched_None: "hs_table m \<Longrightarrow> hs_watched m fd = None \<longleftrightarrow> hs_find_fd m fd = None"
  by (simp add: hs_find_used(2) hs_watched_def map_of_eq_None_iff image_image)

lemma hs_watched_dom:
  assumes "hs_table m"
  shows "finite (dom (hs_watched m))" "card (dom (hs_watched m)) = hm_fds_len m"
proof -
  have dom: "dom (hs_watched m) = set (map pfd_fd (hs_used m))"
    by (simp add: hs_watched_def dom_map_of_conv_image_fst image_image)
  then show "finite (dom (hs_watched m))" by simp
  show "card (dom (hs_watched m)) = hm_fds_len m"
    unfolding dom using assms distinct_card[of "map pfd_fd (hs_used m)"] by (simp add: hs_table_def hs_used_def)
qed

text \<open>The three ways the table changes.\<close>

lemma hs_found_split:
  assumes "hs_table m" "hs_find_fd m fd = Some pos"
  shows "hs_used m = take pos (hs_used m) @ hm_fds m ! pos # drop (Suc pos) (hs_used m)" "pfd_fd (hm_fds m ! pos) = fd"
proof -
  have "pos < length (hs_used m)" "hs_used m ! pos = hm_fds m ! pos" using hs_find_used(1)[OF assms] assms(1) by auto
  then show "hs_used m = take pos (hs_used m) @ hm_fds m ! pos # drop (Suc pos) (hs_used m)"
    by (metis id_take_nth_drop)
  show "pfd_fd (hm_fds m ! pos) = fd" using hs_find_used(1)[OF assms] by metis
qed

lemma hs_update_at:
  assumes t: "hs_table m" and f: "hs_find_fd m fd = Some pos" and m': "m' = m\<lparr>hm_fds := (hm_fds m)[pos := (hm_fds m ! pos)\<lparr>pfd_events := e\<rparr>]\<rparr>"
  shows "hs_table m' \<and> hs_watched m' = (hs_watched m)(fd \<mapsto> e)"
proof -
  let ?q = "(hm_fds m ! pos)\<lparr>pfd_events := e\<rparr>"
  let ?xs = "take pos (hs_used m)" and ?ys = "drop (Suc pos) (hs_used m)"
  note split = hs_found_split[OF t f]
  have d: "distinct (map pfd_fd (?xs @ hm_fds m ! pos # ?ys))" using t split(1) by (simp add: hs_table_def)
  have "pos < length (hs_used m)" using hs_find_used(1)[OF t f] t by simp
  moreover have "hs_used m' = (hs_used m)[pos := ?q]" by (simp add: m' hs_used_def take_update_swap)
  ultimately have used: "hs_used m' = ?xs @ ?q # ?ys" by (simp add: upd_conv_take_nth_drop)
  have "hs_table m'" using t d used by (simp add: m' hs_table_def)
  moreover have "hs_watched m' = (map_of (map pfd_pair (?xs @ hm_fds m ! pos # ?ys)))(fd \<mapsto> e)"
    unfolding hs_watched_def used using map_of_pfd_split(2)[OF d, of ?q] split(2) by simp
  ultimately show ?thesis unfolding hs_watched_def using split(1) by simp
qed

lemma hs_add_at:
  assumes t: "hs_table m" and f: "hs_find_fd m fd = None" and r: "hm_fds_len m < fds_maxlen"
    and m': "m' = m\<lparr>hm_fds := (hm_fds m)[hm_fds_len m := \<lparr>pfd_fd = fd, pfd_events = e, pfd_revents = 0\<rparr>],
      hm_fds_len := hm_fds_len m + 1\<rparr>"
  shows "hs_table m' \<and> hs_watched m' = (hs_watched m)(fd \<mapsto> e)"
proof -
  let ?p = "\<lparr>pfd_fd = fd, pfd_events = e, pfd_revents = 0\<rparr>"
  have used: "hs_used m' = hs_used m @ [?p]"
    using t r by (simp add: m' hs_used_def hs_table_def take_Suc_update)
  have new: "fd \<notin> pfd_fd ` set (hs_used m)" using f hs_find_used(2)[OF t] by simp
  then have "hs_table m'" using t r used by (simp add: m' hs_table_def)
  moreover have "map_of (map pfd_pair (hs_used m)) fd = None" using new by (simp add: map_of_eq_None_iff image_image)
  then have "hs_watched m' = (hs_watched m)(fd \<mapsto> e)"
    unfolding hs_watched_def used by (auto simp: fun_eq_iff map_add_def split: option.splits)
  ultimately show ?thesis by simp
qed

lemma hs_del_at:
  assumes t: "hs_table m" and f: "hs_find_fd m fd = Some pos"
    and m': "m' = m\<lparr>hm_fds := hs_shift (hm_fds m) (pos + 1) (hm_fds_len m - (pos + 1)), hm_fds_len := hm_fds_len m - 1\<rparr>"
  shows "hs_table m' \<and> hs_watched m' = (hs_watched m)(fd := None)"
proof -
  let ?n = "hm_fds_len m" and ?xs = "take pos (hs_used m)" and ?ys = "drop (Suc pos) (hs_used m)"
  note split = hs_found_split[OF t f]
  have d: "distinct (map pfd_fd (?xs @ hm_fds m ! pos # ?ys))" using t split(1) by (simp add: hs_table_def)
  have pos: "pos < ?n" using hs_find_used(1)[OF t f] by simp
  have len: "?n \<le> length (hm_fds m)" using t by (simp add: hs_table_def)
  have shift: "hs_shift (hm_fds m) (pos + 1) (?n - (pos + 1)) =
      take pos (hm_fds m) @ take (?n - (pos + 1)) (drop (pos + 1) (hm_fds m)) @ drop (?n - 1) (hm_fds m)"
    using hs_shift_eq[of "pos + 1" "?n - (pos + 1)" "hm_fds m"] pos len by simp
  have parts: "take pos (hm_fds m) = ?xs" "take (?n - (pos + 1)) (drop (pos + 1) (hm_fds m)) = ?ys"
    using pos by (simp_all add: hs_used_def drop_take min_absorb1)
  have lens: "length ?xs + length ?ys = ?n - 1" using t pos by simp
  have fds': "hm_fds m' = ?xs @ ?ys @ drop (?n - 1) (hm_fds m)" "hm_fds_len m' = ?n - 1"
    using shift parts by (simp_all add: m')
  have used: "hs_used m' = ?xs @ ?ys" unfolding hs_used_def[of m'] fds' using lens pos by (simp add: min_absorb2)
  have "length (hm_fds m') = length (hm_fds m)" using lens pos len unfolding fds' by simp
  moreover have "hm_fds_len m' \<le> fds_maxlen" using t fds'(2) unfolding hs_table_def by linarith
  ultimately have "hs_table m'" using t d used unfolding hs_table_def by simp
  moreover have "hs_watched m' = (map_of (map pfd_pair (?xs @ hm_fds m ! pos # ?ys)))(fd := None)"
    unfolding hs_watched_def used using map_of_pfd_split(1)[OF d] split(2) by simp
  ultimately show ?thesis unfolding hs_watched_def using split(1) by simp
qed

interpretation hs_tab: fd_table hs_table hs_watched hs_set_fd hs_del_fd fds_maxlen
proof unfold_locales
  fix t fd e
  assume t: "hs_table t"
  show "finite (dom (hs_watched t)) \<and> card (dom (hs_watched t)) \<le> fds_maxlen"
    using t hs_watched_dom[OF t] by (simp add: hs_table_def)
  show "hs_watched t fd \<noteq> None \<or> card (dom (hs_watched t)) < fds_maxlen \<Longrightarrow>
      fst (hs_set_fd t fd e) \<and> hs_table (snd (hs_set_fd t fd e)) \<and> hs_watched (snd (hs_set_fd t fd e)) = (hs_watched t)(fd \<mapsto> e)"
    using hs_update_at[OF t] hs_add_at[OF t] hs_watched_None[OF t, of fd] hs_watched_dom(2)[OF t]
    by (cases "hs_find_fd t fd") (auto simp: hs_set_fd_def hs_add_fd_def)
  show "hs_watched t fd = None \<Longrightarrow> card (dom (hs_watched t)) = fds_maxlen \<Longrightarrow> hs_set_fd t fd e = (False, t)"
    using hs_watched_None[OF t, of fd] hs_watched_dom(2)[OF t] by (simp add: hs_set_fd_def hs_add_fd_def)
  show "hs_watched t fd \<noteq> None \<Longrightarrow>
      fst (hs_del_fd t fd) \<and> hs_table (snd (hs_del_fd t fd)) \<and> hs_watched (snd (hs_del_fd t fd)) = (hs_watched t)(fd := None)"
    using hs_del_at[OF t] hs_watched_None[OF t, of fd] by (cases "hs_find_fd t fd") (auto simp: hs_del_fd_def)
  show "hs_watched t fd = None \<Longrightarrow> hs_del_fd t fd = (False, t)"
    using hs_watched_None[OF t, of fd] by (simp add: hs_del_fd_def)
qed


section \<open>What the callbacks leave alone\<close>

definition hs_core :: "https_mod \<Rightarrow> (hs_st \<times> https_stop_strategy \<times> bool) \<times> (curl_code \<times> curlm_code) \<times> https_ev_type list \<times>
    bool \<times> int \<times> int \<times> handle \<times> handle \<times> string list option \<times> curl_set \<times> bool" where
  "hs_core m = ((hm_st m, hm_stop_strat m, hm_is_stop_waiting m), (hm_curl_err m, hm_curlm_err m), hm_evs m,
     hm_data_cb m, hm_resp_status m, hm_timerfd m, hm_curl m, hm_curlm m, hm_json_hdrs m, hm_set m, hm_added m)"

lemma hs_coreD:
  assumes "hs_core m' = hs_core m"
  shows "hm_st m' = hm_st m" "hm_stop_strat m' = hm_stop_strat m" "hm_is_stop_waiting m' = hm_is_stop_waiting m"
    "hm_evs m' = hm_evs m" "hm_resp_status m' = hm_resp_status m" "hm_timerfd m' = hm_timerfd m" "hm_curl m' = hm_curl m"
    "hm_curlm m' = hm_curlm m" "hm_json_hdrs m' = hm_json_hdrs m" "hm_set m' = hm_set m" "hm_added m' = hm_added m"
  using assms by (simp_all add: hs_core_def)

lemma hs_set_fd_core [simp]: "hs_core (snd (hs_set_fd m fd e)) = hs_core m"
  by (auto simp: hs_set_fd_def hs_add_fd_def hs_core_def split: option.splits)

lemma hs_del_fd_core [simp]: "hs_core (snd (hs_del_fd m fd)) = hs_core m"
  by (auto simp: hs_del_fd_def hs_core_def split: option.splits)

definition hs_tabs :: "https_mod \<Rightarrow> pollfd list \<times> nat" where
  "hs_tabs m = (hm_fds m, hm_fds_len m)"

lemma hs_set_fd_tabs: "hs_tabs m = hs_tabs n \<Longrightarrow> hs_tabs (snd (hs_set_fd m fd e)) = hs_tabs (snd (hs_set_fd n fd e))"
  by (auto simp: hs_set_fd_def hs_add_fd_def hs_find_fd_def hs_tabs_def split: option.splits)

lemma hs_del_fd_tabs: "hs_tabs m = hs_tabs n \<Longrightarrow> hs_tabs (snd (hs_del_fd m fd)) = hs_tabs (snd (hs_del_fd n fd))"
  by (auto simp: hs_del_fd_def hs_find_fd_def hs_tabs_def split: option.splits)

lemma hs_tabs_determine: "hs_tabs m = hs_tabs n \<Longrightarrow> hs_table m = hs_table n" "hs_tabs m = hs_tabs n \<Longrightarrow> hs_watched m = hs_watched n"
  by (auto simp: hs_tabs_def hs_table_def hs_watched_def hs_used_def)

abbreviation hs_watch_all :: "https_mod \<Rightarrow> (int \<times> 16 word option) list \<Rightarrow> https_mod" where
  "hs_watch_all \<equiv> watch_all hs_set_fd hs_del_fd"

lemma hs_watch_all_tabs: "hs_tabs m = hs_tabs n \<Longrightarrow> hs_tabs (hs_watch_all m ops) = hs_tabs (hs_watch_all n ops)"
proof (induction ops arbitrary: m n)
  case (Cons op ops)
  obtain fd e where op: "op = (fd, e)" by (cases op)
  show ?case
    using Cons.IH[OF hs_set_fd_tabs[OF Cons.prems, of fd]] Cons.IH[OF hs_del_fd_tabs[OF Cons.prems, of fd]]
    by (cases e) (simp_all add: op)
qed simp

text \<open>What a callback asks the table for; \<open>tfd\<close> is the timer's descriptor.\<close>

fun cb_watch :: "int \<Rightarrow> curl_cb \<Rightarrow> (int \<times> 16 word option) list" where
  "cb_watch tfd (Cb_sock fd what) = [(fd, if what = 4 then None else Some (hs_poll_events what))]"
| "cb_watch tfd (Cb_timer ms ok) = [(tfd, if ms \<ge> 0 then Some POLLIN else None)]"
| "cb_watch tfd (Cb_write data) = []"

text \<open>libcurl does not know the timer: no callback names its descriptor as a socket.\<close>

definition cbs_ok :: "int \<Rightarrow> curl_cb list \<Rightarrow> bool" where
  "cbs_ok tfd cbs = list_all (\<lambda>cb. case cb of Cb_sock fd what \<Rightarrow> fd \<noteq> tfd | _ \<Rightarrow> True) cbs"

lemma hs_callback_ok:
  assumes "cbs_ok (hm_timerfd m) [cb]"
  shows "\<exists>m'. hs_callback m cb = Inr m' \<and> hs_core m' = hs_core m \<and> hs_tabs m' = hs_tabs (hs_watch_all m (cb_watch (hm_timerfd m) cb))"
proof (cases cb)
  case (Cb_sock fd what)
  then show ?thesis
    using assms by (auto simp: hs_sock_cb_def cbs_ok_def split_beta)
next
  case (Cb_timer ms ok)
  have "hs_core (n\<lparr>hm_timer := t\<rparr>) = hs_core n" "hs_tabs (n\<lparr>hm_timer := t\<rparr>) = hs_tabs n" for n t
    by (simp_all add: hs_core_def hs_tabs_def)
  with Cb_timer show ?thesis by (auto simp: hs_timer_cb_def Let_def)
next
  case (Cb_write data)
  then show ?thesis by (simp add: hs_write_cb_def hs_core_def hs_tabs_def)
qed

lemma watch_all_append: "watch_all st dl t (xs @ ys) = watch_all st dl (watch_all st dl t xs) ys"
  by (induction st dl t xs rule: watch_all.induct) auto

lemma hs_callbacks_ok:
  assumes "cbs_ok (hm_timerfd m) cbs"
  shows "\<exists>m'. hs_callbacks m cbs = Inr m' \<and> hs_core m' = hs_core m \<and>
    hs_tabs m' = hs_tabs (hs_watch_all m (concat (map (cb_watch (hm_timerfd m)) cbs)))"
  using assms
proof (induction cbs arbitrary: m)
  case (Cons cb cbs)
  obtain m1 where m1: "hs_callback m cb = Inr m1" "hs_core m1 = hs_core m"
    "hs_tabs m1 = hs_tabs (hs_watch_all m (cb_watch (hm_timerfd m) cb))"
    using hs_callback_ok[of m cb] Cons.prems by (auto simp: cbs_ok_def)
  have tfd: "hm_timerfd m1 = hm_timerfd m" using hs_coreD[OF m1(2)] by simp
  obtain m2 where m2: "hs_callbacks m1 cbs = Inr m2" "hs_core m2 = hs_core m1"
    "hs_tabs m2 = hs_tabs (hs_watch_all m1 (concat (map (cb_watch (hm_timerfd m)) cbs)))"
    using Cons.IH[of m1] Cons.prems tfd by (auto simp: cbs_ok_def)
  with m1 hs_watch_all_tabs[OF m1(3)] show ?case by (simp add: watch_all_append)
qed simp

lemma hs_callbacks_table:
  assumes "cbs_ok (hm_timerfd m) cbs" "hs_table m"
  shows "\<exists>m'. hs_callbacks m cbs = Inr m' \<and> hs_core m' = hs_core m \<and> hs_table m'"
  using hs_callbacks_ok[OF assms(1)] hs_tabs_determine(1) hs_tab.watch_all_inv[OF assms(2)] by metis

section \<open>The invariant\<close>

text \<open>What libcurl gave the module is all there, or all given back.\<close>

definition hs_live :: "https_mod \<Rightarrow> bool" where
  "hs_live m \<longleftrightarrow> hm_curl m = H_live \<and> hm_curlm m = H_live \<and> hm_json_hdrs m \<noteq> None"

definition hs_given_back :: "https_mod \<Rightarrow> bool" where
  "hs_given_back m \<longleftrightarrow> hm_curl m = H_freed \<and> hm_curlm m = H_freed \<and> hm_json_hdrs m = None"

text \<open>
  The table is sound, the events fit their array, a stop is only waited for while a
  request is pending or after it failed, and the handles are live, or were given back by a
  stop.
\<close>

definition hs_inv :: "https_mod \<Rightarrow> bool" where
  "hs_inv m \<longleftrightarrow> hs_table m \<and> length (hm_evs m) \<le> evs_maxlen \<and>
     (hm_is_stop_waiting m \<longrightarrow> hm_st m = Hs_pend \<or> hm_st m = Hs_err) \<and>
     (hs_live m \<or> hs_given_back m \<and> (hm_st m = Hs_uninit \<or> hm_st m = Hs_stopped))"

definition turn_ok :: "int \<Rightarrow> curl_turn \<Rightarrow> bool" where
  "turn_ok tfd t \<longleftrightarrow> (\<forall>fd ev. cbs_ok tfd (fst (ct_action t fd ev))) \<and> cbs_ok tfd (ct_remove t)"

text \<open>
  Inside the loop of \<^verbatim>\<open>https_update\<close>, \<open>w\<close> being whether a stop is waited for: the request is
  pending and nothing was reported, or it failed; and how the loop is left.
\<close>

definition hs_running :: "bool \<Rightarrow> https_mod \<Rightarrow> bool" where
  "hs_running w m \<longleftrightarrow> hs_table m \<and> hs_live m \<and> hm_is_stop_waiting m = w \<and>
     (hm_st m = Hs_pend \<and> hm_evs m = [] \<or>
      hm_st m = Hs_err \<and> hm_evs m \<noteq> [] \<and> set (hm_evs m) \<subseteq> {https_ev_req_fail})"

definition hs_finished :: "bool \<Rightarrow> https_mod \<Rightarrow> bool" where
  "hs_finished w m \<longleftrightarrow> hs_table m \<and> hs_live m \<and> \<not> hm_is_stop_waiting m \<and> hm_st m = (if w then Hs_stopped else Hs_idle) \<and>
     (\<exists>es. set es \<subseteq> {https_ev_req_fail} \<and>
        hm_evs m = es @ (if w then [https_ev_req_fin, https_ev_stopped] else [https_ev_req_fin]))"

lemma hs_table_fields [simp]:
  "hs_table (m\<lparr>hm_evs := e\<rparr>) = hs_table m" "hs_table (m\<lparr>hm_st := s\<rparr>) = hs_table m"
  "hs_table (m\<lparr>hm_is_stop_waiting := w\<rparr>) = hs_table m" "hs_table (m\<lparr>hm_added := a\<rparr>) = hs_table m"
  "hs_table (m\<lparr>hm_curl_err := ce\<rparr>) = hs_table m" "hs_table (m\<lparr>hm_curlm_err := cm\<rparr>) = hs_table m"
  "hs_table (m\<lparr>hm_resp_status := rs\<rparr>) = hs_table m" "hs_table (m\<lparr>hm_set := os\<rparr>) = hs_table m"
  "hs_table (m\<lparr>hm_stop_strat := sg\<rparr>) = hs_table m" "hs_table (m\<lparr>hm_json_hdrs := jh\<rparr>) = hs_table m"
  "hs_table (m\<lparr>hm_curl := h1\<rparr>) = hs_table m" "hs_table (m\<lparr>hm_curlm := h2\<rparr>) = hs_table m"
  by (simp_all add: hs_table_def hs_used_def)

lemma hs_live_fields [simp]:
  "hs_live (m\<lparr>hm_evs := e\<rparr>) = hs_live m" "hs_live (m\<lparr>hm_st := s\<rparr>) = hs_live m"
  "hs_live (m\<lparr>hm_is_stop_waiting := w\<rparr>) = hs_live m" "hs_live (m\<lparr>hm_added := a\<rparr>) = hs_live m"
  "hs_live (m\<lparr>hm_curl_err := ce\<rparr>) = hs_live m" "hs_live (m\<lparr>hm_curlm_err := cm\<rparr>) = hs_live m"
  "hs_live (m\<lparr>hm_resp_status := rs\<rparr>) = hs_live m" "hs_live (m\<lparr>hm_set := os\<rparr>) = hs_live m"
  "hs_live (m\<lparr>hm_stop_strat := sg\<rparr>) = hs_live m"
  by (simp_all add: hs_live_def)

lemma hs_given_back_fields [simp]:
  "hs_given_back (m\<lparr>hm_evs := e\<rparr>) = hs_given_back m" "hs_given_back (m\<lparr>hm_st := s\<rparr>) = hs_given_back m"
  "hs_given_back (m\<lparr>hm_is_stop_waiting := w\<rparr>) = hs_given_back m" "hs_given_back (m\<lparr>hm_stop_strat := sg\<rparr>) = hs_given_back m"
  by (simp_all add: hs_given_back_def)

lemma hs_live_handles: "hs_live m \<Longrightarrow> hm_curl m \<noteq> H_freed" "hs_live m \<Longrightarrow> hm_curlm m \<noteq> H_freed"
  by (simp_all add: hs_live_def)

lemma hs_core_live: "hs_core m' = hs_core m \<Longrightarrow> hs_live m' = hs_live m"
  by (simp add: hs_live_def hs_core_def)

lemma hs_must_add_ev_ok: "length (hm_evs m) < evs_maxlen \<Longrightarrow> hs_must_add_ev m ty = Inr (m\<lparr>hm_evs := hm_evs m @ [ty]\<rparr>)"
  by (simp add: hs_must_add_ev_def hs_add_ev_def)

lemma hs_remove_ok:
  assumes "cbs_ok (hm_timerfd m) cbs" "hs_table m" "hs_live m"
  shows "\<exists>m1. hs_remove_handle m cbs = Inr (m1\<lparr>hm_added := False\<rparr>) \<and> hs_core m1 = hs_core m \<and> hs_table m1"
  using hs_callbacks_table[OF assms(1,2)] hs_live_handles[OF assms(3)] by (auto simp: hs_remove_handle_def)

text \<open>A finished request: what the events and the state are, with and without a waiting stop.\<close>

lemma hs_req_done_ok:
  assumes "hs_table m" "hs_live m" "cbs_ok (hm_timerfd m) (ct_remove t)" "length (hm_evs m) \<le> 10"
  shows "\<exists>m'. hs_req_done m t = Inr m' \<and> hs_table m' \<and> hs_live m' \<and> hm_timerfd m' = hm_timerfd m \<and>
    hm_resp_status m' = ct_status t \<and> \<not> hm_is_stop_waiting m' \<and> \<not> hm_added m' \<and>
    hm_st m' = (if hm_is_stop_waiting m then Hs_stopped else Hs_idle) \<and>
    hm_evs m' = hm_evs m @ (if hm_is_stop_waiting m then [https_ev_req_fin, https_ev_stopped] else [https_ev_req_fin])"
proof -
  let ?m = "m\<lparr>hm_resp_status := ct_status t, hm_st := Hs_idle, hm_evs := hm_evs m @ [https_ev_req_fin]\<rparr>"
  obtain m1 where m1: "hs_remove_handle ?m (ct_remove t) = Inr (m1\<lparr>hm_added := False\<rparr>)" "hs_core m1 = hs_core ?m" "hs_table m1"
    using hs_remove_ok[of ?m "ct_remove t"] assms by auto
  note c = hs_coreD[OF m1(2)] and l = hs_core_live[OF m1(2)]
  have "hs_must_add_ev (m\<lparr>hm_resp_status := ct_status t, hm_st := Hs_idle\<rparr>) https_ev_req_fin = Inr ?m"
    using assms(4) by (simp add: hs_must_add_ev_ok evs_maxlen_def)
  then show ?thesis
    using m1(1,3) c l assms(2,4) hs_live_handles(1)[OF assms(2)]
    by (simp add: hs_req_done_def hs_set_st_def Let_def hs_must_add_ev_ok evs_maxlen_def)
qed

text \<open>
  What libcurl says in one round: that the request is done, or that it failed. The loop over
  the messages ends with the first success; failures are recorded on the way.
\<close>

definition msgs_success :: "curl_msg list \<Rightarrow> bool" where
  "msgs_success msgs \<longleftrightarrow> Msg_done CURLE_OK \<in> set msgs"

definition msgs_failure :: "curl_msg list \<Rightarrow> bool" where
  "msgs_failure msgs \<longleftrightarrow> list_ex (\<lambda>msg. case msg of Msg_done r \<Rightarrow> r \<noteq> CURLE_OK | Msg_other \<Rightarrow> False) msgs"

lemma msgs_simps [simp]:
  "\<not> msgs_success []" "msgs_success (msg # msgs) \<longleftrightarrow> msg = Msg_done CURLE_OK \<or> msgs_success msgs"
  "\<not> msgs_failure []" "msgs_failure (Msg_other # msgs) = msgs_failure msgs"
  "msgs_failure (Msg_done r # msgs) \<longleftrightarrow> r \<noteq> CURLE_OK \<or> msgs_failure msgs"
  by (auto simp: msgs_success_def msgs_failure_def)

lemma msgs_failure_iff: "msgs_failure msgs \<longleftrightarrow> (\<exists>r. r \<noteq> CURLE_OK \<and> Msg_done r \<in> set msgs)"
proof (induction msgs)
  case (Cons msg msgs)
  then show ?case by (cases msg) auto
qed simp

lemma hs_messages_ok:
  assumes "hs_running w m" "cbs_ok (hm_timerfd m) (ct_remove t)" "length (hm_evs m) + length msgs \<le> 10"
  shows "\<exists>m'. hs_messages m t msgs = Inr (msgs_success msgs, m') \<and> hm_timerfd m' = hm_timerfd m \<and>
    length (hm_evs m') \<le> length (hm_evs m) + length msgs + (if msgs_success msgs then 1 else 0) \<and>
    (if msgs_success msgs then hs_finished w m' \<and> hm_resp_status m' = ct_status t
     else hs_running w m' \<and> (hm_st m' = Hs_err \<longleftrightarrow> hm_st m = Hs_err \<or> msgs_failure msgs))"
  using assms
proof (induction m t msgs rule: hs_messages.induct)
  case (1 m t)
  then show ?case by simp
next
  case (2 m t msgs)
  have "length (hm_evs m) + length msgs \<le> 10" using 2(4) by simp
  from 2(1)[OF 2(2,3) this] show ?case by auto
next
  case (3 m t r msgs)
  show ?case
  proof (cases "r = CURLE_OK")
    case True
    have "hs_table m" "hs_live m" "length (hm_evs m) \<le> 10" using 3(2,4) by (auto simp: hs_running_def)
    from hs_req_done_ok[OF this(1,2) 3(3) this(3)] obtain m' where m': "hs_req_done m t = Inr m'" "hs_table m'" "hs_live m'"
      "hm_timerfd m' = hm_timerfd m" "hm_resp_status m' = ct_status t" "\<not> hm_is_stop_waiting m'"
      "hm_st m' = (if hm_is_stop_waiting m then Hs_stopped else Hs_idle)"
      "hm_evs m' = hm_evs m @ (if hm_is_stop_waiting m then [https_ev_req_fin, https_ev_stopped] else [https_ev_req_fin])"
      by blast
    have w: "hm_is_stop_waiting m = w" "set (hm_evs m) \<subseteq> {https_ev_req_fail}" using 3(2) by (auto simp: hs_running_def)
    have "hs_finished w m'" unfolding hs_finished_def using m'(2,3,6-8) w by blast
    moreover have "length (hm_evs m') \<le> length (hm_evs m) + length (Msg_done r # msgs) + 1" using m'(8) by simp
    ultimately show ?thesis using True m'(1,4,5) by simp
  next
    case False
    let ?m = "m\<lparr>hm_curl_err := r, hm_st := Hs_err, hm_evs := hm_evs m @ [https_ev_req_fail]\<rparr>"
    have fail: "hs_req_fail (m\<lparr>hm_curl_err := r\<rparr>) = Inr ?m"
      using 3(4) by (simp add: hs_req_fail_def hs_set_st_def hs_must_add_ev_ok evs_maxlen_def)
    have "hs_running w ?m" using 3(2) by (auto simp: hs_running_def)
    moreover have "cbs_ok (hm_timerfd ?m) (ct_remove t)" "length (hm_evs ?m) + length msgs \<le> 10" using 3(3,4) by auto
    ultimately obtain m' where "hs_messages ?m t msgs = Inr (msgs_success msgs, m')" "hm_timerfd m' = hm_timerfd ?m"
      "length (hm_evs m') \<le> length (hm_evs ?m) + length msgs + (if msgs_success msgs then 1 else 0)"
      "if msgs_success msgs then hs_finished w m' \<and> hm_resp_status m' = ct_status t
       else hs_running w m' \<and> (hm_st m' = Hs_err \<longleftrightarrow> hm_st ?m = Hs_err \<or> msgs_failure msgs)"
      using 3(1)[OF False] by blast
    with fail False show ?thesis by (intro exI[of _ m']) simp
  qed
qed

text \<open>
  A round ends the loop when the call failed or a success was read; what it leaves otherwise.
\<close>

definition turn_last :: "curlm_code \<Rightarrow> curl_turn \<Rightarrow> bool" where
  "turn_last code t \<longleftrightarrow> code \<noteq> CURLM_OK \<or> msgs_success (ct_msgs t)"

lemma hs_turn_ok:
  assumes "hs_running w m" "turn_ok (hm_timerfd m) t" "length (hm_evs m) + length (ct_msgs t) \<le> 10"
  shows "\<exists>m'. hs_turn m fd t = Inr (turn_last (snd (hs_action m fd t)) t, m') \<and> hm_timerfd m' = hm_timerfd m \<and>
    length (hm_evs m') \<le> length (hm_evs m) + length (ct_msgs t) + (if turn_last (snd (hs_action m fd t)) t then 1 else 0) \<and>
    (if snd (hs_action m fd t) \<noteq> CURLM_OK then hs_running w m' \<and> hm_st m' = Hs_err
     else if msgs_success (ct_msgs t) then hs_finished w m' \<and> hm_resp_status m' = ct_status t
     else hs_running w m' \<and> (hm_st m' = Hs_err \<longleftrightarrow> hm_st m = Hs_err \<or> msgs_failure (ct_msgs t)))"
proof -
  let ?call = "hs_action m fd t"
  have "cbs_ok (hm_timerfd m) (fst ?call)" using assms(2) by (auto simp: turn_ok_def cbs_ok_def hs_action_def)
  moreover have "hs_table m" "hs_live m" using assms(1) by (simp_all add: hs_running_def)
  ultimately obtain m1 where m1: "hs_callbacks m (fst ?call) = Inr m1" "hs_core m1 = hs_core m" "hs_table m1"
    using hs_callbacks_table by blast
  note c = hs_coreD[OF m1(2)] and l = hs_core_live[OF m1(2)] and h = hs_live_handles(2)[OF \<open>hs_live m\<close>]
  have run: "hs_running w m1" using m1(3) c l assms(1) by (simp add: hs_running_def)
  show ?thesis
  proof (cases "snd ?call = CURLM_OK")
    case True
    have "cbs_ok (hm_timerfd m1) (ct_remove t)" "length (hm_evs m1) + length (ct_msgs t) \<le> 10"
      using assms(2,3) c(4,6) by (simp_all add: turn_ok_def)
    from hs_messages_ok[OF run this] True m1(1) c(1,4,6) h show ?thesis by (auto simp: hs_turn_def Let_def turn_last_def)
  next
    case False
    let ?m' = "m1\<lparr>hm_curlm_err := snd ?call, hm_st := Hs_err, hm_evs := hm_evs m1 @ [https_ev_req_fail]\<rparr>"
    have len: "length (hm_evs m1) \<le> 10" using assms(3) c(4) by simp
    have "hs_running w ?m'" using run by (auto simp: hs_running_def)
    moreover have "hs_req_fail (m1\<lparr>hm_curlm_err := snd ?call\<rparr>) = Inr ?m'"
      using len by (simp add: hs_req_fail_def hs_set_st_def hs_must_add_ev_ok evs_maxlen_def)
    ultimately show ?thesis
      using False m1(1) c(4,6) h unfolding hs_turn_def Let_def turn_last_def by (intro exI[of _ ?m']) simp
  qed
qed

definition msgs_total :: "(nat \<Rightarrow> curl_turn) \<Rightarrow> nat \<Rightarrow> nat \<Rightarrow> nat" where
  "msgs_total ts i n = sum_list (map (\<lambda>k. length (ct_msgs (ts k))) [i ..< i + n])"

lemma msgs_total_simps [simp]:
  "msgs_total ts i 0 = 0" "msgs_total ts i (Suc n) = length (ct_msgs (ts i)) + msgs_total ts (Suc i) n"
  by (simp_all add: msgs_total_def upt_conv_Cons del: upt_Suc)

definition fds_fit :: "pollfd list option \<Rightarrow> nat \<Rightarrow> bool" where
  "fds_fit fds n \<longleftrightarrow> n \<le> (case fds of None \<Rightarrow> fds_maxlen | Some a \<Rightarrow> length a)"

lemma hs_fd_at_ok: "hs_table m \<Longrightarrow> fds_fit fds n \<Longrightarrow> i < n \<Longrightarrow> \<exists>fd. hs_fd_at m fds i = Inr fd"
  by (auto simp: hs_fd_at_def fds_fit_def hs_table_def Let_def split: option.splits)

text \<open>
  What libcurl's call returned for the descriptor \<open>k\<close> places after position \<open>i\<close>: the loop is
  run up to there and the call made on the descriptor found. When the descriptors are the
  caller's own, this is just what the call on that descriptor returns (\<open>hs_code_own\<close> below).
\<close>

definition hs_code :: "https_mod \<Rightarrow> pollfd list option \<Rightarrow> (nat \<Rightarrow> curl_turn) \<Rightarrow> nat \<Rightarrow> nat \<Rightarrow> curlm_code" where
  "hs_code m fds ts i k =
     (case and_then (hs_turns m fds ts i k) (\<lambda>n. and_then (hs_fd_at n fds (i + k)) (\<lambda>fd. Inr (snd (hs_action n fd (ts (i + k)))))) of
        Inl f \<Rightarrow> CURLM_OK | Inr code \<Rightarrow> code)"

text \<open>The first of \<open>n\<close> rounds from \<open>i\<close> on that ends the loop, if any does.\<close>

fun last_turn :: "(nat \<Rightarrow> curlm_code) \<Rightarrow> (nat \<Rightarrow> curl_turn) \<Rightarrow> nat \<Rightarrow> nat \<Rightarrow> nat option" where
  "last_turn code ts i 0 = None"
| "last_turn code ts i (Suc n) =
     (if turn_last (code 0) (ts i) then Some 0 else map_option Suc (last_turn (\<lambda>k. code (Suc k)) ts (Suc i) n))"

lemma last_turn_find: "last_turn code ts i n = find (\<lambda>k. turn_last (code k) (ts (i + k))) [0 ..< n]"
proof (induction code ts i n rule: last_turn.induct)
  case (2 code ts i n)
  have "find P (map Suc ks) = map_option Suc (find (\<lambda>k. P (Suc k)) ks)" for P ks by (induction ks) auto
  moreover have "[0 ..< Suc n] = 0 # map Suc [0 ..< n]" by (simp add: upt_conv_Cons map_Suc_upt del: upt_Suc)
  ultimately show ?case using 2 by (simp del: upt_Suc)
qed simp

text \<open>How the loop ends, in terms of what libcurl said: \<open>w\<close> and \<open>e\<close> as it started, \<open>m\<close> the result.\<close>

definition loop_ends :: "bool \<Rightarrow> bool \<Rightarrow> (nat \<Rightarrow> curlm_code) \<Rightarrow> (nat \<Rightarrow> curl_turn) \<Rightarrow> nat \<Rightarrow> nat \<Rightarrow> https_mod \<Rightarrow> bool" where
  "loop_ends w e code ts i n m =
     (case last_turn code ts i n of
        Some k \<Rightarrow> if code k = CURLM_OK then hs_finished w m \<and> hm_resp_status m = ct_status (ts (i + k))
                  else hs_running w m \<and> hm_st m = Hs_err
      | None \<Rightarrow> hs_running w m \<and> (hm_st m = Hs_err \<longleftrightarrow> e \<or> list_ex (\<lambda>k. msgs_failure (ct_msgs (ts k))) [i ..< i + n]))"

lemma loop_ends_step:
  assumes "\<not> turn_last (code 0) (ts i)"
  shows "loop_ends w e code ts i (Suc n) m =
    loop_ends w (e \<or> msgs_failure (ct_msgs (ts i))) (\<lambda>k. code (Suc k)) ts (Suc i) n m"
proof -
  have "[i ..< i + Suc n] = i # [Suc i ..< Suc i + n]" by (simp add: upt_conv_Cons del: upt_Suc)
  with assms show ?thesis
    by (cases "last_turn (\<lambda>k. code (Suc k)) ts (Suc i) n") (simp_all add: loop_ends_def del: upt_Suc)
qed

lemma hs_turns_ok:
  assumes "hs_running w m" "\<And>k. turn_ok (hm_timerfd m) (ts k)" "length (hm_evs m) + msgs_total ts i n \<le> 10" "fds_fit fds (i + n)"
  shows "\<exists>m'. hs_turns m fds ts i n = Inr m' \<and> hm_timerfd m' = hm_timerfd m \<and> length (hm_evs m') \<le> 11 \<and>
    loop_ends w (hm_st m = Hs_err) (hs_code m fds ts i) ts i n m'"
  using assms
proof (induction n arbitrary: i m)
  case 0
  then show ?case by (simp add: loop_ends_def)
next
  case (Suc n)
  obtain fd where fd: "hs_fd_at m fds i = Inr fd"
    using hs_fd_at_ok[OF _ Suc.prems(4), of m i] Suc.prems(1) by (auto simp: hs_running_def)
  have len: "length (hm_evs m) + length (ct_msgs (ts i)) \<le> 10" using Suc.prems(3) by simp
  define code where "code = hs_code m fds ts i"
  have code0: "code 0 = snd (hs_action m fd (ts i))" by (simp add: code_def hs_code_def fd)
  obtain m1 where m1: "hs_turn m fd (ts i) = Inr (turn_last (code 0) (ts i), m1)" "hm_timerfd m1 = hm_timerfd m"
    "length (hm_evs m1) \<le> length (hm_evs m) + length (ct_msgs (ts i)) + (if turn_last (code 0) (ts i) then 1 else 0)"
    "if code 0 \<noteq> CURLM_OK then hs_running w m1 \<and> hm_st m1 = Hs_err
     else if msgs_success (ct_msgs (ts i)) then hs_finished w m1 \<and> hm_resp_status m1 = ct_status (ts i)
     else hs_running w m1 \<and> (hm_st m1 = Hs_err \<longleftrightarrow> hm_st m = Hs_err \<or> msgs_failure (ct_msgs (ts i)))"
    using hs_turn_ok[OF Suc.prems(1,2) len, of fd] unfolding code0 by blast
  show ?case unfolding code_def[symmetric]
  proof (cases "turn_last (code 0) (ts i)")
    case True
    then have "loop_ends w (hm_st m = Hs_err) code ts i (Suc n) m1" using m1(4) by (auto simp: loop_ends_def turn_last_def)
    with True fd m1 Suc.prems(3)
    show "\<exists>m'. hs_turns m fds ts i (Suc n) = Inr m' \<and> hm_timerfd m' = hm_timerfd m \<and> length (hm_evs m') \<le> 11 \<and>
      loop_ends w (hm_st m = Hs_err) code ts i (Suc n) m'" by (intro exI[of _ m1]) auto
  next
    case False
    then have r: "hs_running w m1" "hm_st m1 = Hs_err \<longleftrightarrow> hm_st m = Hs_err \<or> msgs_failure (ct_msgs (ts i))"
      using m1(4) by (auto simp: turn_last_def)
    have "\<exists>m'. hs_turns m1 fds ts (Suc i) n = Inr m' \<and> hm_timerfd m' = hm_timerfd m1 \<and> length (hm_evs m') \<le> 11 \<and>
      loop_ends w (hm_st m1 = Hs_err) (hs_code m1 fds ts (Suc i)) ts (Suc i) n m'"
      by (intro Suc.IH) (use m1 r False Suc.prems in \<open>simp_all\<close>)
    moreover have "(\<lambda>k. code (Suc k)) = hs_code m1 fds ts (Suc i)"
      using fd m1(1) False by (simp add: code_def hs_code_def fun_eq_iff)
    ultimately show "\<exists>m'. hs_turns m fds ts i (Suc n) = Inr m' \<and> hm_timerfd m' = hm_timerfd m \<and> length (hm_evs m') \<le> 11 \<and>
      loop_ends w (hm_st m = Hs_err) code ts i (Suc n) m'"
      using fd m1(1,2) r(2) loop_ends_step[of code ts i, OF False] False by simp
  qed
qed

lemma hs_running_inv: "hs_running w m \<Longrightarrow> length (hm_evs m) \<le> 11 \<Longrightarrow> hs_inv m"
  by (auto simp: hs_running_def hs_inv_def evs_maxlen_def)

lemma hs_finished_inv: "hs_finished w m \<Longrightarrow> length (hm_evs m) \<le> 11 \<Longrightarrow> hs_inv m"
  by (simp add: hs_finished_def hs_inv_def evs_maxlen_def)

lemma loop_ends_inv: "loop_ends w e code ts i n m \<Longrightarrow> length (hm_evs m) \<le> 11 \<Longrightarrow> hs_inv m"
  using hs_running_inv hs_finished_inv by (auto simp: loop_ends_def split: option.splits if_splits)

text \<open>What is asked of the arguments of an update.\<close>

definition update_ok :: "int \<Rightarrow> pollfd list option \<Rightarrow> nat \<Rightarrow> (nat \<Rightarrow> curl_turn) \<Rightarrow> bool" where
  "update_ok tfd fds nfds ts \<longleftrightarrow> (\<forall>k. turn_ok tfd (ts k)) \<and> msgs_total ts 0 nfds \<le> 10 \<and> fds_fit fds nfds"

text \<open>What libcurl's calls in an update return, descriptor by descriptor.\<close>

abbreviation update_code :: "https_mod \<Rightarrow> pollfd list option \<Rightarrow> (nat \<Rightarrow> curl_turn) \<Rightarrow> nat \<Rightarrow> curlm_code" where
  "update_code m fds ts \<equiv> hs_code (m\<lparr>hm_evs := []\<rparr>) fds ts 0"

lemma https_update_pend:
  assumes "hs_inv m" "hm_st m = Hs_pend" "update_ok (hm_timerfd m) fds nfds ts"
  shows "\<exists>m'. https_update m fds nfds ts = Inr m' \<and> hm_timerfd m' = hm_timerfd m \<and> length (hm_evs m') \<le> 11 \<and>
    loop_ends (hm_is_stop_waiting m) False (update_code m fds ts) ts 0 nfds m'"
proof -
  let ?m = "m\<lparr>hm_evs := []\<rparr>"
  have "hs_running (hm_is_stop_waiting m) ?m" using assms(1,2) by (auto simp: hs_running_def hs_inv_def)
  from hs_turns_ok[OF this, of ts 0 nfds fds] assms(3) assms(2) show ?thesis
    by (simp add: update_ok_def https_update_def Let_def)
qed

lemma https_update_inv:
  assumes "hs_inv m" "update_ok (hm_timerfd m) fds nfds ts"
  shows "\<exists>m'. https_update m fds nfds ts = Inr m' \<and> hs_inv m' \<and> hm_timerfd m' = hm_timerfd m"
proof (cases "hm_st m = Hs_pend")
  case True
  from https_update_pend[OF assms(1) this assms(2)] show ?thesis using loop_ends_inv by blast
next
  case False
  with assms(1) show ?thesis
    by (auto simp: https_update_def hs_must_add_ev_ok evs_maxlen_def hs_set_st_def Let_def hs_inv_def)
qed

text \<open>For descriptors of the caller's own, the results are those of libcurl's calls on them.\<close>

lemma hs_code_own:
  assumes "hs_inv m" "hm_st m = Hs_pend" "update_ok (hm_timerfd m) (Some a) nfds ts" "k < nfds"
  shows "update_code m (Some a) ts k = snd (hs_action m (a ! k) (ts k))"
proof -
  have "msgs_total ts 0 k \<le> msgs_total ts 0 nfds"
  proof -
    have "[0 ..< nfds] = [0 ..< k] @ [k ..< nfds]" using assms(4) by (metis le_add_same_cancel1 less_imp_le upt_add_eq_append zero_le le_add_diff_inverse)
    then show ?thesis by (simp add: msgs_total_def)
  qed
  then have "update_ok (hm_timerfd m) (Some a) k ts" using assms(3,4) by (auto simp: update_ok_def fds_fit_def)
  from https_update_pend[OF assms(1,2) this] obtain n where "hs_turns (m\<lparr>hm_evs := []\<rparr>) (Some a) ts 0 k = Inr n" "hm_timerfd n = hm_timerfd m"
    using assms(2) by (auto simp: https_update_def Let_def)
  moreover have "k < length a" using assms(3,4) by (simp add: update_ok_def fds_fit_def)
  ultimately show ?thesis by (simp add: hs_code_def hs_fd_at_def hs_action_def)
qed

section \<open>The operations of a caller\<close>

datatype https_op =
    Op_stop_prep "curl_cb list"
  | Op_stop "curl_cb list"
  | Op_update "pollfd list option" nat "nat \<Rightarrow> curl_turn"
  | Op_req https_req_method string "string option" bool "curl_cb list" bool
  | Op_timeout int
  | Op_verbosity https_verbosity
  | Op_strat https_stop_strategy

fun https_exec :: "https_mod \<Rightarrow> https_op \<Rightarrow> https_mod outcome" where
  "https_exec m (Op_stop_prep cbs) = and_then (https_stop_prep m cbs) (\<lambda>(r, m). Inr m)"
| "https_exec m (Op_stop cbs) = and_then (https_stop m cbs) (\<lambda>(r, m). Inr m)"
| "https_exec m (Op_update fds nfds ts) = https_update m fds nfds ts"
| "https_exec m (Op_req meth url data url_ok cbs add_ok) =
     and_then (https_req_json m meth url data url_ok cbs add_ok) (\<lambda>(r, m). Inr m)"
| "https_exec m (Op_timeout t) = https_set_timeout m t"
| "https_exec m (Op_verbosity l) = https_set_verbosity m l"
| "https_exec m (Op_strat s) = Inr (https_set_stop_strat m s)"

fun https_execs :: "https_mod \<Rightarrow> https_op list \<Rightarrow> https_mod outcome" where
  "https_execs m [] = Inr m"
| "https_execs m (op # ops) = and_then (https_exec m op) (\<lambda>m. https_execs m ops)"

fun op_ok :: "int \<Rightarrow> https_op \<Rightarrow> bool" where
  "op_ok tfd (Op_stop_prep cbs) = cbs_ok tfd cbs"
| "op_ok tfd (Op_stop cbs) = cbs_ok tfd cbs"
| "op_ok tfd (Op_update fds nfds ts) = update_ok tfd fds nfds ts"
| "op_ok tfd (Op_req meth url data url_ok cbs add_ok) = cbs_ok tfd cbs"
| "op_ok tfd _ = True"

lemma https_stop_prep_inv:
  assumes "hs_inv m" "cbs_ok (hm_timerfd m) cbs"
  shows "\<exists>m'. https_stop_prep m cbs = Inr (https_stop_prep_ok, m') \<and> hs_inv m' \<and> hm_timerfd m' = hm_timerfd m \<and>
    hs_live m' = hs_live m \<and> (hm_stop_strat m = https_stop_strat_abort \<longrightarrow> hm_st m' = Hs_stopped)"
proof -
  have t: "hs_table m" using assms(1) by (simp add: hs_inv_def)
  show ?thesis
  proof (cases "hm_st m = Hs_pend")
    case True
    with assms(1) have "hs_live m" by (simp add: hs_inv_def)
    from hs_remove_ok[OF assms(2) t this] obtain m1 where m1: "hs_remove_handle m cbs = Inr (m1\<lparr>hm_added := False\<rparr>)"
      "hs_core m1 = hs_core m" "hs_table m1" by blast
    note c = hs_coreD[OF m1(2)] and l = hs_core_live[OF m1(2)]
    show ?thesis
      using True \<open>hs_live m\<close> assms(1) m1(1,3) c l
      by (cases "hm_stop_strat m") (simp_all add: https_stop_prep_def hs_set_st_def hs_inv_def)
  next
    case False
    with assms(1) show ?thesis
      by (cases "hm_stop_strat m") (auto simp: https_stop_prep_def hs_set_st_def hs_inv_def)
  qed
qed

lemma https_stop_inv:
  assumes "hs_inv m" "cbs_ok (hm_timerfd m) cbs"
  shows "hs_live m \<or> hm_st m \<noteq> Hs_stopped \<Longrightarrow> \<exists>m'. https_stop m cbs =
      Inr (if hm_st m = Hs_stopped then https_stop_ok else https_stop_fail_no_prep, m') \<and> hs_inv m' \<and> hm_timerfd m' = hm_timerfd m \<and>
      (hm_st m = Hs_stopped \<longrightarrow> hm_st m' = Hs_uninit \<and> hs_given_back m' \<and> \<not> hm_is_stop_waiting m')"
    and "hs_given_back m \<Longrightarrow> hm_st m = Hs_stopped \<Longrightarrow> https_stop m cbs = Inl Use_after_free"
proof -
  show "hs_given_back m \<Longrightarrow> hm_st m = Hs_stopped \<Longrightarrow> https_stop m cbs = Inl Use_after_free"
    by (simp add: https_stop_def hs_given_back_def)
  assume live: "hs_live m \<or> hm_st m \<noteq> Hs_stopped"
  show "\<exists>m'. https_stop m cbs =
      Inr (if hm_st m = Hs_stopped then https_stop_ok else https_stop_fail_no_prep, m') \<and> hs_inv m' \<and> hm_timerfd m' = hm_timerfd m \<and>
      (hm_st m = Hs_stopped \<longrightarrow> hm_st m' = Hs_uninit \<and> hs_given_back m' \<and> \<not> hm_is_stop_waiting m')"
  proof (cases "hm_st m = Hs_stopped")
    case True
    let ?m = "m\<lparr>hm_st := Hs_uninit\<rparr>"
    have "cbs_ok (hm_timerfd ?m) cbs" "hs_table ?m" using assms by (simp_all add: hs_inv_def)
    from hs_callbacks_table[OF this] obtain m1 where m1: "hs_callbacks ?m cbs = Inr m1" "hs_core m1 = hs_core ?m" "hs_table m1" by blast
    note c = hs_coreD[OF m1(2)]
    have "https_stop m cbs = Inr (https_stop_ok, m1\<lparr>hm_added := False, hm_curl := H_freed, hm_curlm := H_freed, hm_json_hdrs := None\<rparr>)"
      using True live m1(1) c(9) by (simp add: https_stop_def hs_live_def Let_def)
    with True m1(3) c assms(1) show ?thesis by (auto simp: hs_inv_def hs_given_back_def)
  qed (use assms(1) in \<open>simp add: https_stop_def\<close>)
qed

text \<open>An accepted request: the options set in order, then libcurl's callbacks.\<close>

definition req_opts :: "https_mod \<Rightarrow> https_req_method \<Rightarrow> string \<Rightarrow> string option \<Rightarrow> bool \<Rightarrow> https_mod" where
  "req_opts m meth url data url_ok = hs_easy_setopt (hs_easy_setopt (case meth of https_method_get \<Rightarrow> hs_easy_setopt m (Opt_httpget 1)
     | https_method_post \<Rightarrow> hs_easy_setopt m (Opt_post 1)) (Opt_url url_ok url)) (Opt_postfields data)"

lemma req_opts_simps [simp]:
  "hs_table (req_opts m meth url data url_ok) = hs_table m" "hm_timerfd (req_opts m meth url data url_ok) = hm_timerfd m"
  "hs_live (req_opts m meth url data url_ok) = hs_live m" "hm_evs (req_opts m meth url data url_ok) = hm_evs m"
  "hm_is_stop_waiting (req_opts m meth url data url_ok) = hm_is_stop_waiting m"
  "hm_curl (req_opts m meth url data url_ok) = hm_curl m" "hm_curlm (req_opts m meth url data url_ok) = hm_curlm m"
  by (simp_all add: req_opts_def hs_easy_setopt_def split: https_req_method.splits)

lemma https_req_accepted:
  assumes "hm_st m = Hs_idle" "\<not> hm_is_stop_waiting m" "hm_curl m \<noteq> H_freed" "hm_curlm m \<noteq> H_freed"
  shows "https_req_json m meth url data url_ok cbs add_ok =
    and_then (hs_callbacks (req_opts m meth url data url_ok) cbs) (\<lambda>m. Inr (https_req_ok, m\<lparr>hm_added := add_ok, hm_st := Hs_pend\<rparr>))"
  using assms by (cases meth) (simp_all add: https_req_json_def hs_setopt_def hs_easy_setopt_def req_opts_def hs_set_st_def)

lemma https_req_inv:
  assumes "hs_inv m" "cbs_ok (hm_timerfd m) cbs"
  shows "\<exists>r m'. https_req_json m meth url data url_ok cbs add_ok = Inr (r, m') \<and> hs_inv m' \<and> hm_timerfd m' = hm_timerfd m"
proof (cases "hm_st m \<noteq> Hs_idle \<or> hm_is_stop_waiting m")
  case True
  with assms(1) show ?thesis by (auto simp: https_req_json_def)
next
  case False
  with assms(1) have live: "hs_live m" by (simp add: hs_inv_def)
  let ?n = "req_opts m meth url data url_ok"
  have "cbs_ok (hm_timerfd ?n) cbs" "hs_table ?n" using assms by (simp_all add: hs_inv_def)
  from hs_callbacks_table[OF this] obtain m1 where m1: "hs_callbacks ?n cbs = Inr m1" "hs_core m1 = hs_core ?n" "hs_table m1"
    by blast
  note c = hs_coreD[OF m1(2)] and l = hs_core_live[OF m1(2)]
  have "https_req_json m meth url data url_ok cbs add_ok = Inr (https_req_ok, m1\<lparr>hm_added := add_ok, hm_st := Hs_pend\<rparr>)"
    using https_req_accepted[of m meth url data url_ok cbs add_ok] False m1(1) hs_live_handles[OF live] by simp
  with m1(3) c l live assms(1) show ?thesis by (simp add: hs_inv_def)
qed

text \<open>
  Every operation keeps the invariant; the only fault is the use of handles given back.
\<close>

lemma hs_setopt_inv:
  assumes "hs_inv m"
  shows "(\<exists>m'. hs_setopt m opt = Inr m' \<and> hs_inv m' \<and> hm_timerfd m' = hm_timerfd m) \<or>
    hs_setopt m opt = Inl Use_after_free \<and> hs_given_back m"
proof (cases "hs_live m")
  case True
  with assms hs_live_handles(1)[OF True] show ?thesis by (auto simp: hs_setopt_def hs_easy_setopt_def hs_inv_def)
next
  case False
  with assms show ?thesis by (auto simp: hs_setopt_def hs_inv_def hs_given_back_def)
qed

lemma https_exec_inv:
  assumes "hs_inv m" "op_ok (hm_timerfd m) op"
  shows "(\<exists>m'. https_exec m op = Inr m' \<and> hs_inv m' \<and> hm_timerfd m' = hm_timerfd m) \<or>
    https_exec m op = Inl Use_after_free \<and> hs_given_back m"
proof (cases op)
  case (Op_stop_prep cbs)
  with https_stop_prep_inv[OF assms(1), of cbs] assms(2) show ?thesis by auto
next
  case (Op_stop cbs)
  then have cbs: "cbs_ok (hm_timerfd m) cbs" using assms(2) by simp
  show ?thesis
  proof (cases "hs_live m \<or> hm_st m \<noteq> Hs_stopped")
    case True
    from https_stop_inv(1)[OF assms(1) cbs this] Op_stop show ?thesis by auto
  next
    case False
    then have "hs_given_back m" using assms(1) by (simp add: hs_inv_def)
    with https_stop_inv(2)[OF assms(1) cbs] False Op_stop show ?thesis by simp
  qed
next
  case (Op_update fds nfds ts)
  with https_update_inv[OF assms(1), of fds nfds ts] assms(2) show ?thesis by simp
next
  case (Op_req meth url data url_ok cbs add_ok)
  with https_req_inv[OF assms(1), of cbs meth url data url_ok add_ok] assms(2) show ?thesis by auto
next
  case (Op_timeout t)
  with hs_setopt_inv[OF assms(1), of "Opt_timeout t"] show ?thesis by (simp add: https_set_timeout_def)
next
  case (Op_verbosity l)
  with hs_setopt_inv[OF assms(1)] show ?thesis by (cases l) (simp_all add: https_set_verbosity_def)
next
  case (Op_strat s)
  with assms(1) show ?thesis by (simp add: https_set_stop_strat_def hs_inv_def)
qed

interpretation https_sys: step_invariant "\<lambda>op m. https_exec m op" "\<lambda>op m. op_ok (hm_timerfd m) op" hs_inv "{Use_after_free}"
  by unfold_locales (use https_exec_inv in \<open>force simp: allows_def\<close>)

text \<open>The states a caller can bring the module to, from a successful init on.\<close>

inductive https_reach :: "https_mod \<Rightarrow> bool" where
  https_start: "length (hm_fds m0) = fds_maxlen \<Longrightarrow> https_init m0 env cb = (https_init_ok, m) \<Longrightarrow> https_reach m"
| https_step: "https_reach m \<Longrightarrow> op_ok (hm_timerfd m) op \<Longrightarrow> https_exec m op = Inr m' \<Longrightarrow> https_reach m'"

inductive_cases https_reach_cases: "https_reach m"

lemma https_init_inv:
  assumes "length (hm_fds m0) = fds_maxlen" "https_init m0 env cb = (https_init_ok, m)"
  shows "hs_inv m"
  using assms
  by (auto simp: https_init_def Let_def hs_easy_setopt_def hs_inv_def hs_table_def hs_used_def hs_live_def split: if_splits)

lemma https_reach_inv: "https_reach m \<Longrightarrow> hs_inv m"
proof (induction rule: https_reach.induct)
  case (https_start m0 env cb m)
  then show ?case by (rule https_init_inv)
next
  case (https_step m op m')
  then show ?case using https_sys.step_keeps[OF https_step.IH https_step.hyps(2)] by simp
qed

section \<open>Properties\<close>

text \<open>A module and answers of the system to run the examples on.\<close>

definition hs_zero :: https_mod where
  "hs_zero = \<lparr>hm_st = Hs_uninit, hm_stop_strat = https_stop_strat_abort, hm_is_stop_waiting = False, hm_curl_err = CURLE_OK,
     hm_curlm_err = CURLM_OK, hm_evs = [], hm_data_cb = False, hm_resp_status = 0,
     hm_fds = replicate 24 \<lparr>pfd_fd = 0, pfd_events = 0, pfd_revents = 0\<rparr>, hm_fds_len = 0, hm_timerfd = 0,
     hm_curl = H_null, hm_curlm = H_null, hm_json_hdrs = Some [], hm_set = curl_set_default, hm_added = False,
     hm_timer = (0, 0), hm_received = []\<rparr>"

definition hs_all_ok :: init_env where
  "hs_all_ok = \<lparr>ie_easy = True, ie_multi = True, ie_hdr1 = (True, True), ie_hdr2 = (True, True), ie_timerfd = 9\<rparr>"

definition hs_quiet_turn :: curl_turn where
  "hs_quiet_turn = \<lparr>ct_action = (\<lambda>fd ev. ([], CURLM_OK)), ct_msgs = [], ct_status = 0, ct_remove = []\<rparr>"

text \<open>
  C8: In every state a caller can reach, no operation of the HTTPS module panics or reads
  outside its arrays, and the invariant holds: the descriptor table has no duplicates and
  fits its array, the events fit theirs, a stop is waited for only while a request is
  pending or after it failed, and the handles of libcurl are live or were all given back by
  \<^verbatim>\<open>https_stop\<close>. The only fault is that handles already given back are used again, so there
  is none while they are live. Asked of libcurl: no callback takes the timer for a socket, and
  at most ten messages come in one update (it sends one per request).
\<close>

theorem https_reach_safe:
  assumes "https_reach m" "op_ok (hm_timerfd m) op"
  shows "hs_inv m \<and> (case https_exec m op of Inr m' \<Rightarrow> https_reach m' \<and> hs_inv m' | Inl f \<Rightarrow> f = Use_after_free \<and> hs_given_back m)"
proof -
  have inv: "hs_inv m" using https_reach_inv[OF assms(1)] .
  from https_exec_inv[OF this assms(2)] consider m' where "https_exec m op = Inr m'" "hs_inv m'"
    | "https_exec m op = Inl Use_after_free" "hs_given_back m" by blast
  then show ?thesis using https_step[OF assms] inv by cases simp_all
qed

theorem https_reach_safe_witness:
  "hs_live (snd (https_init hs_zero hs_all_ok True)) \<and>
   (\<exists>m'. https_exec (snd (https_init hs_zero hs_all_ok True)) (Op_timeout 30) = Inr m' \<and> https_reach m' \<and> hs_inv m')"
proof -
  let ?m = "snd (https_init hs_zero hs_all_ok True)"
  have "length (hm_fds hs_zero) = fds_maxlen" by code_simp
  moreover have "https_init hs_zero hs_all_ok True = (https_init_ok, ?m)" by code_simp
  ultimately have "https_reach ?m" by (rule https_start)
  moreover have live: "hs_live ?m" by code_simp
  ultimately show ?thesis using https_reach_safe[of ?m "Op_timeout 30"] by (auto simp: hs_live_def hs_given_back_def split: sum.splits)
qed

text \<open>Two states of a run: initialised, and with a request pending, one socket and the timer watched.\<close>

definition hs_idle :: https_mod where
  "hs_idle = hs_zero\<lparr>hm_st := Hs_idle, hm_stop_strat := https_stop_strat_wait, hm_evs := [https_ev_init], hm_data_cb := True,
     hm_timerfd := 9, hm_curl := H_live, hm_curlm := H_live,
     hm_json_hdrs := Some [''Content-Type: application/json'', ''Accept: application/json''],
     hm_set := curl_set_default\<lparr>set_headers := [''Content-Type: application/json'', ''Accept: application/json'']\<rparr>\<rparr>"

definition hs_ready :: https_mod where
  "hs_ready = hs_idle\<lparr>hm_st := Hs_pend, hm_added := True, hm_timer := (0, 1), hm_fds_len := 2,
     hm_fds := [\<lparr>pfd_fd = 9, pfd_events = POLLIN, pfd_revents = 0\<rparr>, \<lparr>pfd_fd = 5, pfd_events = POLLIN, pfd_revents = 0\<rparr>] @
       replicate 22 \<lparr>pfd_fd = 0, pfd_events = 0, pfd_revents = 0\<rparr>,
     hm_set := (hm_set hs_idle)\<lparr>set_method := HTTPREQ_POST, set_url := Some ''u'', set_postfields := Some ''d''\<rparr>\<rparr>"

lemmas hs_run = hs_zero_def hs_all_ok_def Let_def hs_easy_setopt_def curl_set_default_def hs_set_st_def hs_idle_def hs_ready_def
  hs_must_add_ev_def hs_add_ev_def evs_maxlen_def fds_maxlen_def https_req_json_def curl_setstropt_def curl_max_input_length_def
  hs_timer_cb_def hs_sock_cb_def hs_set_fd_def hs_find_fd_def hs_add_fd_def hs_timer_value_def hs_poll_events_def
  https_init_def curl_slist_append_def slist_append_nodup_def https_update_def hs_setopt_def

lemma replicate_24: "replicate 24 z = z # z # replicate 22 z"
  by (simp add: numeral_eq_Suc)

lemma hs_idle_run:
  "https_execs (snd (https_init hs_zero hs_all_ok True)) [Op_update None 0 (\<lambda>_. hs_quiet_turn)] = Inr hs_idle"
  by (simp add: hs_run)

lemma hs_ready_req:
  "https_req_json hs_idle https_method_get ''u'' (Some ''d'') True [Cb_timer 0 True, Cb_sock 5 1] True = Inr (https_req_ok, hs_ready)"
  by (simp add: hs_run replicate_24)

lemma hs_ready_inv: "hs_inv hs_ready" "hm_st hs_ready = Hs_pend" "hm_timerfd hs_ready = 9" "hs_inv hs_idle"
  by (simp_all add: hs_inv_def hs_table_def hs_used_def hs_live_def hs_run)

lemma hs_quiet_ok: "update_ok tfd fds n (\<lambda>_. hs_quiet_turn) \<longleftrightarrow> fds_fit fds n"
  by (simp add: update_ok_def turn_ok_def hs_quiet_turn_def cbs_ok_def msgs_total_def)

text \<open>
  C18: While a request is pending, what libcurl says decides what an update does. Take the
  first round of the loop in which libcurl's call fails or its messages contain a success.
  If the call was fine there, the request has finished: the module is idle again with the
  status of that round's response, \<^verbatim>\<open>https_ev_req_fin\<close> is reported last, or, when a stop was
  waited for, the module is stopped and \<^verbatim>\<open>https_ev_stopped\<close> follows. If the call failed, the
  module is in its error state. If there is no such round, the module is in its error state
  exactly when some message was a failure, and otherwise the request is still pending and
  nothing is reported. In the error state only failures are reported, and a stop that was
  waited for is still waited for.
\<close>

theorem https_update_outcome:
  assumes "hs_inv m" "hm_st m = Hs_pend" "update_ok (hm_timerfd m) fds nfds ts"
  shows "\<exists>m'. https_update m fds nfds ts = Inr m' \<and> hs_inv m' \<and>
    (let code = update_code m fds ts; w = hm_is_stop_waiting m;
         failed = (hm_st m' = Hs_err \<and> hm_is_stop_waiting m' = w \<and> https_events m' \<noteq> [] \<and> set (https_events m') \<subseteq> {https_ev_req_fail})
     in case find (\<lambda>k. code k \<noteq> CURLM_OK \<or> Msg_done CURLE_OK \<in> set (ct_msgs (ts k))) [0 ..< nfds] of
          Some k \<Rightarrow>
            if code k = CURLM_OK then
              hm_st m' = (if w then Hs_stopped else Hs_idle) \<and> \<not> hm_is_stop_waiting m' \<and> https_resp_status m' = ct_status (ts k) \<and>
              (\<exists>es. set es \<subseteq> {https_ev_req_fail} \<and>
                https_events m' = es @ (if w then [https_ev_req_fin, https_ev_stopped] else [https_ev_req_fin]))
            else failed
        | None \<Rightarrow>
            if \<exists>k < nfds. \<exists>r. r \<noteq> CURLE_OK \<and> Msg_done r \<in> set (ct_msgs (ts k)) then failed
            else hm_st m' = Hs_pend \<and> hm_is_stop_waiting m' = w \<and> https_events m' = [])"
proof -
  obtain m' where m': "https_update m fds nfds ts = Inr m'" "length (hm_evs m') \<le> 11"
    "loop_ends (hm_is_stop_waiting m) False (update_code m fds ts) ts 0 nfds m'"
    using https_update_pend[OF assms] by blast
  have run: "hs_running w m' \<Longrightarrow> hm_st m' = Hs_err \<Longrightarrow> hm_is_stop_waiting m' = w \<and> hm_evs m' \<noteq> [] \<and> set (hm_evs m') \<subseteq> {https_ev_req_fail}"
    "hs_running w m' \<Longrightarrow> hm_st m' \<noteq> Hs_err \<Longrightarrow> hm_st m' = Hs_pend \<and> hm_is_stop_waiting m' = w \<and> hm_evs m' = []" for w
    by (auto simp: hs_running_def)
  have first: "last_turn (update_code m fds ts) ts 0 nfds =
      find (\<lambda>k. update_code m fds ts k \<noteq> CURLM_OK \<or> Msg_done CURLE_OK \<in> set (ct_msgs (ts k))) [0 ..< nfds]"
    by (simp add: last_turn_find turn_last_def msgs_success_def)
  have fails: "list_ex (\<lambda>k. msgs_failure (ct_msgs (ts k))) [0 ..< nfds] \<longleftrightarrow>
      (\<exists>k < nfds. \<exists>r. r \<noteq> CURLE_OK \<and> Msg_done r \<in> set (ct_msgs (ts k)))"
    by (force simp: list_ex_iff msgs_failure_iff)
  note out = m'(3)[unfolded loop_ends_def first add_0 fails] and r = run[of "hm_is_stop_waiting m"]
  show ?thesis unfolding Let_def https_events_def https_resp_status_def
  proof (intro exI[of _ m'] conjI)
    show "case find (\<lambda>k. update_code m fds ts k \<noteq> CURLM_OK \<or> Msg_done CURLE_OK \<in> set (ct_msgs (ts k))) [0 ..< nfds] of
        Some k \<Rightarrow> if update_code m fds ts k = CURLM_OK then
              hm_st m' = (if hm_is_stop_waiting m then Hs_stopped else Hs_idle) \<and> \<not> hm_is_stop_waiting m' \<and> hm_resp_status m' = ct_status (ts k) \<and>
              (\<exists>es. set es \<subseteq> {https_ev_req_fail} \<and>
                hm_evs m' = es @ (if hm_is_stop_waiting m then [https_ev_req_fin, https_ev_stopped] else [https_ev_req_fin]))
            else hm_st m' = Hs_err \<and> hm_is_stop_waiting m' = hm_is_stop_waiting m \<and> hm_evs m' \<noteq> [] \<and> set (hm_evs m') \<subseteq> {https_ev_req_fail}
      | None \<Rightarrow> if \<exists>k < nfds. \<exists>r. r \<noteq> CURLE_OK \<and> Msg_done r \<in> set (ct_msgs (ts k))
            then hm_st m' = Hs_err \<and> hm_is_stop_waiting m' = hm_is_stop_waiting m \<and> hm_evs m' \<noteq> [] \<and> set (hm_evs m') \<subseteq> {https_ev_req_fail}
            else hm_st m' = Hs_pend \<and> hm_is_stop_waiting m' = hm_is_stop_waiting m \<and> hm_evs m' = []"
    proof (cases "find (\<lambda>k. update_code m fds ts k \<noteq> CURLM_OK \<or> Msg_done CURLE_OK \<in> set (ct_msgs (ts k))) [0 ..< nfds]")
      case None
      with out r show ?thesis by (cases "hm_st m' = Hs_err") auto
    next
      case (Some k)
      with out r show ?thesis by (cases "update_code m fds ts k = CURLM_OK") (simp_all add: hs_finished_def)
    qed
  qed (use m'(1) loop_ends_inv[OF m'(3,2)] in simp_all)
qed

definition hs_done_turn :: curl_turn where
  "hs_done_turn = hs_quiet_turn\<lparr>ct_msgs := [Msg_done CURLE_OK], ct_status := 200\<rparr>"

theorem https_update_outcome_witness:
  "\<exists>m'. https_update hs_ready None 2 (\<lambda>k. if k = 1 then hs_done_turn else hs_quiet_turn) = Inr m' \<and> hs_inv m' \<and>
     hm_st m' = Hs_idle \<and> https_resp_status m' = 200 \<and> (\<exists>es. set es \<subseteq> {https_ev_req_fail} \<and> https_events m' = es @ [https_ev_req_fin])"
proof -
  let ?ts = "\<lambda>k::nat. if k = 1 then hs_done_turn else hs_quiet_turn"
  have "update_ok (hm_timerfd hs_ready) None 2 ?ts"
    by (simp add: update_ok_def turn_ok_def hs_done_turn_def hs_quiet_turn_def cbs_ok_def msgs_total_def fds_fit_def fds_maxlen_def numeral_2_eq_2)
  moreover have "update_code hs_ready None ?ts k = CURLM_OK" for k
    by (simp add: hs_code_def hs_action_def hs_done_turn_def hs_quiet_turn_def and_then_def split: sum.splits)
  moreover have "\<not> hm_is_stop_waiting hs_ready" by (simp add: hs_run)
  ultimately show ?thesis
    using https_update_outcome[OF hs_ready_inv(1,2), of None 2 ?ts]
    by (simp add: hs_done_turn_def hs_quiet_turn_def upt_rec numeral_2_eq_2 Let_def) blast
qed

text \<open>
  C33: A stop that is not made to wait succeeds, once. With the strategy to abort, in any state,
  and with the strategy to wait, when no request is pending and none is waited for,
  \<^verbatim>\<open>https_stop_prep\<close> succeeds, the next update reports \<^verbatim>\<open>https_ev_stopped\<close> and nothing else, and
  \<^verbatim>\<open>https_stop\<close> then gives both handles and the headers back. But the module can be stopped
  again: \<^verbatim>\<open>https_stop_prep\<close> accepts the stopped module, and the next \<^verbatim>\<open>https_stop\<close> gives back the
  same handles a second time.
\<close>

theorem https_stop_succeeds:
  assumes "hs_inv m" "hs_live m" "cbs_ok (hm_timerfd m) cbs" "cbs_ok (hm_timerfd m) cbs'"
    and "hm_stop_strat m = https_stop_strat_abort \<or> hm_st m \<noteq> Hs_pend \<and> \<not> hm_is_stop_waiting m"
  shows "\<exists>m1 m2 m3. https_stop_prep m cbs = Inr (https_stop_prep_ok, m1) \<and> https_update m1 fds nfds ts = Inr m2 \<and>
    https_events m2 = [https_ev_stopped] \<and> https_stop m2 cbs' = Inr (https_stop_ok, m3) \<and> hm_st m3 = Hs_uninit \<and>
    hm_curl m3 = H_freed \<and> hm_curlm m3 = H_freed \<and> hm_json_hdrs m3 = None \<and>
    (\<forall>xs ys. \<exists>m4. https_stop_prep m3 xs = Inr (https_stop_prep_ok, m4) \<and> https_stop m4 ys = Inl Use_after_free)"
proof -
  obtain m1 where m1: "https_stop_prep m cbs = Inr (https_stop_prep_ok, m1)" "hs_inv m1" "hm_timerfd m1 = hm_timerfd m" "hs_live m1"
    "hm_stop_strat m = https_stop_strat_abort \<longrightarrow> hm_st m1 = Hs_stopped"
    using https_stop_prep_inv[OF assms(1,3)] assms(2) by blast
  have "hm_st m1 = Hs_stopped"
  proof (cases "hm_stop_strat m")
    case https_stop_strat_wait
    with assms(5) m1(1) show ?thesis by (auto simp: https_stop_prep_def hs_set_st_def)
  qed (use m1(5) in simp)
  let ?m2 = "m1\<lparr>hm_evs := [https_ev_stopped]\<rparr>"
  have m2: "https_update m1 fds nfds ts = Inr ?m2" "hm_st ?m2 = Hs_stopped"
    using \<open>hm_st m1 = Hs_stopped\<close> by (simp_all add: https_update_def hs_must_add_ev_ok evs_maxlen_def)
  have "hs_inv ?m2" "cbs_ok (hm_timerfd ?m2) cbs'" "hs_live ?m2 \<or> hm_st ?m2 \<noteq> Hs_stopped"
    using m1(2-4) assms(4) by (simp_all add: hs_inv_def evs_maxlen_def)
  from https_stop_inv(1)[OF this] m2(2) obtain m3 where m3: "https_stop ?m2 cbs' = Inr (https_stop_ok, m3)"
    "hm_st m3 = Hs_uninit" "hs_given_back m3" "\<not> hm_is_stop_waiting m3" by auto
  have "\<exists>m4. https_stop_prep m3 xs = Inr (https_stop_prep_ok, m4) \<and> https_stop m4 ys = Inl Use_after_free" for xs ys
    using m3(2-4) by (cases "hm_stop_strat m3") (simp_all add: https_stop_prep_def hs_set_st_def https_stop_def hs_given_back_def)
  then show ?thesis using m1(1) m2(1) m3 by (auto simp: https_events_def hs_given_back_def)
qed

theorem https_stop_succeeds_witness:
  "\<exists>m1 m2 m3. https_stop_prep (https_set_stop_strat hs_ready https_stop_strat_abort) [Cb_sock 5 4, Cb_timer (-1) True] =
      Inr (https_stop_prep_ok, m1) \<and> https_update m1 None 0 (\<lambda>_. hs_quiet_turn) = Inr m2 \<and>
    https_events m2 = [https_ev_stopped] \<and> https_stop m2 [] = Inr (https_stop_ok, m3) \<and> hm_st m3 = Hs_uninit \<and>
    hm_curl m3 = H_freed \<and> hm_curlm m3 = H_freed \<and> hm_json_hdrs m3 = None \<and>
    (\<forall>xs ys. \<exists>m4. https_stop_prep m3 xs = Inr (https_stop_prep_ok, m4) \<and> https_stop m4 ys = Inl Use_after_free)"
proof (rule https_stop_succeeds)
  show "hs_inv (https_set_stop_strat hs_ready https_stop_strat_abort)"
    using hs_ready_inv(1) by (simp add: https_set_stop_strat_def hs_inv_def)
  show "hs_live (https_set_stop_strat hs_ready https_stop_strat_abort)" by (simp add: https_set_stop_strat_def hs_live_def hs_run)
qed (simp_all add: https_set_stop_strat_def cbs_ok_def hs_ready_inv(3))

lemma hs_stuck_step:
  assumes "hm_st m = Hs_err" "hm_is_stop_waiting m" "hm_stop_strat m = https_stop_strat_wait" "op \<noteq> Op_strat https_stop_strat_abort"
    "https_ev_stopped \<notin> set (hm_evs m)" "hm_curl m \<noteq> H_freed"
  shows "\<exists>m'. https_exec m op = Inr m' \<and> hm_st m' = Hs_err \<and> hm_is_stop_waiting m' \<and> hm_stop_strat m' = https_stop_strat_wait \<and>
    https_ev_stopped \<notin> set (hm_evs m') \<and> hm_curl m' \<noteq> H_freed"
proof (cases op)
  case (Op_strat s)
  with assms show ?thesis by (cases s) (simp_all add: https_set_stop_strat_def)
qed (use assms in \<open>auto simp: https_stop_prep_def https_stop_def https_update_def https_req_json_def https_set_timeout_def
      https_set_verbosity_def hs_setopt_def hs_easy_setopt_def split: https_verbosity.splits\<close>)

text \<open>
  C34: When a request fails while a stop waits for it, the module never stops: whatever the
  caller does afterwards, short of switching the strategy to abort, it stays in its error
  state, never reports \<^verbatim>\<open>https_ev_stopped\<close>, and \<^verbatim>\<open>https_stop\<close> refuses.
\<close>

theorem https_stop_wait_stuck:
  assumes "hm_st m = Hs_err" "hm_is_stop_waiting m" "hm_stop_strat m = https_stop_strat_wait" "hm_curl m \<noteq> H_freed"
    and "https_ev_stopped \<notin> set (hm_evs m)" "Op_strat https_stop_strat_abort \<notin> set ops"
  shows "\<exists>m'. https_execs m ops = Inr m' \<and> hm_st m' = Hs_err \<and> https_ev_stopped \<notin> set (https_events m') \<and>
    https_stop m' cbs = Inr (https_stop_fail_no_prep, m')"
  using assms
proof (induction ops arbitrary: m)
  case Nil
  then show ?case by (simp add: https_stop_def https_events_def)
next
  case (Cons op ops)
  have "op \<noteq> Op_strat https_stop_strat_abort" using Cons.prems(6) by auto
  from hs_stuck_step[OF Cons.prems(1-3) this Cons.prems(5,4)] obtain m1 where "https_exec m op = Inr m1"
    "hm_st m1 = Hs_err" "hm_is_stop_waiting m1" "hm_stop_strat m1 = https_stop_strat_wait" "https_ev_stopped \<notin> set (hm_evs m1)"
    "hm_curl m1 \<noteq> H_freed" by blast
  with Cons.IH[of m1] Cons.prems(6) show ?case by simp
qed

definition hs_fail_turn :: curl_turn where
  "hs_fail_turn = hs_quiet_turn\<lparr>ct_msgs := [Msg_done (CURLE_other 28)]\<rparr>"

lemma hs_stuck_run:
  "https_execs hs_ready [Op_stop_prep [], Op_update None 1 (\<lambda>_. hs_fail_turn)] =
   Inr (hs_ready\<lparr>hm_st := Hs_err, hm_is_stop_waiting := True, hm_curl_err := CURLE_other 28, hm_evs := [https_ev_req_fail]\<rparr>)"
  by (simp add: hs_run https_stop_prep_def hs_fd_at_def hs_turn_def hs_action_def hs_fail_turn_def hs_quiet_turn_def hs_req_fail_def)

theorem https_stop_wait_stuck_witness:
  "\<exists>m m'. https_execs hs_ready [Op_stop_prep [], Op_update None 1 (\<lambda>_. hs_fail_turn)] = Inr m \<and>
    https_execs m [Op_stop_prep [], Op_update None 1 (\<lambda>_. hs_fail_turn), Op_stop []] = Inr m' \<and>
    hm_st m' = Hs_err \<and> https_ev_stopped \<notin> set (https_events m') \<and> https_stop m' [] = Inr (https_stop_fail_no_prep, m')"
proof -
  let ?m = "hs_ready\<lparr>hm_st := Hs_err, hm_is_stop_waiting := True, hm_curl_err := CURLE_other 28, hm_evs := [https_ev_req_fail]\<rparr>"
  have "hm_stop_strat ?m = https_stop_strat_wait" "hm_curl ?m \<noteq> H_freed" by (simp_all add: hs_run)
  with https_stop_wait_stuck[of ?m "[Op_stop_prep [], Op_update None 1 (\<lambda>_. hs_fail_turn), Op_stop []]" "[]"] hs_stuck_run
  show ?thesis by auto
qed

text \<open>
  C38: A GET request is sent as a POST: libcurl's \<^verbatim>\<open>CURLOPT_POSTFIELDS\<close>, set after the method,
  sets the method to POST. Otherwise the handle has what the caller gave: the URL when
  libcurl could copy it, the data, and the headers and the timeout set before.
\<close>

theorem https_req_method_lost:
  assumes "https_req_json m meth url data url_ok cbs add_ok = Inr (https_req_ok, m')" "hs_table m" "cbs_ok (hm_timerfd m) cbs"
  shows "set_method (hm_set m') = HTTPREQ_POST \<and> set_postfields (hm_set m') = data \<and>
    set_headers (hm_set m') = set_headers (hm_set m) \<and> set_timeout (hm_set m') = set_timeout (hm_set m) \<and>
    set_url (hm_set m') = (if url_ok \<and> length url \<le> 8000000 then Some url else None) \<and> hm_st m' = Hs_pend"
proof -
  let ?n = "req_opts m meth url data url_ok"
  have acc: "hm_st m = Hs_idle" "\<not> hm_is_stop_waiting m" "hm_curl m \<noteq> H_freed" "hm_curlm m \<noteq> H_freed"
    using assms(1) by (auto simp: https_req_json_def hs_setopt_def hs_easy_setopt_def split: if_splits https_req_method.splits)
  obtain m1 where m1: "hs_callbacks ?n cbs = Inr m1" "hs_core m1 = hs_core ?n" using hs_callbacks_table[of ?n cbs] assms(2,3) by auto
  have "m' = m1\<lparr>hm_added := add_ok, hm_st := Hs_pend\<rparr>"
    using assms(1) m1(1) https_req_accepted[OF acc, of meth url data url_ok cbs add_ok] by simp
  moreover have "set_method (hm_set ?n) = HTTPREQ_POST" "set_postfields (hm_set ?n) = data" "set_headers (hm_set ?n) = set_headers (hm_set m)"
    "set_timeout (hm_set ?n) = set_timeout (hm_set m)" "set_url (hm_set ?n) = (if url_ok \<and> length url \<le> 8000000 then Some url else None)"
    by (auto simp: req_opts_def hs_easy_setopt_def curl_setstropt_def curl_max_input_length_def Let_def split: https_req_method.splits)
  ultimately show ?thesis using hs_coreD(10)[OF m1(2)] by simp
qed

theorem https_req_method_lost_witness:
  "set_method (hm_set hs_ready) = HTTPREQ_POST \<and> set_postfields (hm_set hs_ready) = Some ''d'' \<and>
    set_headers (hm_set hs_ready) = set_headers (hm_set hs_idle) \<and> set_timeout (hm_set hs_ready) = set_timeout (hm_set hs_idle) \<and>
    set_url (hm_set hs_ready) = (if True \<and> length ''u'' \<le> 8000000 then Some ''u'' else None) \<and> hm_st hs_ready = Hs_pend"
  by (rule https_req_method_lost[OF hs_ready_req])
    (use hs_ready_inv(4) in \<open>simp_all add: hs_inv_def cbs_ok_def, simp add: hs_run\<close>)

text \<open>
  C19: The descriptors the caller is told to poll are exactly those libcurl asked for: as long
  as they fit the array, the table handed out after any sequence of callbacks while a request
  is pending is the map that the requests to watch and to forget describe, the timer
  included.
\<close>

theorem https_watches_exact:
  assumes "hs_inv m" "hm_st m = Hs_pend" "cbs_ok (hm_timerfd m) cbs"
    and "card (dom (hs_watched m) \<union> fst ` set (concat (map (cb_watch (hm_timerfd m)) cbs))) \<le> 24"
  shows "\<exists>m'. hs_callbacks m cbs = Inr m' \<and>
    map_of (map pfd_pair (take (snd (https_pollfds m')) (fst (https_pollfds m')))) =
      foldl (\<lambda>w (fd, e). w(fd := e)) (hs_watched m) (concat (map (cb_watch (hm_timerfd m)) cbs))"
proof -
  let ?ops = "concat (map (cb_watch (hm_timerfd m)) cbs)"
  have t: "hs_table m" using assms(1) by (simp add: hs_inv_def)
  obtain m' where m': "hs_callbacks m cbs = Inr m'" "hs_core m' = hs_core m" "hs_tabs m' = hs_tabs (hs_watch_all m ?ops)"
    using hs_callbacks_ok[OF assms(3)] by blast
  have "hs_watched m' = foldl (\<lambda>w (fd, e). w(fd := e)) (hs_watched m) ?ops"
    using hs_tabs_determine(2)[OF m'(3)] hs_tab.watch_all_map[OF t, of ?ops] assms(4) by (simp add: fds_maxlen_def)
  moreover have "hs_watched m' = map_of (map pfd_pair (take (snd (https_pollfds m')) (fst (https_pollfds m'))))"
    using hs_coreD(1)[OF m'(2)] assms(2) by (simp add: https_pollfds_def hs_watched_def hs_used_def)
  ultimately show ?thesis using m'(1) by auto
qed

theorem https_watches_exact_witness:
  "\<exists>m'. hs_callbacks hs_ready [Cb_sock 6 2, Cb_sock 5 4] = Inr m' \<and>
    map_of (map pfd_pair (take (snd (https_pollfds m')) (fst (https_pollfds m')))) =
      foldl (\<lambda>w (fd, e). w(fd := e)) (hs_watched hs_ready) (concat (map (cb_watch (hm_timerfd hs_ready)) [Cb_sock 6 2, Cb_sock 5 4]))"
proof (rule https_watches_exact[OF hs_ready_inv(1,2)])
  have "dom (hs_watched hs_ready) = {5, 9}" by (auto simp: hs_watched_def hs_used_def hs_run split: if_splits)
  then show "card (dom (hs_watched hs_ready) \<union> fst ` set (concat (map (cb_watch (hm_timerfd hs_ready)) [Cb_sock 6 2, Cb_sock 5 4]))) \<le> 24"
    by simp
qed (simp add: cbs_ok_def hs_ready_inv(3))

text \<open>
  The timer is set to exactly the milliseconds libcurl asked for; a timeout of 0 becomes
  one nanosecond, since zero would disarm the timer; the timer is disarmed only for a negative
  timeout. The nanoseconds are always in the range the system accepts.
\<close>

theorem https_timer_exact:
  "case hs_timer_value ms of (s, ns) \<Rightarrow>
     0 \<le> s \<and> 0 \<le> ns \<and> ns < 1000000000 \<and> ((s, ns) = (0, 0) \<longleftrightarrow> ms < 0) \<and>
     s * 1000000000 + ns = (if ms > 0 then ms * 1000000 else if ms = 0 then 1 else 0)"
proof (cases "ms > 0")
  case True
  define q r where "q = ms div 1000" and "r = ms mod 1000"
  have "ms = q * 1000 + r" "0 \<le> r" "r < 1000" "0 \<le> q"
    using True by (auto simp: q_def r_def pos_imp_zdiv_nonneg_iff)
  with True show ?thesis unfolding hs_timer_value_def q_def[symmetric] r_def[symmetric] by simp
qed (simp add: hs_timer_value_def)

text \<open>
  The events of a socket are handed to libcurl wrong: a socket that is only readable is
  reported as readable, writable and in error, one that is only writable as in error as
  well, and one for which two events came at once, say readable and writable, or readable
  and hung up, as having none.
\<close>

theorem https_events_misreported:
  "hs_cselect POLLIN = 7 \<and> hs_cselect POLLOUT = 6 \<and> hs_cselect (POLLIN + POLLOUT) = 0 \<and> hs_cselect (POLLIN + POLLHUP) = 0"
  by (simp add: hs_cselect_def)

definition hs_three :: https_mod where
  "hs_three = hs_ready\<lparr>hm_fds_len := 3,
     hm_fds := map (\<lambda>fd. \<lparr>pfd_fd = fd, pfd_events = POLLIN, pfd_revents = POLLIN\<rparr>) [5, 6, 7] @
       replicate 21 \<lparr>pfd_fd = 0, pfd_events = 0, pfd_revents = 0\<rparr>\<rparr>"

definition hs_serving_turn :: curl_turn where
  "hs_serving_turn = hs_quiet_turn\<lparr>ct_action := (\<lambda>fd ev.
     ((if fd = Some 5 then [Cb_sock 5 4] else []) @ [Cb_write (fmt_int (the fd))], CURLM_OK))\<rparr>"

text \<open>
  When the array handed out by \<^verbatim>\<open>https_pollfds\<close> is passed back to \<^verbatim>\<open>https_update\<close>, as the
  demo does, and libcurl forgets the first of three ready sockets while it is served, the
  second is never served and the third is served twice; with a copy of the array each is
  served once.
\<close>

theorem https_update_aliased:
  "and_then (https_update hs_three None 3 (\<lambda>_. hs_serving_turn)) (\<lambda>m. Inr (hm_received m)) = Inr [''5'', ''7'', ''7''] \<and>
   and_then (https_update hs_three (Some (hm_fds hs_three)) 3 (\<lambda>_. hs_serving_turn)) (\<lambda>m. Inr (hm_received m)) = Inr [''5'', ''6'', ''7'']"
  by (simp add: hs_three_def hs_serving_turn_def hs_run hs_quiet_turn_def hs_fd_at_def hs_turn_def hs_action_def hs_del_fd_def
      hs_write_cb_def fmt_int_def nat_digits.simps digit_char_def numeral_3_eq_3)

text \<open>
  \<^verbatim>\<open>https_init\<close> enters its state before it can fail: after any failure the next update
  reports \<^verbatim>\<open>https_ev_init\<close>, as after a success.
\<close>

theorem https_init_failure_reports_init:
  "case https_init m env cb of (r, m1) \<Rightarrow>
     \<exists>m2. https_update m1 fds nfds ts = Inr m2 \<and> https_events m2 = [https_ev_init] \<and> hm_st m2 = Hs_idle"
  by (auto simp: https_init_def https_update_def hs_must_add_ev_ok evs_maxlen_def https_events_def hs_set_st_def
      hs_easy_setopt_def Let_def split: if_splits)

text \<open>
  What \<^verbatim>\<open>https_init\<close> leaves behind. A success means live handles and at least one header,
  but not both: when the first header could not be added and the second could, requests go
  out without their content type. A failure to create the timer keeps both handles and the
  headers, which nothing gives back.
\<close>

theorem https_init_leftovers:
  "case https_init m env cb of (r, m1) \<Rightarrow>
     (r = https_init_ok \<longleftrightarrow> ie_easy env \<and> ie_multi env \<and> fst (ie_hdr2 env) \<and> snd (ie_hdr2 env) \<and> ie_timerfd env \<noteq> -1) \<and>
     (r \<in> {https_init_ok, https_init_fail_timerfd} \<longleftrightarrow> hm_curl m1 = H_live) \<and>
     (if r = https_init_ok then set_headers (hm_set m1) =
        (if fst (ie_hdr1 env) \<and> snd (ie_hdr1 env) then [''Content-Type: application/json'', ''Accept: application/json'']
         else [''Accept: application/json'']) else True)"
  by (auto simp: https_init_def hs_easy_setopt_def curl_slist_append_def slist_append_nodup_def Let_def split: if_splits)

end
