(* ===== verification/Afs_Child.thy ===== *)
theory Afs_Child
  imports Prelude
begin

text \<open>
  The worker process of the asynchronous file module (\<^verbatim>\<open>src/src/afs.c\<close>): the memory it
  shares with its parent, the file operations it performs there, and its loop, one step of
  which is \<open>proc_child_worker\<close>. What each system call returns is an argument; the calls made,
  with the data they carried, are returned as a list.
\<close>

section \<open>Types\<close>

text \<open>
  Of \<^verbatim>\<open>struct sob_fail\<close> the message is kept; the file, the line and \<^verbatim>\<open>errno\<close> are for the reader
  of the log.
\<close>

type_synonym sob_fail = string

datatype proc_cmd = Cmd_none | Cmd_exit | Cmd_open | Cmd_close | Cmd_fsync | Cmd_write | Cmd_readall | Cmd_mkdir
  | Cmd_write_fsync_close

datatype proc_res = Res_none | Res_ok | Res_fail

datatype proc_child_st = Child_not_started | Child_idle | Child_busy

record proc_shared =
  sh_cmd :: proc_cmd
  sh_write_len :: nat
  sh_open_flags :: int
  sh_res :: proc_res
  sh_st :: proc_child_st
  sh_written :: nat
  sh_read_len :: nat
  sh_fail :: sob_fail

text \<open>The system calls on files, with what they were given; a write with the bytes it took.\<close>

datatype sys_call =
    Sys_open string int
  | Sys_write int string
  | Sys_read int nat
  | Sys_fsync int
  | Sys_close int
  | Sys_mkdir string
  | Sys_stat string
  | Sys_realpath string

text \<open>
  What the system answers. A \<^verbatim>\<open>write\<close> takes some bytes, is interrupted before it takes any,
  or fails; the answers of a loop of writes are a list. The second \<^verbatim>\<open>open\<close> and \<^verbatim>\<open>fsync\<close> are
  those of \<^verbatim>\<open>proc_child_mkdir_\<close>; \<open>None\<close> for \<^verbatim>\<open>read\<close> and \<^verbatim>\<open>realpath\<close> is failure.
\<close>

datatype write_res = Wrote nat | Write_eintr | Write_error

datatype mkdir_res = Mkdir_ok | Mkdir_exists | Mkdir_error

datatype stat_res = Stat_error | Stat_dir | Stat_other

record child_env =
  ce_open :: int
  ce_open_again :: int
  ce_fsync :: bool
  ce_fsync_again :: bool
  ce_writes :: "write_res list"
  ce_read :: "string option"
  ce_mkdir :: mkdir_res
  ce_stat :: stat_res
  ce_realpath :: "string option"

section \<open>File operations\<close>

definition child_fail :: "proc_shared \<Rightarrow> string \<Rightarrow> proc_shared" where
  "child_fail s msg = s\<lparr>sh_fail := msg\<rparr>"

definition proc_child_open ::
  "child_env \<Rightarrow> proc_shared \<Rightarrow> int \<Rightarrow> string \<Rightarrow> proc_res \<times> proc_shared \<times> int \<times> sys_call list" where
  "proc_child_open e s fd rw_buf =
     (if fd \<noteq> -1 then (Res_fail, child_fail s ''already open (no errno)'', fd, [])
      else let fd' = ce_open e; calls = [Sys_open (c_str rw_buf) (sh_open_flags s)] in
        if fd' = -1 then (Res_fail, child_fail s ''open'', fd', calls) else (Res_ok, s, fd', calls))"

definition proc_child_close :: "proc_shared \<Rightarrow> int \<Rightarrow> proc_res \<times> proc_shared \<times> int \<times> sys_call list" where
  "proc_child_close s fd =
     (if fd = -1 then (Res_fail, child_fail s ''not open (no errno)'', fd, []) else (Res_ok, s, -1, [Sys_close fd]))"

definition proc_child_fsync :: "child_env \<Rightarrow> proc_shared \<Rightarrow> int \<Rightarrow> proc_res \<times> proc_shared \<times> sys_call list" where
  "proc_child_fsync e s fd =
     (if fd = -1 then (Res_fail, child_fail s ''not open (no errno)'', [])
      else if \<not> ce_fsync e then (Res_fail, child_fail s ''fsync'', [Sys_fsync fd])
      else (Res_ok, s, [Sys_fsync fd]))"

text \<open>
  The loop that \<^verbatim>\<open>proc_child_write_\<close> and \<^verbatim>\<open>proc_child_write_fsync_close_\<close> have in common: \<open>buf\<close>
  is \<^verbatim>\<open>write_buf\<close>, what remains to be written from. \<open>None\<close>: the answers are used up and the
  loop still runs.
\<close>

fun child_write_loop ::
  "write_res list \<Rightarrow> int \<Rightarrow> string \<Rightarrow> nat \<Rightarrow> proc_shared \<Rightarrow> (proc_res \<times> proc_shared \<times> sys_call list) option" where
  "child_write_loop [] fd buf write_len s = None"
| "child_write_loop (Wrote n # ws) fd buf write_len s =
     (let s' = s\<lparr>sh_written := sh_written s + n\<rparr>; call = Sys_write fd (take n buf) in
      if n = write_len then Some (Res_ok, s', [call])
      else case child_write_loop ws fd (drop n buf) (write_len - n) s' of
        None \<Rightarrow> None
      | Some (r, t, calls) \<Rightarrow> Some (r, t, call # calls))"
| "child_write_loop (Write_eintr # ws) fd buf write_len s =
     (case child_write_loop ws fd buf write_len s of
        None \<Rightarrow> None
      | Some (r, t, calls) \<Rightarrow> Some (r, t, Sys_write fd [] # calls))"
| "child_write_loop (Write_error # ws) fd buf write_len s = Some (Res_fail, child_fail s ''write'', [Sys_write fd []])"

definition proc_child_write ::
  "child_env \<Rightarrow> proc_shared \<Rightarrow> int \<Rightarrow> string \<Rightarrow> (proc_res \<times> proc_shared \<times> sys_call list) option" where
  "proc_child_write e s fd rw_buf =
     (if fd = -1 then Some (Res_fail, child_fail s ''not open (no errno)'', [])
      else child_write_loop (ce_writes e) fd rw_buf (sh_write_len s) (s\<lparr>sh_written := 0\<rparr>))"

text \<open>
  One \<^verbatim>\<open>read\<close>, which puts its data at the start of the buffer. What it returns, \<open>ce_read\<close>, is the kernel's
  answer: the bytes from the offset of the open file on, which the code never moves back.
  \<open>Afs_Files\<close> says what it is for a file of known contents and offset.
\<close>

definition proc_child_readall ::
  "child_env \<Rightarrow> proc_shared \<Rightarrow> int \<Rightarrow> string \<Rightarrow> proc_res \<times> proc_shared \<times> string \<times> sys_call list" where
  "proc_child_readall e s fd rw_buf =
     (if fd = -1 then (Res_fail, child_fail s ''not open (no errno)'', rw_buf, [])
      else let s' = s\<lparr>sh_read_len := 0\<rparr>; calls = [Sys_read fd (length rw_buf)] in
        case ce_read e of
          None \<Rightarrow> (Res_fail, child_fail s' ''read'', rw_buf, calls)
        | Some data \<Rightarrow> (Res_ok, s'\<lparr>sh_read_len := length data\<rparr>, overwrite rw_buf 0 data, calls))"

text \<open>\<^verbatim>\<open>O_RDONLY | O_DIRECTORY\<close> of Linux.\<close>

definition dir_open_flags :: int where "dir_open_flags = 65536"

definition proc_child_mkdir :: "child_env \<Rightarrow> proc_shared \<Rightarrow> string \<Rightarrow> proc_res \<times> proc_shared \<times> sys_call list" where
  "proc_child_mkdir e s rw_buf =
     (let path = c_str rw_buf; fd = ce_open e; fd' = ce_open_again e; made = [Sys_mkdir path] in
      case ce_mkdir e of
        Mkdir_exists \<Rightarrow>
          (case ce_stat e of
             Stat_error \<Rightarrow> (Res_fail, child_fail s ''stat after EEXIST'', made @ [Sys_stat path])
           | Stat_other \<Rightarrow> (Res_fail, child_fail s ''file with same name as dir (no errno)'', made @ [Sys_stat path])
           | Stat_dir \<Rightarrow> (Res_ok, s, made @ [Sys_stat path]))
      | Mkdir_error \<Rightarrow> (Res_fail, child_fail s ''mkdir'', made)
      | Mkdir_ok \<Rightarrow>
          let opened = made @ [Sys_open path dir_open_flags] in
          if fd = -1 then (Res_fail, child_fail s ''open dir'', opened)
          else let synced = opened @ [Sys_fsync fd, Sys_close fd] in
          if \<not> ce_fsync e then (Res_fail, child_fail s ''fsync dir'', synced)
          else case ce_realpath e of
            None \<Rightarrow> (Res_fail, child_fail s ''realpath'', synced @ [Sys_realpath path])
          | Some parent \<Rightarrow>
              let opened' = synced @ [Sys_realpath path, Sys_open parent dir_open_flags] in
              if fd' = -1 then (Res_fail, child_fail s ''open dir'', opened')
              else let synced' = opened' @ [Sys_fsync fd', Sys_close fd'] in
              if \<not> ce_fsync_again e then (Res_fail, child_fail s ''fsync dir'', synced')
              else (Res_ok, s, synced'))"

definition proc_child_write_fsync_close ::
  "child_env \<Rightarrow> proc_shared \<Rightarrow> string \<Rightarrow> (proc_res \<times> proc_shared \<times> sys_call list) option" where
  "proc_child_write_fsync_close e s rw_buf =
     (let write_len = sh_write_len s; s = s\<lparr>sh_written := 0\<rparr>; fd = ce_open e;
          opened = Sys_open (c_str (drop write_len rw_buf)) (sh_open_flags s) in
      if fd = -1 then Some (Res_fail, child_fail s ''open'', [opened])
      else case child_write_loop (ce_writes e) fd rw_buf write_len s of
        None \<Rightarrow> None
      | Some (Res_ok, s', calls) \<Rightarrow>
          if \<not> ce_fsync e then Some (Res_fail, child_fail s' ''fsync'', opened # calls @ [Sys_fsync fd, Sys_close fd])
          else Some (Res_ok, s', opened # calls @ [Sys_fsync fd, Sys_close fd])
      | Some (_, s', calls) \<Rightarrow> Some (Res_fail, s', opened # calls @ [Sys_close fd]))"

section \<open>The worker\<close>

text \<open>
  Where the worker is in \<^verbatim>\<open>proc_child_worker_\<close>: before its first statement, in the \<^verbatim>\<open>read\<close> that
  waits for its parent, past it with a command to run, in the \<^verbatim>\<open>write\<close> that answers (with
  \<^verbatim>\<open>should_exit\<close>), or gone with an exit code. \<open>ch_in\<close> and \<open>ch_out\<close> count the bytes that are on
  their way to it and to its parent; \<open>ch_fd\<close> is its local \<^verbatim>\<open>fd\<close>; \<open>ch_calls\<close> are the system
  calls it has made on files.
\<close>

datatype child_pc = Pc_start | Pc_read | Pc_cmd | Pc_answer bool | Pc_exited int

record child =
  ch_pc :: child_pc
  ch_fd :: int
  ch_in :: nat
  ch_out :: nat
  ch_calls :: "sys_call list"

definition child_forked :: child where
  "child_forked = \<lparr>ch_pc = Pc_start, ch_fd = -1, ch_in = 0, ch_out = 0, ch_calls = []\<rparr>"

type_synonym child_mem = "proc_shared \<times> string \<times> child"

definition child_done ::
  "proc_shared \<Rightarrow> proc_res \<Rightarrow> string \<Rightarrow> child \<Rightarrow> int \<Rightarrow> sys_call list \<Rightarrow> bool \<Rightarrow> child_mem" where
  "child_done s r b ch fd calls should_exit =
     (s\<lparr>sh_res := r, sh_st := Child_idle\<rparr>, b,
      ch\<lparr>ch_pc := Pc_answer should_exit, ch_fd := fd, ch_calls := ch_calls ch @ calls\<rparr>)"

text \<open>The switch on the command; \<open>None\<close> while a loop of writes has not ended.\<close>

definition child_run_cmd :: "child_env \<Rightarrow> child_mem \<Rightarrow> child_mem option" where
  "child_run_cmd e m =
     (case m of (s, b, ch) \<Rightarrow>
      case sh_cmd s of
        Cmd_none \<Rightarrow> Some (child_done s Res_ok b ch (ch_fd ch) [] False)
      | Cmd_exit \<Rightarrow> Some (child_done s Res_ok b ch (ch_fd ch) [] True)
      | Cmd_open \<Rightarrow>
          (case proc_child_open e s (ch_fd ch) b of (r, t, fd, calls) \<Rightarrow> Some (child_done t r b ch fd calls False))
      | Cmd_close \<Rightarrow>
          (case proc_child_close s (ch_fd ch) of (r, t, fd, calls) \<Rightarrow> Some (child_done t r b ch fd calls False))
      | Cmd_fsync \<Rightarrow>
          (case proc_child_fsync e s (ch_fd ch) of (r, t, calls) \<Rightarrow> Some (child_done t r b ch (ch_fd ch) calls False))
      | Cmd_write \<Rightarrow>
          (case proc_child_write e s (ch_fd ch) b of
             None \<Rightarrow> None | Some (r, t, calls) \<Rightarrow> Some (child_done t r b ch (ch_fd ch) calls False))
      | Cmd_readall \<Rightarrow>
          (case proc_child_readall e s (ch_fd ch) b of
             (r, t, b', calls) \<Rightarrow> Some (child_done t r b' ch (ch_fd ch) calls False))
      | Cmd_mkdir \<Rightarrow>
          (case proc_child_mkdir e s b of (r, t, calls) \<Rightarrow> Some (child_done t r b ch (ch_fd ch) calls False))
      | Cmd_write_fsync_close \<Rightarrow>
          (case proc_child_write_fsync_close e s b of
             None \<Rightarrow> None | Some (r, t, calls) \<Rightarrow> Some (child_done t r b ch (ch_fd ch) calls False)))"

text \<open>
  One step of the worker. \<open>io\<close> says how the \<^verbatim>\<open>read\<close> or \<^verbatim>\<open>write\<close> on its socket ends: it
  transfers the byte, is interrupted, or fails. \<open>None\<close>: no such step (it waits, or is gone).
\<close>

datatype sock_io = Io_done | Io_eintr | Io_error

fun proc_child_worker :: "sock_io \<Rightarrow> child_env \<Rightarrow> child_mem \<Rightarrow> child_mem option" where
  "proc_child_worker io e (s, b, ch) =
     (case ch_pc ch of
        Pc_start \<Rightarrow>
          if sh_st s \<noteq> Child_not_started then Some (s, b, ch\<lparr>ch_pc := Pc_exited 126\<rparr>)
          else Some (s\<lparr>sh_st := Child_idle\<rparr>, b, ch\<lparr>ch_pc := Pc_read\<rparr>)
      | Pc_read \<Rightarrow>
          (case io of
             Io_done \<Rightarrow>
               if ch_in ch = 0 then None
               else Some (s\<lparr>sh_st := Child_busy, sh_res := Res_none\<rparr>, b, ch\<lparr>ch_pc := Pc_cmd, ch_in := ch_in ch - 1\<rparr>)
           | Io_eintr \<Rightarrow> Some (s, b, ch)
           | Io_error \<Rightarrow> Some (s, b, ch\<lparr>ch_pc := Pc_exited 1\<rparr>))
      | Pc_cmd \<Rightarrow> child_run_cmd e (s, b, ch)
      | Pc_answer should_exit \<Rightarrow>
          (case io of
             Io_done \<Rightarrow>
               if should_exit
               then Some (s\<lparr>sh_st := Child_not_started\<rparr>, b, ch\<lparr>ch_pc := Pc_exited 0, ch_out := ch_out ch + 1\<rparr>)
               else Some (s, b, ch\<lparr>ch_pc := Pc_read, ch_out := ch_out ch + 1\<rparr>)
           | Io_eintr \<Rightarrow> Some (s, b, ch)
           | Io_error \<Rightarrow>
               Some ((child_fail s ''write'')\<lparr>sh_st := Child_not_started\<rparr>, b, ch\<lparr>ch_pc := Pc_exited 127\<rparr>))
      | Pc_exited _ \<Rightarrow> None)"

section \<open>What a loop of writes does\<close>

text \<open>No \<^verbatim>\<open>write\<close> takes more than it was given.\<close>

fun writes_fit :: "write_res list \<Rightarrow> nat \<Rightarrow> bool" where
  "writes_fit [] len = True"
| "writes_fit (Wrote n # ws) len = (n \<le> len \<and> (n = len \<or> writes_fit ws (len - n)))"
| "writes_fit (Write_eintr # ws) len = writes_fit ws len"
| "writes_fit (Write_error # ws) len = True"

fun writes_total :: "write_res list \<Rightarrow> nat" where
  "writes_total [] = 0"
| "writes_total (Wrote n # ws) = n + writes_total ws"
| "writes_total (w # ws) = writes_total ws"

text \<open>The data a list of system calls wrote to a descriptor.\<close>

fun sys_written :: "int \<Rightarrow> sys_call list \<Rightarrow> string" where
  "sys_written fd [] = []"
| "sys_written fd (Sys_write fd' data # calls) = (if fd' = fd then data else []) @ sys_written fd calls"
| "sys_written fd (c # calls) = sys_written fd calls"

fun only_writes :: "int \<Rightarrow> sys_call list \<Rightarrow> bool" where
  "only_writes fd [] = True"
| "only_writes fd (Sys_write fd' data # calls) = (fd' = fd \<and> only_writes fd calls)"
| "only_writes fd (c # calls) = False"

lemma sys_written_append [simp]: "sys_written fd (a @ b) = sys_written fd a @ sys_written fd b"
  by (induction fd a rule: sys_written.induct) auto

lemma child_write_loop_data:
  "child_write_loop ws fd buf len s = Some (r, t, calls) \<Longrightarrow> writes_fit ws len \<Longrightarrow> len \<le> length buf \<Longrightarrow>
   \<exists>n \<le> len. sys_written fd calls = take n buf \<and> only_writes fd calls \<and>
     t = s\<lparr>sh_written := sh_written s + n, sh_fail := (if r = Res_ok then sh_fail s else ''write'')\<rparr> \<and>
     (r = Res_ok \<and> n = len \<or> r = Res_fail)"
proof (induction ws fd buf len s arbitrary: r t calls rule: child_write_loop.induct)
  case (2 n ws fd buf len s)
  show ?case
  proof (cases "n = len")
    case True
    then show ?thesis using 2 by auto
  next
    case False
    with 2 obtain calls' where l: "child_write_loop ws fd (drop n buf) (len - n) (s\<lparr>sh_written := sh_written s + n\<rparr>) = Some (r, t, calls')"
      and c: "calls = Sys_write fd (take n buf) # calls'"
      by (auto simp: Let_def split: option.splits)
    from 2(3,4) False have "writes_fit ws (len - n)" "len - n \<le> length (drop n buf)" by auto
    from 2(1)[OF refl refl False l this] obtain k where k: "k \<le> len - n" "sys_written fd calls' = take k (drop n buf)"
      "only_writes fd calls'" "t = s\<lparr>sh_written := sh_written s + n + k, sh_fail := (if r = Res_ok then sh_fail s else ''write'')\<rparr>"
      "r = Res_ok \<and> k = len - n \<or> r = Res_fail"
      by auto
    from 2(3) have "n \<le> len" by simp
    with k c show ?thesis
      by (intro exI[of _ "n + k"]) (auto simp: take_add add.assoc)
  qed
next
  case (3 ws fd buf len s)
  from 3(2) obtain calls' where l: "child_write_loop ws fd buf len s = Some (r, t, calls')"
    and c: "calls = Sys_write fd [] # calls'"
    by (auto split: option.splits)
  from 3(1)[OF l] 3(3,4) c show ?case by auto
qed (auto simp: child_fail_def)

lemma child_write_loop_ends:
  "writes_fit ws len \<Longrightarrow> Write_error \<notin> set ws \<Longrightarrow> len \<le> writes_total ws \<Longrightarrow> \<exists>n. Wrote n \<in> set ws \<Longrightarrow>
   \<exists>t calls. child_write_loop ws fd buf len s = Some (Res_ok, t, calls)"
proof (induction ws fd buf len s rule: child_write_loop.induct)
  case (2 n ws fd buf len s)
  show ?case
  proof (cases "n = len")
    case False
    with 2(2) have n: "n < len" "writes_fit ws (len - n)" by auto
    with 2(3,4) have "len - n \<le> writes_total ws" "0 < writes_total ws" by auto
    moreover then have "\<exists>n. Wrote n \<in> set ws"
      by (induction ws rule: writes_total.induct) auto
    ultimately show ?thesis using 2(1)[OF _ _ False] 2(3) n False by fastforce
  qed (simp add: Let_def)
next
  case (3 ws fd buf len s)
  then have "\<exists>t calls. child_write_loop ws fd buf len s = Some (Res_ok, t, calls)" by fastforce
  then show ?case by auto
qed auto

section \<open>The worker leaves alone what is its parent's\<close>

definition shared_parent :: "proc_shared \<Rightarrow> proc_cmd \<times> nat \<times> int" where
  "shared_parent s = (sh_cmd s, sh_write_len s, sh_open_flags s)"

definition shared_child :: "proc_shared \<Rightarrow> proc_res \<times> proc_child_st \<times> nat \<times> nat \<times> sob_fail" where
  "shared_child s = (sh_res s, sh_st s, sh_written s, sh_read_len s, sh_fail s)"

lemma shared_parent_upd [simp]:
  "shared_parent (s\<lparr>sh_written := n\<rparr>) = shared_parent s" "shared_parent (s\<lparr>sh_read_len := n\<rparr>) = shared_parent s"
  "shared_parent (s\<lparr>sh_fail := f\<rparr>) = shared_parent s" "shared_parent (s\<lparr>sh_res := r\<rparr>) = shared_parent s"
  "shared_parent (s\<lparr>sh_st := c\<rparr>) = shared_parent s" "shared_parent (child_fail s m) = shared_parent s"
  by (simp_all add: shared_parent_def child_fail_def)

lemma child_write_loop_frame:
  "child_write_loop ws fd buf len s = Some (r, t, calls) \<Longrightarrow> shared_parent t = shared_parent s \<and> r \<noteq> Res_none"
proof (induction ws fd buf len s arbitrary: r t calls rule: child_write_loop.induct)
  case (2 n ws fd buf len s)
  then show ?case by (cases "n = len") (fastforce simp: Let_def split: option.splits)+
next
  case (3 ws fd buf len s)
  then show ?case by (fastforce split: option.splits)
qed auto

lemma proc_child_frames:
  "proc_child_open e s fd b = (r, t, fd', calls) \<Longrightarrow> shared_parent t = shared_parent s \<and> r \<noteq> Res_none"
  "proc_child_close s fd = (r, t, fd', calls) \<Longrightarrow> shared_parent t = shared_parent s \<and> r \<noteq> Res_none"
  "proc_child_fsync e s fd = (r, t, calls) \<Longrightarrow> shared_parent t = shared_parent s \<and> r \<noteq> Res_none"
  "proc_child_readall e s fd b = (r, t, b', calls) \<Longrightarrow> shared_parent t = shared_parent s \<and> r \<noteq> Res_none"
  by (auto simp: proc_child_open_def proc_child_close_def proc_child_fsync_def proc_child_readall_def Let_def
      split: if_splits option.splits)

lemma proc_child_mkdir_frame:
  "proc_child_mkdir e s b = (r, t, calls) \<Longrightarrow> shared_parent t = shared_parent s \<and> r \<noteq> Res_none"
  by (auto simp: proc_child_mkdir_def Let_def split: if_splits option.splits mkdir_res.splits stat_res.splits)

lemma proc_child_write_frame:
  "proc_child_write e s fd b = Some (r, t, calls) \<Longrightarrow> shared_parent t = shared_parent s \<and> r \<noteq> Res_none"
  by (auto simp: proc_child_write_def dest!: child_write_loop_frame split: if_splits)

lemma proc_child_write_fsync_close_frame:
  "proc_child_write_fsync_close e s b = Some (r, t, calls) \<Longrightarrow> shared_parent t = shared_parent s \<and> r \<noteq> Res_none"
  by (auto simp: proc_child_write_fsync_close_def Let_def dest!: child_write_loop_frame
      split: if_splits option.splits proc_res.splits)

lemma proc_child_readall_length:
  "proc_child_readall e s fd b = (r, t, b', calls) \<Longrightarrow> (\<And>data. ce_read e = Some data \<Longrightarrow> length data \<le> length b) \<Longrightarrow>
   length b' = length b"
  by (auto simp: proc_child_readall_def Let_def split: if_splits option.splits)

lemmas child_frames = proc_child_frames proc_child_mkdir_frame proc_child_write_frame proc_child_write_fsync_close_frame

text \<open>
  What running a command does, whatever the command: it ends with an answer, changes only the
  worker's own part of the shared memory, and fails neither \<open>Cmd_none\<close> nor \<open>Cmd_exit\<close>.
\<close>

definition child_ran :: "proc_shared \<Rightarrow> string \<Rightarrow> child \<Rightarrow> child_mem \<Rightarrow> bool" where
  "child_ran s b ch m \<longleftrightarrow>
     (\<exists>u r b' fd calls. m = child_done u r b' ch fd calls (sh_cmd s = Cmd_exit) \<and>
        shared_parent u = shared_parent s \<and> r \<noteq> Res_none \<and> length b' = length b \<and>
        (sh_cmd s = Cmd_none \<or> sh_cmd s = Cmd_exit \<longrightarrow> r = Res_ok))"

lemma child_ranI:
  "shared_parent u = shared_parent s \<and> r \<noteq> Res_none \<Longrightarrow> length b' = length b \<Longrightarrow>
   sh_cmd s = Cmd_none \<or> sh_cmd s = Cmd_exit \<longrightarrow> r = Res_ok \<Longrightarrow> x = (sh_cmd s = Cmd_exit) \<Longrightarrow>
   child_ran s b ch (child_done u r b' ch fd calls x)"
  unfolding child_ran_def by blast

lemma child_run_cmd_ran:
  assumes "child_run_cmd e (s, b, ch) = Some m"
    and reads: "\<And>data. ce_read e = Some data \<Longrightarrow> length data \<le> length b"
  shows "child_ran s b ch m"
  using assms(1)
  by (cases "sh_cmd s")
    (auto simp: child_run_cmd_def split: prod.splits option.splits
      intro!: child_ranI dest: child_frames proc_child_readall_length[OF _ reads])

end
