(* ===== verification/Afs_Proc.thy ===== *)
theory Afs_Proc
  imports Afs_Child
begin

text \<open>
  The parent's end of a worker of the asynchronous file module: \<^verbatim>\<open>struct proc_\<close> and the
  functions on it (\<^verbatim>\<open>src/src/afs.c\<close> from \<^verbatim>\<open>proc_init_\<close> to \<^verbatim>\<open>proc_add_ev_\<close>).
\<close>

section \<open>Types\<close>

datatype afs_event = afs_ev_init | afs_ev_init_fail | afs_ev_stop | afs_ev_stop_fail | afs_ev_open | afs_ev_open_fail
  | afs_ev_close | afs_ev_close_fail | afs_ev_fsync | afs_ev_fsync_fail | afs_ev_write | afs_ev_write_fail
  | afs_ev_readall | afs_ev_readall_fail | afs_ev_mkdir | afs_ev_mkdir_fail | afs_ev_write_fsync_close
  | afs_ev_write_fsync_close_fail

datatype afs_res = afs_fail_bad_arg | afs_fail_bad_fd | afs_fail_alloc | afs_fail | afs_ok

text \<open>
  The two members of the union of \<^verbatim>\<open>struct afs_ev\<close> start with the same \<^verbatim>\<open>size_t len\<close>, so it is
  one field here. The pointer \<^verbatim>\<open>data\<close> is what it points to when the event is filled in.
\<close>

record afs_ev =
  ev_ty :: afs_event
  ev_fd :: int
  ev_len :: nat
  ev_data :: "string option"

datatype proc_st = Proc_uninit | Proc_init_pend | Proc_avail | Proc_busy | Proc_dead

datatype mmap_ptr = Mmap_null | Mmap_failed | Mmap_at

text \<open>
  \<^verbatim>\<open>struct proc_\<close>: \<open>pr_evs\<close> is the whole array \<^verbatim>\<open>evs\<close>, \<open>None\<close> is NULL. \<open>pr_child\<close> is the process
  behind \<^verbatim>\<open>pid\<close> with the two directions of the socket, as long as there is one.
\<close>

record proc =
  pr_fail :: sob_fail
  pr_is_stop_req :: bool
  pr_st :: proc_st
  pr_evs :: "afs_ev list"
  pr_evs_len :: nat
  pr_shared :: "proc_shared option"
  pr_rw_buf :: "string option"
  pr_rw_buf_len :: nat
  pr_mmap_start :: mmap_ptr
  pr_mmap_len :: nat
  pr_pid :: int
  pr_fd :: int
  pr_child :: "child option"

definition proc_evs_maxlen :: nat where "proc_evs_maxlen = 3"

text \<open>\<^verbatim>\<open>PAGESIZE\<close> and \<^verbatim>\<open>sizeof(struct proc_shared_)\<close> on x86-64.\<close>

definition pagesize :: nat where "pagesize = 4096"
definition proc_shared_size :: nat where "proc_shared_size = 72"
definition rw_buf_len :: nat where "rw_buf_len = pagesize * 3 - proc_shared_size"

text \<open>
  How often a blocking call on the socket or on \<^verbatim>\<open>waitpid\<close> is interrupted before it ends, and
  whether it then succeeds.
\<close>

type_synonym io_end = "nat \<times> bool"

section \<open>Sending\<close>

definition proc_fail :: "proc \<Rightarrow> string \<Rightarrow> proc" where
  "proc_fail p msg = p\<lparr>pr_fail := msg\<rparr>"

definition child_wake :: "proc \<Rightarrow> proc" where
  "child_wake p = p\<lparr>pr_child := map_option (\<lambda>ch. ch\<lparr>ch_in := ch_in ch + 1\<rparr>) (pr_child p)\<rparr>"

fun notify_loop :: "nat \<Rightarrow> bool \<Rightarrow> proc \<Rightarrow> afs_res \<times> proc" where
  "notify_loop (Suc k) ok p = notify_loop k ok p"
| "notify_loop 0 ok p = (if ok then (afs_ok, child_wake p) else (afs_fail, (proc_fail p ''write'')\<lparr>pr_st := Proc_dead\<rparr>))"

definition proc_notify_child :: "io_end \<Rightarrow> proc \<Rightarrow> afs_res \<times> proc" where
  "proc_notify_child io p = notify_loop (fst io) (snd io) p"

definition proc_send_cmd :: "io_end \<Rightarrow> proc \<Rightarrow> proc_cmd \<Rightarrow> (afs_res \<times> proc) outcome" where
  "proc_send_cmd io p cmd =
     (if pr_st p \<noteq> Proc_avail then Inr (afs_fail, proc_fail p ''bad st (no errno)'')
      else case pr_shared p of
        None \<Rightarrow> Inl Null_deref
      | Some s \<Rightarrow>
          if sh_st s \<noteq> Child_idle then Inr (afs_fail, proc_fail p ''bad child st (no errno)'')
          else Inr (proc_notify_child io (p\<lparr>pr_st := Proc_busy, pr_shared := Some (s\<lparr>sh_cmd := cmd\<rparr>)\<rparr>)))"

definition proc_open :: "io_end \<Rightarrow> proc \<Rightarrow> (afs_res \<times> proc) outcome" where
  "proc_open io p = proc_send_cmd io p Cmd_open"

definition proc_close :: "io_end \<Rightarrow> proc \<Rightarrow> (afs_res \<times> proc) outcome" where
  "proc_close io p = proc_send_cmd io p Cmd_close"

definition proc_fsync :: "io_end \<Rightarrow> proc \<Rightarrow> (afs_res \<times> proc) outcome" where
  "proc_fsync io p = proc_send_cmd io p Cmd_fsync"

definition proc_write :: "io_end \<Rightarrow> proc \<Rightarrow> (afs_res \<times> proc) outcome" where
  "proc_write io p = proc_send_cmd io p Cmd_write"

definition proc_readall :: "io_end \<Rightarrow> proc \<Rightarrow> (afs_res \<times> proc) outcome" where
  "proc_readall io p = proc_send_cmd io p Cmd_readall"

definition proc_mkdir :: "io_end \<Rightarrow> proc \<Rightarrow> (afs_res \<times> proc) outcome" where
  "proc_mkdir io p = proc_send_cmd io p Cmd_mkdir"

definition proc_write_fsync_close :: "io_end \<Rightarrow> proc \<Rightarrow> (afs_res \<times> proc) outcome" where
  "proc_write_fsync_close io p = proc_send_cmd io p Cmd_write_fsync_close"

section \<open>Start and end of a worker\<close>

text \<open>
  What the system answers to \<^verbatim>\<open>proc_init_\<close>: the page size, the descriptors of the socket pair,
  whether \<^verbatim>\<open>mmap\<close> succeeds, the process id of the child, and how the first message goes.
\<close>

record spawn_env =
  se_pgs :: nat
  se_socketpair :: "(int \<times> int) option"
  se_mmap :: bool
  se_fork :: "int option"
  se_notify :: io_end

definition mmap_len :: "nat \<Rightarrow> nat" where
  "mmap_len pgs = ((proc_shared_size + rw_buf_len - 1) div pgs + 1) * pgs"

definition shared_fresh :: proc_shared where
  "shared_fresh = \<lparr>sh_cmd = Cmd_none, sh_write_len = 0, sh_open_flags = 0, sh_res = Res_none, sh_st = Child_not_started,
     sh_written = 0, sh_read_len = 0, sh_fail = []\<rparr>"

definition proc_init :: "spawn_env \<Rightarrow> proc \<Rightarrow> afs_res \<times> proc" where
  "proc_init e p =
     (let p = p\<lparr>pr_evs_len := 0, pr_is_stop_req := False, pr_pid := 0\<rparr> in
      case se_socketpair e of
        None \<Rightarrow> (afs_fail, proc_fail p ''socketpair'')
      | Some sv \<Rightarrow>
          let p = p\<lparr>pr_mmap_len := mmap_len (se_pgs e)\<rparr> in
          if \<not> se_mmap e then (afs_fail, (proc_fail p ''mmap'')\<lparr>pr_mmap_start := Mmap_failed\<rparr>)
          else
            let n = pr_mmap_len p - proc_shared_size;
                p = p\<lparr>pr_mmap_start := Mmap_at, pr_shared := Some shared_fresh,
                      pr_rw_buf := Some (replicate n NUL), pr_rw_buf_len := n\<rparr> in
            case se_fork e of
              None \<Rightarrow>
                (afs_fail, (proc_fail p ''fork'')\<lparr>pr_mmap_start := Mmap_null, pr_mmap_len := 0, pr_rw_buf := None,
                   pr_rw_buf_len := 0, pr_shared := None\<rparr>)
            | Some pid \<Rightarrow>
                proc_notify_child (se_notify e)
                  (p\<lparr>pr_pid := pid, pr_fd := fst sv, pr_st := Proc_init_pend, pr_child := Some child_forked\<rparr>))"

text \<open>\<^verbatim>\<open>waitpid\<close> is called again as long as it is interrupted, and its result not used.\<close>

fun waitpid_loop :: "nat \<Rightarrow> proc \<Rightarrow> proc" where
  "waitpid_loop (Suc k) p = waitpid_loop k p"
| "waitpid_loop 0 p = p\<lparr>pr_child := None\<rparr>"

definition proc_destroy_child :: "nat \<Rightarrow> proc \<Rightarrow> proc" where
  "proc_destroy_child wait p =
     (let p = (if pr_pid p > 0 then (waitpid_loop wait p)\<lparr>pr_pid := 0\<rparr> else p) in
      p\<lparr>pr_fd := -1, pr_mmap_start := Mmap_null, pr_mmap_len := 0, pr_rw_buf := None, pr_rw_buf_len := 0,
        pr_shared := None, pr_st := Proc_uninit\<rparr>)"

section \<open>Events\<close>

definition proc_add_ev :: "proc \<Rightarrow> afs_event \<Rightarrow> nat option \<times> proc" where
  "proc_add_ev p ty =
     (if pr_evs_len p < proc_evs_maxlen
      then (Some (pr_evs_len p),
            p\<lparr>pr_evs := (pr_evs p)[pr_evs_len p := (pr_evs p ! pr_evs_len p)\<lparr>ev_ty := ty, ev_fd := -1\<rparr>],
              pr_evs_len := pr_evs_len p + 1\<rparr>)
      else (None, p))"

text \<open>\<^verbatim>\<open>SOB_AFS_PROC_CHECK_EV_(proc_add_ev_(p, ty))\<close>.\<close>

definition proc_must_add_ev :: "proc \<Rightarrow> afs_event \<Rightarrow> proc outcome" where
  "proc_must_add_ev p ty = (case proc_add_ev p ty of (None, p') \<Rightarrow> sob_panic | (Some _, p') \<Rightarrow> Inr p')"

fun proc_cmd_fail_ev :: "proc_cmd \<Rightarrow> afs_event" where
  "proc_cmd_fail_ev Cmd_none = afs_ev_init_fail"
| "proc_cmd_fail_ev Cmd_exit = afs_ev_stop_fail"
| "proc_cmd_fail_ev Cmd_open = afs_ev_open_fail"
| "proc_cmd_fail_ev Cmd_close = afs_ev_close_fail"
| "proc_cmd_fail_ev Cmd_fsync = afs_ev_fsync_fail"
| "proc_cmd_fail_ev Cmd_write = afs_ev_write_fail"
| "proc_cmd_fail_ev Cmd_readall = afs_ev_readall_fail"
| "proc_cmd_fail_ev Cmd_mkdir = afs_ev_mkdir_fail"
| "proc_cmd_fail_ev Cmd_write_fsync_close = afs_ev_write_fsync_close_fail"

section \<open>Update\<close>

unbundle bit_operations_syntax

definition died :: "16 word \<Rightarrow> bool" where
  "died revents \<longleftrightarrow> revents AND POLLHUP \<noteq> 0 \<or> revents AND POLLERR \<noteq> 0"

definition readable :: "16 word \<Rightarrow> bool" where
  "readable revents \<longleftrightarrow> revents AND POLLIN \<noteq> 0"

text \<open>\<^verbatim>\<open>read(p->fd, &throwaway, 1)\<close>.\<close>

definition proc_read_byte :: "proc \<Rightarrow> proc" where
  "proc_read_byte p = p\<lparr>pr_child := map_option (\<lambda>ch. ch\<lparr>ch_out := ch_out ch - 1\<rparr>) (pr_child p)\<rparr>"

definition with_shared :: "proc \<Rightarrow> (proc_shared \<Rightarrow> 'a outcome) \<Rightarrow> 'a outcome" where
  "with_shared p k = (case pr_shared p of None \<Rightarrow> Inl Null_deref | Some s \<Rightarrow> k s)"

text \<open>
  What the system answers during an update of a worker: the interruptions of \<^verbatim>\<open>waitpid\<close>, the
  message that asks the worker to exit, and the message with the command that was waiting for
  it to start.
\<close>

record update_env =
  ue_wait :: nat
  ue_exit :: io_end
  ue_after_init :: io_end

definition proc_update_init_pend :: "update_env \<Rightarrow> proc \<Rightarrow> 16 word \<Rightarrow> (afs_res \<times> proc) outcome" where
  "proc_update_init_pend e p revents =
     (if pr_is_stop_req p then
        let p = proc_destroy_child (ue_wait e) (p\<lparr>pr_is_stop_req := False\<rparr>) in
        and_then (proc_must_add_ev p afs_ev_init_fail) (\<lambda>p.
        and_then (proc_must_add_ev p afs_ev_stop) (\<lambda>p. Inr (afs_fail, p)))
      else if died revents then
        and_then (proc_must_add_ev (proc_destroy_child (ue_wait e) p) afs_ev_init_fail) (\<lambda>p.
        Inr (afs_fail, proc_fail p ''child died (no errno)''))
      else if readable revents then
        let p = proc_read_byte p in
        with_shared p (\<lambda>s.
        if sh_res s = Res_ok then
          and_then (proc_must_add_ev (p\<lparr>pr_st := Proc_avail\<rparr>) afs_ev_init) (\<lambda>p. Inr (afs_ok, p))
        else
          and_then (proc_must_add_ev (proc_destroy_child (ue_wait e) p) afs_ev_init_fail) (\<lambda>p.
          Inr (afs_fail, proc_fail p ''child failed cmd_none (no errno)'')))
      else Inr (afs_ok, p))"

definition proc_update_avail :: "update_env \<Rightarrow> proc \<Rightarrow> 16 word \<Rightarrow> (afs_res \<times> proc) outcome" where
  "proc_update_avail e p revents =
     (if died revents then Inr (afs_fail, proc_fail (proc_destroy_child (ue_wait e) p) ''child died (no errno)'')
      else Inr (afs_ok, p))"

text \<open>The event of a command that succeeded, filled in over the one just added, \<open>ev\<close>.\<close>

fun proc_ok_ev :: "proc_cmd \<Rightarrow> proc_shared \<Rightarrow> string option \<Rightarrow> afs_ev \<Rightarrow> afs_ev" where
  "proc_ok_ev Cmd_open s b ev = ev\<lparr>ev_ty := afs_ev_open\<rparr>"
| "proc_ok_ev Cmd_close s b ev = ev\<lparr>ev_ty := afs_ev_close\<rparr>"
| "proc_ok_ev Cmd_fsync s b ev = ev\<lparr>ev_ty := afs_ev_fsync\<rparr>"
| "proc_ok_ev Cmd_write s b ev = ev\<lparr>ev_ty := afs_ev_write, ev_len := sh_written s\<rparr>"
| "proc_ok_ev Cmd_readall s b ev = ev\<lparr>ev_ty := afs_ev_readall, ev_len := sh_read_len s, ev_data := b\<rparr>"
| "proc_ok_ev Cmd_mkdir s b ev = ev\<lparr>ev_ty := afs_ev_mkdir\<rparr>"
| "proc_ok_ev Cmd_write_fsync_close s b ev = ev\<lparr>ev_ty := afs_ev_write_fsync_close, ev_len := sh_written s\<rparr>"
| "proc_ok_ev Cmd_none s b ev = ev"
| "proc_ok_ev Cmd_exit s b ev = ev"

definition proc_fill_ev :: "proc \<Rightarrow> proc_shared \<Rightarrow> proc" where
  "proc_fill_ev p s =
     (let i = pr_evs_len p - 1 in
      p\<lparr>pr_evs := (pr_evs p)[i := proc_ok_ev (sh_cmd s) s (pr_rw_buf p) (pr_evs p ! i)]\<rparr>)"

text \<open>The end of \<^verbatim>\<open>proc_update_busy_\<close>: the worker is free again, or told to exit.\<close>

definition proc_update_free :: "update_env \<Rightarrow> proc \<Rightarrow> (afs_res \<times> proc) outcome" where
  "proc_update_free e p =
     (let p = p\<lparr>pr_st := Proc_avail\<rparr> in
      if pr_is_stop_req p then proc_send_cmd (ue_exit e) p Cmd_exit else Inr (afs_ok, p))"

definition proc_update_busy :: "update_env \<Rightarrow> proc \<Rightarrow> 16 word \<Rightarrow> (afs_res \<times> proc) outcome" where
  "proc_update_busy e p revents =
     (if died revents then
        with_shared p (\<lambda>s.
        and_then (proc_must_add_ev p (proc_cmd_fail_ev (sh_cmd s))) (\<lambda>p.
        Inr (afs_fail, proc_fail (proc_destroy_child (ue_wait e) p) ''child died (no errno)'')))
      else if readable revents then
        let p = proc_read_byte p in
        with_shared p (\<lambda>s.
        if sh_res s = Res_ok then
          and_then (if sh_cmd s \<noteq> Cmd_none then proc_must_add_ev p afs_ev_init else Inr p) (\<lambda>p.
          if sh_cmd s = Cmd_exit then
            let p = proc_destroy_child (ue_wait e) (p\<lparr>pr_is_stop_req := False\<rparr>) in
            and_then (if pr_is_stop_req p then proc_must_add_ev p afs_ev_stop else Inr p) (\<lambda>p.
            Inr (afs_fail, proc_fail p ''exit successful (no errno)''))
          else
            let p = (if sh_cmd s = Cmd_none then p else proc_fill_ev p s) in
            proc_update_free e (p\<lparr>pr_shared := Some (s\<lparr>sh_cmd := Cmd_none\<rparr>)\<rparr>))
        else
          and_then (proc_must_add_ev (p\<lparr>pr_fail := sh_fail s\<rparr>) (proc_cmd_fail_ev (sh_cmd s))) (\<lambda>p.
          proc_update_free e p))
      else Inr (afs_ok, p))"

definition proc_update_dead :: "update_env \<Rightarrow> proc \<Rightarrow> (afs_res \<times> proc) outcome" where
  "proc_update_dead e p =
     and_then (if pr_is_stop_req p then proc_must_add_ev (p\<lparr>pr_is_stop_req := False\<rparr>) afs_ev_stop_fail else Inr p) (\<lambda>p.
     Inr (afs_fail, proc_fail (proc_destroy_child (ue_wait e) p) ''child is dead (no errno)''))"

text \<open>The last entry of \<^verbatim>\<open>fds\<close> for the worker's socket counts.\<close>

fun proc_revents :: "pollfd list \<Rightarrow> int \<Rightarrow> 16 word \<Rightarrow> 16 word" where
  "proc_revents [] fd r = r"
| "proc_revents (f # fds) fd r = proc_revents fds fd (if pfd_fd f = fd then pfd_revents f else r)"

definition proc_update :: "update_env \<Rightarrow> proc \<Rightarrow> pollfd list \<Rightarrow> (afs_res \<times> proc) outcome" where
  "proc_update e p fds =
     (let revents = (if pr_fd p \<noteq> -1 then proc_revents fds (pr_fd p) 0 else 0);
          p = p\<lparr>pr_evs_len := 0\<rparr> in
      case pr_st p of
        Proc_init_pend \<Rightarrow> proc_update_init_pend e p revents
      | Proc_busy \<Rightarrow> proc_update_busy e p revents
      | Proc_avail \<Rightarrow> proc_update_avail e p revents
      | Proc_dead \<Rightarrow> proc_update_dead e p
      | Proc_uninit \<Rightarrow>
          and_then (if pr_is_stop_req p then proc_must_add_ev (p\<lparr>pr_is_stop_req := False\<rparr>) afs_ev_stop else Inr p) (\<lambda>p.
          Inr (afs_fail, proc_fail p ''uninit (no errno)'')))"

definition proc_evs :: "proc \<Rightarrow> afs_ev list \<times> nat" where
  "proc_evs p = (pr_evs p, pr_evs_len p)"

definition proc_fd :: "proc \<Rightarrow> int" where
  "proc_fd p = pr_fd p"

section \<open>Stop\<close>

definition proc_stop_prep :: "io_end \<Rightarrow> proc \<Rightarrow> (afs_res \<times> proc) outcome" where
  "proc_stop_prep io p =
     (if \<not> pr_is_stop_req p then
        let p = p\<lparr>pr_is_stop_req := True\<rparr> in
        if pr_st p = Proc_avail then proc_send_cmd io p Cmd_exit
        else if pr_st p = Proc_busy then Inr (afs_ok, p)
        else Inr (afs_fail, proc_fail p ''bad st (no errno)'')
      else Inr (afs_fail, proc_fail p ''stop_prep already pending (no errno)''))"

definition proc_stop :: "proc \<Rightarrow> afs_res \<times> proc" where
  "proc_stop p = (if pr_st p \<noteq> Proc_uninit then (afs_fail, proc_fail p ''not ready to stop (no errno)'') else (afs_ok, p))"

section \<open>The protocol between a worker and its parent\<close>

text \<open>
  At most one message is under way. \<open>proto st s ch\<close> says, for each state the parent keeps of
  its worker, where the worker can be, where the message is, and what of the shared memory
  is settled. A worker may be gone at any time.
\<close>

fun pc_gone :: "child_pc \<Rightarrow> bool" where
  "pc_gone (Pc_exited code) = True"
| "pc_gone _ = False"

definition gone :: "child \<Rightarrow> bool" where
  "gone ch \<longleftrightarrow> pc_gone (ch_pc ch)"

definition asked :: "proc_shared \<Rightarrow> child \<Rightarrow> bool" where
  "asked s ch \<longleftrightarrow> ch_pc ch = Pc_read \<and> ch_in ch = 1 \<and> ch_out ch = 0 \<and> sh_st s = Child_idle"

definition working :: "child \<Rightarrow> bool" where
  "working ch \<longleftrightarrow> ch_pc ch = Pc_cmd \<and> ch_in ch = 0 \<and> ch_out ch = 0"

definition settled :: "proc_shared \<Rightarrow> bool" where
  "settled s \<longleftrightarrow> sh_res s \<noteq> Res_none \<and> (sh_cmd s = Cmd_none \<or> sh_cmd s = Cmd_exit \<longrightarrow> sh_res s = Res_ok)"

definition answering :: "proc_shared \<Rightarrow> child \<Rightarrow> bool" where
  "answering s ch \<longleftrightarrow> ch_pc ch = Pc_answer (sh_cmd s = Cmd_exit) \<and> ch_in ch = 0 \<and> ch_out ch = 0 \<and>
     sh_st s = Child_idle \<and> settled s"

definition answered :: "proc_shared \<Rightarrow> child \<Rightarrow> bool" where
  "answered s ch \<longleftrightarrow> (ch_pc ch = Pc_read \<and> sh_cmd s \<noteq> Cmd_exit \<or> gone ch) \<and> ch_in ch = 0 \<and> ch_out ch = 1 \<and>
     (sh_cmd s = Cmd_exit \<or> sh_st s = Child_idle) \<and> settled s"

definition in_progress :: "proc_shared \<Rightarrow> child \<Rightarrow> bool" where
  "in_progress s ch \<longleftrightarrow> asked s ch \<or> working ch \<or> answering s ch \<or> answered s ch \<or> gone ch \<and> ch_out ch = 0"

definition idle :: "proc_shared \<Rightarrow> child \<Rightarrow> bool" where
  "idle s ch \<longleftrightarrow> (ch_pc ch = Pc_read \<or> gone ch) \<and> ch_in ch = 0 \<and> ch_out ch = 0 \<and> sh_st s = Child_idle"

definition starting :: "proc_shared \<Rightarrow> child \<Rightarrow> bool" where
  "starting s ch \<longleftrightarrow> ch_pc ch = Pc_start \<and> ch_in ch = 1 \<and> ch_out ch = 0 \<and> sh_st s = Child_not_started"

fun proto :: "proc_st \<Rightarrow> proc_shared \<Rightarrow> child \<Rightarrow> bool" where
  "proto Proc_uninit s ch = False"
| "proto Proc_init_pend s ch = (sh_cmd s = Cmd_none \<and> (starting s ch \<or> in_progress s ch))"
| "proto Proc_avail s ch = idle s ch"
| "proto Proc_busy s ch = (sh_cmd s \<noteq> Cmd_none \<and> in_progress s ch)"
| "proto Proc_dead s ch = True"

lemmas proto_defs = gone_def asked_def working_def settled_def answering_def answered_def in_progress_def idle_def starting_def

definition proc_mem :: "proc \<Rightarrow> bool" where
  "proc_mem p \<longleftrightarrow>
     (if pr_st p = Proc_uninit
      then pr_shared p = None \<and> pr_rw_buf p = None \<and> pr_rw_buf_len p = 0 \<and> pr_child p = None \<and> pr_pid p = 0 \<and> pr_fd p = -1
      else \<exists>s b ch. pr_shared p = Some s \<and> pr_rw_buf p = Some b \<and> length b = pr_rw_buf_len p \<and>
        sh_write_len s \<le> pr_rw_buf_len p \<and> pr_child p = Some ch \<and> pr_pid p > 0 \<and> pr_fd p \<noteq> -1 \<and> proto (pr_st p) s ch)"

definition proc_inv :: "proc \<Rightarrow> bool" where
  "proc_inv p \<longleftrightarrow> length (pr_evs p) = proc_evs_maxlen \<and> pr_evs_len p \<le> proc_evs_maxlen \<and> proc_mem p"

lemma proc_mem_upd [simp]:
  "proc_mem (p\<lparr>pr_is_stop_req := x\<rparr>) = proc_mem p" "proc_mem (p\<lparr>pr_fail := f\<rparr>) = proc_mem p"
  "proc_mem (p\<lparr>pr_evs := evs\<rparr>) = proc_mem p" "proc_mem (p\<lparr>pr_evs_len := n\<rparr>) = proc_mem p"
  by (simp_all add: proc_mem_def)

text \<open>A step of the worker, or its sudden end, on the memory behind a \<open>proc\<close>.\<close>

definition child_env_ok :: "child_env \<Rightarrow> string \<Rightarrow> bool" where
  "child_env_ok e b \<longleftrightarrow> (case ce_read e of None \<Rightarrow> True | Some data \<Rightarrow> length data \<le> length b)"

definition proc_child_step :: "sock_io \<Rightarrow> child_env \<Rightarrow> proc \<Rightarrow> proc option" where
  "proc_child_step io e p =
     (case (pr_shared p, pr_rw_buf p, pr_child p) of
        (Some s, Some b, Some ch) \<Rightarrow>
          (case proc_child_worker io e (s, b, ch) of
             None \<Rightarrow> None
           | Some (s', b', ch') \<Rightarrow> Some (p\<lparr>pr_shared := Some s', pr_rw_buf := Some b', pr_child := Some ch'\<rparr>))
      | _ \<Rightarrow> None)"

definition proc_child_killed :: "proc \<Rightarrow> proc" where
  "proc_child_killed p = p\<lparr>pr_child := map_option (\<lambda>ch. ch\<lparr>ch_pc := Pc_exited (-1)\<rparr>) (pr_child p)\<rparr>"

text \<open>What \<^verbatim>\<open>poll\<close> says of the worker's socket is true.\<close>

definition poll_true :: "16 word \<Rightarrow> child option \<Rightarrow> bool" where
  "poll_true revents child \<longleftrightarrow>
     (case child of None \<Rightarrow> True
      | Some ch \<Rightarrow> (died revents \<longrightarrow> gone ch) \<and> (readable revents \<and> \<not> died revents \<longrightarrow> ch_out ch > 0))"

lemma sh_cmd_parent: "shared_parent u = shared_parent s \<Longrightarrow> sh_cmd u = sh_cmd s \<and> sh_write_len u = sh_write_len s"
  by (simp add: shared_parent_def)

lemma child_start_proto:
  assumes "proc_child_worker io e (s, b, ch) = Some (s', b', ch')" "proto st s ch" "ch_pc ch = Pc_start"
  shows "proto st s' ch' \<and> b' = b \<and> shared_parent s' = shared_parent s"
proof (cases "sh_st s = Child_not_started")
  case True
  with assms have "s' = s\<lparr>sh_st := Child_idle\<rparr>" "b' = b" "ch' = ch\<lparr>ch_pc := Pc_read\<rparr>" by simp_all
  with assms(2,3) show ?thesis by (cases st) (simp_all add: proto_defs)
next
  case False
  with assms have "s' = s" "b' = b" "ch' = ch\<lparr>ch_pc := Pc_exited 126\<rparr>" by simp_all
  with assms(2,3) False show ?thesis by (cases st) (simp_all add: proto_defs)
qed

lemma child_read_proto:
  assumes "proc_child_worker io e (s, b, ch) = Some (s', b', ch')" "proto st s ch" "ch_pc ch = Pc_read"
  shows "proto st s' ch' \<and> b' = b \<and> shared_parent s' = shared_parent s"
proof (cases io)
  case Io_done
  with assms have "ch_in ch \<noteq> 0" "s' = s\<lparr>sh_st := Child_busy, sh_res := Res_none\<rparr>" "b' = b"
    "ch' = ch\<lparr>ch_pc := Pc_cmd, ch_in := ch_in ch - 1\<rparr>"
    by (simp_all split: if_splits)
  with assms(2,3) show ?thesis by (cases st) (auto simp: proto_defs)
next
  case Io_error
  with assms have "s' = s" "b' = b" "ch' = ch\<lparr>ch_pc := Pc_exited 1\<rparr>" by simp_all
  with assms(2,3) show ?thesis by (cases st) (auto simp: proto_defs)
qed (use assms in simp)

lemma child_cmd_proto:
  assumes "child_ran s b ch (s', b', ch')" "proto st s ch" "ch_pc ch = Pc_cmd"
  shows "proto st s' ch' \<and> length b' = length b \<and> shared_parent s' = shared_parent s"
proof -
  from assms(1) obtain u r fd calls where u: "s' = u\<lparr>sh_res := r, sh_st := Child_idle\<rparr>" "shared_parent u = shared_parent s"
    "r \<noteq> Res_none" "length b' = length b" "sh_cmd s = Cmd_none \<or> sh_cmd s = Cmd_exit \<longrightarrow> r = Res_ok"
    "ch' = ch\<lparr>ch_pc := Pc_answer (sh_cmd s = Cmd_exit), ch_fd := fd, ch_calls := ch_calls ch @ calls\<rparr>"
    by (auto simp: child_ran_def child_done_def)
  with assms(2,3) sh_cmd_parent[OF u(2)] show ?thesis
    by (cases st) (auto simp: proto_defs)
qed

lemma child_answer_proto:
  assumes "proc_child_worker io e (s, b, ch) = Some (s', b', ch')" "proto st s ch" "ch_pc ch = Pc_answer x"
  shows "proto st s' ch' \<and> b' = b \<and> shared_parent s' = shared_parent s"
proof (cases io)
  case Io_done
  with assms have "b' = b" "s' = (if x then s\<lparr>sh_st := Child_not_started\<rparr> else s)"
    "ch' = ch\<lparr>ch_pc := (if x then Pc_exited 0 else Pc_read), ch_out := ch_out ch + 1\<rparr>"
    by (simp_all split: if_splits)
  with assms(2,3) show ?thesis by (cases st; cases x) (auto simp: proto_defs)
next
  case Io_error
  with assms have "b' = b" "s' = (child_fail s ''write'')\<lparr>sh_st := Child_not_started\<rparr>"
    "ch' = ch\<lparr>ch_pc := Pc_exited 127\<rparr>"
    by simp_all
  with assms(2,3) show ?thesis by (cases st) (auto simp: proto_defs child_fail_def)
qed (use assms in simp)

lemma child_step_proto:
  assumes "proc_child_worker io e (s, b, ch) = Some (s', b', ch')" "proto st s ch" "child_env_ok e b"
  shows "proto st s' ch' \<and> length b' = length b \<and> shared_parent s' = shared_parent s"
proof (cases "ch_pc ch")
  case Pc_cmd
  moreover have "ce_read e = Some data \<Longrightarrow> length data \<le> length b" for data
    using assms(3) by (simp add: child_env_ok_def)
  ultimately have "child_ran s b ch (s', b', ch')"
    using child_run_cmd_ran assms(1) by auto
  from child_cmd_proto[OF this assms(2) Pc_cmd] show ?thesis .
next
  case Pc_start
  from child_start_proto[OF assms(1,2) this] show ?thesis by blast
next
  case Pc_read
  from child_read_proto[OF assms(1,2) this] show ?thesis by blast
next
  case (Pc_answer x)
  from child_answer_proto[OF assms(1,2) this] show ?thesis by blast
qed (use assms(1) in simp)

section \<open>Invariant of a worker\<close>

lemma proc_inv_live:
  assumes "proc_inv p" "pr_st p \<noteq> Proc_uninit"
  obtains s b ch where "pr_shared p = Some s" "pr_rw_buf p = Some b" "length b = pr_rw_buf_len p"
    "sh_write_len s \<le> pr_rw_buf_len p" "pr_child p = Some ch" "pr_pid p > 0" "pr_fd p \<noteq> -1" "proto (pr_st p) s ch"
    "length (pr_evs p) = proc_evs_maxlen" "pr_evs_len p \<le> proc_evs_maxlen"
  using assms by (auto simp: proc_inv_def proc_mem_def)

lemma proc_invI:
  assumes "length (pr_evs p) = proc_evs_maxlen" "pr_evs_len p \<le> proc_evs_maxlen" "pr_st p \<noteq> Proc_uninit"
    "pr_shared p = Some s" "pr_rw_buf p = Some b" "length b = pr_rw_buf_len p"
    "sh_write_len s \<le> pr_rw_buf_len p" "pr_child p = Some ch" "pr_pid p > 0" "pr_fd p \<noteq> -1" "proto (pr_st p) s ch"
  shows "proc_inv p"
  using assms by (simp add: proc_inv_def proc_mem_def)

text \<open>What the operations on the parent's side leave alone.\<close>

definition proc_same :: "proc \<Rightarrow> proc \<Rightarrow> bool" where
  "proc_same p q \<longleftrightarrow> pr_evs q = pr_evs p \<and> pr_evs_len q = pr_evs_len p \<and> pr_is_stop_req q = pr_is_stop_req p"

lemma proc_child_step_inv:
  assumes "proc_child_step io e p = Some q" "proc_inv p" "\<And>b. pr_rw_buf p = Some b \<Longrightarrow> child_env_ok e b"
  shows "proc_inv q \<and> pr_st q = pr_st p \<and> proc_same p q"
proof -
  have "pr_st p \<noteq> Proc_uninit"
    using assms(1,2) by (auto simp: proc_child_step_def proc_inv_def proc_mem_def)
  with assms(2) obtain s b ch where p: "pr_shared p = Some s" "pr_rw_buf p = Some b" "length b = pr_rw_buf_len p"
    "sh_write_len s \<le> pr_rw_buf_len p" "pr_child p = Some ch" "pr_pid p > 0" "pr_fd p \<noteq> -1" "proto (pr_st p) s ch"
    "length (pr_evs p) = proc_evs_maxlen" "pr_evs_len p \<le> proc_evs_maxlen"
    by (rule proc_inv_live)
  from assms(1) p(1,2,5) obtain s' b' ch' where w: "proc_child_worker io e (s, b, ch) = Some (s', b', ch')"
    and q: "q = p\<lparr>pr_shared := Some s', pr_rw_buf := Some b', pr_child := Some ch'\<rparr>"
    by (auto simp: proc_child_step_def split: option.splits prod.splits)
  from child_step_proto[OF w p(8) assms(3)[OF p(2)]]
  have "proto (pr_st p) s' ch'" "length b' = length b" "sh_write_len s' = sh_write_len s"
    by (auto dest: sh_cmd_parent)
  with q p \<open>pr_st p \<noteq> Proc_uninit\<close> show ?thesis by (simp add: proc_inv_def proc_mem_def proc_same_def)
qed

lemma proto_killed: "proto st s ch \<Longrightarrow> proto st s (ch\<lparr>ch_pc := Pc_exited k\<rparr>)"
  by (cases st) (auto simp: proto_defs)

lemma proc_child_killed_inv: "proc_inv p \<Longrightarrow> proc_inv (proc_child_killed p)"
  by (auto simp: proc_inv_def proc_mem_def proc_child_killed_def proto_killed)

lemma proc_notify_child_eq:
  "proc_notify_child io p =
     (if snd io then (afs_ok, child_wake p) else (afs_fail, (proc_fail p ''write'')\<lparr>pr_st := Proc_dead\<rparr>))"
proof -
  have "notify_loop k b p = (if b then (afs_ok, child_wake p) else (afs_fail, (proc_fail p ''write'')\<lparr>pr_st := Proc_dead\<rparr>))" for k b
    by (induction k) auto
  then show ?thesis by (simp add: proc_notify_child_def)
qed

lemma proto_wake: "idle s ch \<Longrightarrow> cmd \<noteq> Cmd_none \<Longrightarrow> proto Proc_busy (s\<lparr>sh_cmd := cmd\<rparr>) (ch\<lparr>ch_in := Suc 0\<rparr>)"
  by (auto simp: proto_defs)

lemma proc_send_cmd_inv:
  assumes "proc_inv p" "cmd \<noteq> Cmd_none"
  shows "safe (proc_send_cmd io p cmd) (\<lambda>(r, q). proc_inv q \<and> proc_same p q \<and> (pr_st q = Proc_uninit \<longleftrightarrow> pr_st p = Proc_uninit) \<and>
    (r = afs_ok \<longleftrightarrow> pr_st p = Proc_avail \<and> snd io))"
proof (cases "pr_st p = Proc_avail")
  case True
  with assms(1) obtain s b ch where p: "pr_shared p = Some s" "pr_rw_buf p = Some b" "length b = pr_rw_buf_len p"
    "sh_write_len s \<le> pr_rw_buf_len p" "pr_child p = Some ch" "pr_pid p > 0" "pr_fd p \<noteq> -1" "proto (pr_st p) s ch"
    "length (pr_evs p) = proc_evs_maxlen" "pr_evs_len p \<le> proc_evs_maxlen"
    by (auto elim: proc_inv_live)
  from p(8) True have i: "idle s ch" "ch_in ch = 0" "sh_st s = Child_idle" by (auto simp: idle_def)
  with p True proto_wake[OF i(1) assms(2)] show ?thesis
    by (simp add: proc_send_cmd_def proc_notify_child_eq child_wake_def proc_fail_def proc_inv_def proc_mem_def proc_same_def)
qed (use assms in \<open>auto simp: proc_send_cmd_def proc_fail_def proc_inv_def proc_mem_def proc_same_def\<close>)

definition spawn_env_ok :: "spawn_env \<Rightarrow> bool" where
  "spawn_env_ok e \<longleftrightarrow> se_pgs e > 0 \<and> (case se_socketpair e of None \<Rightarrow> True | Some sv \<Rightarrow> fst sv \<noteq> -1) \<and>
     (case se_fork e of None \<Rightarrow> True | Some pid \<Rightarrow> pid > 0)"

text \<open>The mapping is the least multiple of the page size that holds the struct and the buffer.\<close>

lemma mmap_len_least:
  assumes "0 < pgs"
  shows "pgs dvd mmap_len pgs \<and> proc_shared_size + rw_buf_len \<le> mmap_len pgs \<and> mmap_len pgs < proc_shared_size + rw_buf_len + pgs"
proof -
  let ?n = "proc_shared_size + rw_buf_len - 1"
  have "mmap_len pgs = ?n - ?n mod pgs + pgs"
    by (simp add: mmap_len_def minus_mod_eq_div_mult)
  moreover have "?n mod pgs < pgs" "?n mod pgs \<le> ?n" "1 \<le> proc_shared_size + rw_buf_len"
    using assms by (simp_all add: proc_shared_size_def)
  ultimately have "proc_shared_size + rw_buf_len \<le> mmap_len pgs" "mmap_len pgs < proc_shared_size + rw_buf_len + pgs"
    by linarith+
  then show ?thesis by (simp add: mmap_len_def)
qed

lemma proc_init_inv:
  assumes "proc_init e p = (r, q)" "length (pr_evs p) = proc_evs_maxlen" "spawn_env_ok e"
  shows "pr_evs_len q = 0 \<and> length (pr_evs q) = proc_evs_maxlen \<and> (r = afs_ok \<longrightarrow> proc_inv q \<and> pr_st q = Proc_init_pend)"
proof -
  have "proto Proc_init_pend shared_fresh (child_forked\<lparr>ch_in := Suc 0\<rparr>)"
    by (simp add: proto_defs shared_fresh_def child_forked_def)
  moreover have "ch_in child_forked = 0" "sh_write_len shared_fresh = 0"
    by (simp_all add: child_forked_def shared_fresh_def)
  ultimately show ?thesis
    using assms by (auto simp: proc_init_def proc_fail_def proc_notify_child_eq child_wake_def proc_inv_def proc_mem_def spawn_env_ok_def Let_def
        split: option.splits if_splits)
qed

lemma waitpid_loop_eq [simp]: "waitpid_loop k p = p\<lparr>pr_child := None\<rparr>"
  by (induction k) auto

lemma proc_destroy_child_inv:
  assumes "proc_inv p" "pr_st p \<noteq> Proc_uninit"
  shows "proc_inv (proc_destroy_child k p) \<and> pr_st (proc_destroy_child k p) = Proc_uninit \<and> proc_same p (proc_destroy_child k p)"
  using assms by (auto simp: proc_destroy_child_def proc_inv_def proc_mem_def proc_same_def Let_def)

lemma proc_must_add_ev_eq:
  "pr_evs_len p < proc_evs_maxlen \<Longrightarrow>
   proc_must_add_ev p ty =
     Inr (p\<lparr>pr_evs := (pr_evs p)[pr_evs_len p := (pr_evs p ! pr_evs_len p)\<lparr>ev_ty := ty, ev_fd := -1\<rparr>], pr_evs_len := Suc (pr_evs_len p)\<rparr>)"
  by (simp add: proc_must_add_ev_def proc_add_ev_def)

lemma proc_inv_upd [simp]:
  "proc_inv (p\<lparr>pr_is_stop_req := x\<rparr>) = proc_inv p" "proc_inv (p\<lparr>pr_fail := f\<rparr>) = proc_inv p"
  "proc_inv (proc_fail p m) = proc_inv p"
  by (simp_all add: proc_inv_def proc_fail_def)

lemma proc_inv_evs:
  "proc_inv p \<Longrightarrow> n \<le> proc_evs_maxlen \<Longrightarrow> length evs = proc_evs_maxlen \<Longrightarrow> proc_inv (p\<lparr>pr_evs := evs, pr_evs_len := n\<rparr>)"
  "proc_inv p \<Longrightarrow> n \<le> proc_evs_maxlen \<Longrightarrow> proc_inv (p\<lparr>pr_evs_len := n\<rparr>)"
  by (simp_all add: proc_inv_def)

lemma proc_inv_evs_length: "proc_inv p \<Longrightarrow> length (pr_evs p) = proc_evs_maxlen"
  by (simp add: proc_inv_def proc_mem_def)

text \<open>What an update keeps: the invariant, and how many events there can be.\<close>

definition proc_updated :: "afs_res \<times> proc \<Rightarrow> bool" where
  "proc_updated rq \<longleftrightarrow> (case rq of (r, q) \<Rightarrow> proc_inv q \<and> pr_evs_len q \<le> 2 \<and>
     (r \<noteq> afs_ok \<longrightarrow> pr_st q = Proc_uninit \<or> pr_st q = Proc_dead))"

lemma proc_destroy_child_simps [simp]:
  "pr_st (proc_destroy_child k p) = Proc_uninit" "pr_evs (proc_destroy_child k p) = pr_evs p"
  "pr_evs_len (proc_destroy_child k p) = pr_evs_len p" "pr_is_stop_req (proc_destroy_child k p) = pr_is_stop_req p"
  "pr_shared (proc_destroy_child k p) = None"
  by (simp_all add: proc_destroy_child_def Let_def)

lemma proc_fail_simps [simp]:
  "pr_st (proc_fail p m) = pr_st p" "pr_evs (proc_fail p m) = pr_evs p" "pr_evs_len (proc_fail p m) = pr_evs_len p"
  "pr_is_stop_req (proc_fail p m) = pr_is_stop_req p"
  by (simp_all add: proc_fail_def)

lemma proc_destroyed_inv:
  "length (pr_evs p) = proc_evs_maxlen \<Longrightarrow> pr_evs_len p \<le> proc_evs_maxlen \<Longrightarrow> pr_pid p > 0 \<Longrightarrow> proc_inv (proc_destroy_child k p)"
  by (simp add: proc_inv_def proc_mem_def proc_destroy_child_def Let_def)

lemma proc_update_avail_ok:
  assumes "proc_inv p" "pr_st p = Proc_avail" "pr_evs_len p = 0"
  shows "safe (proc_update_avail e p r) proc_updated"
  using assms proc_destroy_child_inv[of p] by (simp add: proc_update_avail_def proc_updated_def)

lemma proc_update_dead_ok:
  assumes "proc_inv p" "pr_st p = Proc_dead" "pr_evs_len p = 0"
  shows "safe (proc_update_dead e p) proc_updated"
  using assms proc_inv_evs_length[OF assms(1)]
  by (auto simp: proc_update_dead_def proc_updated_def proc_must_add_ev_eq proc_evs_maxlen_def
      intro!: proc_destroyed_inv elim!: proc_inv_live)

lemma proto_started:
  "proto Proc_init_pend s ch \<Longrightarrow> ch_out ch > 0 \<Longrightarrow> sh_res s = Res_ok \<and> idle s (ch\<lparr>ch_out := ch_out ch - 1\<rparr>)"
  by (auto simp: proto_defs)

lemma proc_update_init_pend_ok:
  assumes "proc_inv p" "pr_st p = Proc_init_pend" "pr_evs_len p = 0" "poll_true r (pr_child p)"
  shows "safe (proc_update_init_pend e p r) (\<lambda>q. proc_updated q \<and>
     (\<not> pr_is_stop_req p \<and> \<not> died r \<longrightarrow> fst q = afs_ok))"
proof -
  from assms(1,2) obtain s b ch where p: "pr_shared p = Some s" "pr_rw_buf p = Some b" "length b = pr_rw_buf_len p"
    "sh_write_len s \<le> pr_rw_buf_len p" "pr_child p = Some ch" "pr_pid p > 0" "pr_fd p \<noteq> -1" "proto (pr_st p) s ch"
    "length (pr_evs p) = proc_evs_maxlen" "pr_evs_len p \<le> proc_evs_maxlen"
    by (auto elim: proc_inv_live)
  have started: "\<not> died r \<Longrightarrow> readable r \<Longrightarrow> sh_res s = Res_ok \<and> idle s (ch\<lparr>ch_out := ch_out ch - 1\<rparr>)"
    using proto_started[of s ch] p(5,8) assms(2,4) by (simp add: poll_true_def)
  show ?thesis
    using p assms started
    by (auto simp: proc_update_init_pend_def proc_updated_def proc_must_add_ev_eq proc_evs_maxlen_def with_shared_def
        proc_read_byte_def Let_def proc_inv_def proc_mem_def proc_destroy_child_def proc_fail_def)
qed

lemma proto_finished:
  "proto Proc_busy s ch \<Longrightarrow> ch_out ch > 0 \<Longrightarrow>
   sh_cmd s \<noteq> Cmd_none \<and> sh_res s \<noteq> Res_none \<and> (sh_cmd s = Cmd_exit \<longrightarrow> sh_res s = Res_ok) \<and>
   (sh_cmd s \<noteq> Cmd_exit \<longrightarrow> idle s (ch\<lparr>ch_out := ch_out ch - 1\<rparr>))"
  by (auto simp: proto_defs)

lemma idle_cmd [simp]: "idle (s\<lparr>sh_cmd := cmd\<rparr>) ch = idle s ch"
  by (simp add: idle_def)

lemma proc_update_free_ok:
  assumes "length (pr_evs p) = proc_evs_maxlen" "pr_evs_len p \<le> 2" "pr_shared p = Some s" "pr_rw_buf p = Some b"
    "length b = pr_rw_buf_len p" "sh_write_len s \<le> pr_rw_buf_len p" "pr_child p = Some ch" "pr_pid p > 0" "pr_fd p \<noteq> -1"
    "idle s ch"
  shows "safe (proc_update_free e p) proc_updated"
proof -
  have i: "proc_inv (p\<lparr>pr_st := Proc_avail\<rparr>)"
    using assms by (simp add: proc_inv_def proc_mem_def proc_evs_maxlen_def)
  have "sh_st s = Child_idle" using assms(10) by (simp add: idle_def)
  then have "safe (proc_send_cmd (ue_exit e) (p\<lparr>pr_st := Proc_avail\<rparr>) Cmd_exit)
      (\<lambda>(r, q). r \<noteq> afs_ok \<longrightarrow> pr_st q = Proc_dead)"
    using assms(3) by (simp add: proc_send_cmd_def proc_notify_child_eq)
  with proc_send_cmd_inv[OF i, of Cmd_exit "ue_exit e"] have "safe (proc_send_cmd (ue_exit e) (p\<lparr>pr_st := Proc_avail\<rparr>) Cmd_exit)
      proc_updated"
    using assms(2) by (auto simp: safe_iff proc_updated_def proc_same_def)
  with i assms(2) show ?thesis by (simp add: proc_update_free_def proc_updated_def Let_def)
qed

lemma proc_update_busy_ok:
  assumes "proc_inv p" "pr_st p = Proc_busy" "pr_evs_len p = 0" "poll_true r (pr_child p)"
  shows "safe (proc_update_busy e p r) proc_updated"
proof -
  from assms(1,2) obtain s b ch where p: "pr_shared p = Some s" "pr_rw_buf p = Some b" "length b = pr_rw_buf_len p"
    "sh_write_len s \<le> pr_rw_buf_len p" "pr_child p = Some ch" "pr_pid p > 0" "pr_fd p \<noteq> -1" "proto (pr_st p) s ch"
    "length (pr_evs p) = proc_evs_maxlen" "pr_evs_len p \<le> proc_evs_maxlen"
    by (auto elim: proc_inv_live)
  have fin: "\<not> died r \<Longrightarrow> readable r \<Longrightarrow> sh_cmd s \<noteq> Cmd_none \<and> sh_res s \<noteq> Res_none \<and> (sh_cmd s = Cmd_exit \<longrightarrow> sh_res s = Res_ok) \<and>
   (sh_cmd s \<noteq> Cmd_exit \<longrightarrow> idle s (ch\<lparr>ch_out := ch_out ch - 1\<rparr>))"
    using proto_finished[of s ch] p(5,8) assms(2,4) by (simp add: poll_true_def)
  show ?thesis
  proof (cases "died r \<or> \<not> readable r \<or> sh_cmd s = Cmd_exit")
    case True
    with p assms fin show ?thesis
      by (auto simp: proc_update_busy_def with_shared_def proc_must_add_ev_eq proc_evs_maxlen_def proc_read_byte_def Let_def
          proc_updated_def intro!: proc_destroyed_inv)
  next
    case False
    show ?thesis
    proof (cases "sh_res s = Res_ok")
      case True
      show ?thesis
        using p assms fin True False
        by (auto simp: proc_update_busy_def with_shared_def proc_must_add_ev_eq proc_evs_maxlen_def proc_read_byte_def Let_def
            proc_fill_ev_def intro!: proc_update_free_ok[where b=b and s="s\<lparr>sh_cmd := Cmd_none\<rparr>" and ch="ch\<lparr>ch_out := ch_out ch - 1\<rparr>"])
    next
      case bad: False
      show ?thesis
        using p assms fin bad False
        by (auto simp: proc_update_busy_def with_shared_def proc_must_add_ev_eq proc_evs_maxlen_def proc_read_byte_def Let_def
            intro!: proc_update_free_ok[where b=b and s=s and ch="ch\<lparr>ch_out := ch_out ch - 1\<rparr>"])
    qed
  qed
qed

definition proc_polled :: "proc \<Rightarrow> pollfd list \<Rightarrow> 16 word" where
  "proc_polled p fds = (if pr_fd p \<noteq> -1 then proc_revents fds (pr_fd p) 0 else 0)"

lemma proc_update_ok:
  assumes "proc_inv p" "poll_true (proc_polled p fds) (pr_child p)"
  shows "safe (proc_update e p fds) proc_updated"
proof -
  let ?p = "p\<lparr>pr_evs_len := 0\<rparr>"
  have i: "proc_inv ?p" "pr_evs_len ?p = 0" "poll_true (proc_polled p fds) (pr_child ?p)"
    using assms by (simp_all add: proc_inv_evs)
  show ?thesis
  proof (cases "pr_st p")
    case Proc_uninit
    with assms(1) show ?thesis
      by (simp add: proc_update_def Let_def proc_must_add_ev_eq proc_evs_maxlen_def proc_updated_def proc_inv_def proc_fail_def)
  next
    case Proc_init_pend
    with proc_update_init_pend_ok[OF i(1) _ i(2,3), of e] show ?thesis
      by (auto simp: proc_update_def Let_def proc_polled_def elim: safe_mono)
  next
    case Proc_avail
    with proc_update_avail_ok[OF i(1) _ i(2), of e] show ?thesis
      by (simp add: proc_update_def Let_def proc_polled_def)
  next
    case Proc_busy
    with proc_update_busy_ok[OF i(1) _ i(2,3), of e] show ?thesis
      by (simp add: proc_update_def Let_def proc_polled_def)
  next
    case Proc_dead
    with proc_update_dead_ok[OF i(1) _ i(2), of e] show ?thesis
      by (simp add: proc_update_def Let_def proc_polled_def)
  qed
qed

lemma proc_stop_prep_inv:
  assumes "proc_inv p"
  shows "safe (proc_stop_prep io p) (\<lambda>(r, q). proc_inv q \<and> pr_is_stop_req q \<and> (pr_st q = Proc_uninit \<longleftrightarrow> pr_st p = Proc_uninit))"
proof -
  have i: "proc_inv (p\<lparr>pr_is_stop_req := True\<rparr>)" using assms by simp
  from proc_send_cmd_inv[OF i, of Cmd_exit io] assms show ?thesis
    by (auto simp: proc_stop_prep_def Let_def proc_same_def elim!: safe_mono)
qed

end
