(* ===== verification/Afs.thy ===== *)
theory Afs
  imports Afs_Proc
begin

text \<open>
  The asynchronous file module (\<^verbatim>\<open>src/src/afs.h\<close>, \<^verbatim>\<open>src/src/afs.c\<close>): the list of workers, the
  operations of the interface, and the update that turns the workers' answers into events.
\<close>

section \<open>Types\<close>

record ps =
  ps_fd :: int
  ps_p :: proc
  ps_cmd_after_init :: proc_cmd
  ps_is_avail :: bool

text \<open>
  \<^verbatim>\<open>struct afs_ctx\<close>. The linked list \<^verbatim>\<open>ps\<close> is a list, a pointer into it a position. The arrays
  \<open>ac_pfds\<close> and \<open>ac_evs\<close> are whole, \<open>None\<close> is NULL. \<open>ac_freed\<close> are the elements given to
  \<^verbatim>\<open>free\<close>, as they were then.
\<close>

record afs_ctx =
  ac_fail :: sob_fail
  ac_is_stop_req :: bool
  ac_ps :: "ps list"
  ac_pfds :: "pollfd list option"
  ac_pfds_maxlen :: nat
  ac_pfds_len :: nat
  ac_evs :: "afs_ev list option"
  ac_evs_maxlen :: nat
  ac_evs_len :: nat
  ac_freed :: "ps list"

definition evs_pfds_prealloc_len :: nat where "evs_pfds_prealloc_len = 2"

definition afs_set_fail :: "afs_ctx \<Rightarrow> string \<Rightarrow> afs_ctx" where
  "afs_set_fail c msg = c\<lparr>ac_fail := msg\<rparr>"

definition afs_get_fail :: "afs_ctx \<Rightarrow> sob_fail" where
  "afs_get_fail c = ac_fail c"

definition afs_init :: "afs_ctx \<Rightarrow> afs_ctx" where
  "afs_init c = c\<lparr>ac_is_stop_req := False, ac_ps := [], ac_pfds := None, ac_pfds_maxlen := 0, ac_pfds_len := 0,
     ac_evs := None, ac_evs_maxlen := 0, ac_evs_len := 0\<rparr>"

definition ps_upd :: "afs_ctx \<Rightarrow> nat \<Rightarrow> ps \<Rightarrow> afs_ctx" where
  "ps_upd c i x = c\<lparr>ac_ps := (ac_ps c)[i := x]\<rparr>"

section \<open>The list of workers\<close>

fun ps_find :: "ps list \<Rightarrow> int \<Rightarrow> nat option" where
  "ps_find [] fd = None"
| "ps_find (x # xs) fd = (if ps_fd x = fd then Some 0 else map_option Suc (ps_find xs fd))"

definition ps_get :: "afs_ctx \<Rightarrow> int \<Rightarrow> nat option" where
  "ps_get c fd = ps_find (ac_ps c) fd"

fun ps_next_from :: "ps list \<Rightarrow> int \<Rightarrow> int outcome" where
  "ps_next_from [] fd = Inr fd"
| "ps_next_from (x # xs) fd =
     (if ps_fd x \<ge> fd then and_then (c_int (ps_fd x + 1)) (ps_next_from xs) else ps_next_from xs fd)"

definition ps_next_fd :: "afs_ctx \<Rightarrow> int outcome" where
  "ps_next_fd c = ps_next_from (ac_ps c) 0"

definition ps_len :: "afs_ctx \<Rightarrow> nat" where
  "ps_len c = length (ac_ps c)"

definition ps_del :: "afs_ctx \<Rightarrow> int \<Rightarrow> afs_res \<times> afs_ctx" where
  "ps_del c fd =
     (case ps_find (ac_ps c) fd of
        None \<Rightarrow> (afs_fail_bad_fd, afs_set_fail c ''fd not found (no errno)'')
      | Some j \<Rightarrow> (afs_ok, c\<lparr>ac_ps := take j (ac_ps c) @ drop (Suc j) (ac_ps c), ac_freed := ac_freed c @ [ac_ps c ! j]\<rparr>))"

text \<open>
  What the allocator and the system answer when a worker is taken: the memory of the new
  element, with whatever it holds, if there is any; whether the arrays can grow; the start of
  the worker.
\<close>

record alloc_env =
  ae_ps :: "ps option"
  ae_pfds :: bool
  ae_evs :: bool
  ae_spawn :: spawn_env

definition pollfd_zero :: pollfd where
  "pollfd_zero = \<lparr>pfd_fd = 0, pfd_events = 0, pfd_revents = 0\<rparr>"

definition afs_ev_zero :: afs_ev where
  "afs_ev_zero = \<lparr>ev_ty = afs_ev_init, ev_fd = 0, ev_len = 0, ev_data = None\<rparr>"

definition ps_grow_pfds :: "bool \<Rightarrow> afs_ctx \<Rightarrow> nat \<Rightarrow> bool \<times> afs_ctx" where
  "ps_grow_pfds ok c n =
     (if ac_pfds_maxlen c < n then
        let m = n + evs_pfds_prealloc_len in
        if \<not> ok then (False, afs_set_fail c ''malloc pfds'')
        else (True, c\<lparr>ac_pfds := Some (replicate m pollfd_zero), ac_pfds_maxlen := m\<rparr>)
      else (True, c))"

definition ps_grow_evs :: "bool \<Rightarrow> afs_ctx \<Rightarrow> nat \<Rightarrow> bool \<times> afs_ctx" where
  "ps_grow_evs ok c n =
     (if ac_evs_maxlen c < n * proc_evs_maxlen then
        let m = (n + evs_pfds_prealloc_len) * proc_evs_maxlen in
        if \<not> ok then (False, afs_set_fail c ''malloc evs'')
        else (True, c\<lparr>ac_evs := Some (replicate m afs_ev_zero), ac_evs_maxlen := m\<rparr>)
      else (True, c))"

definition ps_add :: "alloc_env \<Rightarrow> afs_ctx \<Rightarrow> (nat option \<times> afs_ctx) outcome" where
  "ps_add e c =
     (let n = ps_len c + 1 in
      case ae_ps e of
        None \<Rightarrow> Inr (None, afs_set_fail c ''malloc ps'')
      | Some x \<Rightarrow>
          case ps_grow_pfds (ae_pfds e) c n of (ok, c) \<Rightarrow>
          if \<not> ok then Inr (None, c)
          else case ps_grow_evs (ae_evs e) c n of (ok, c) \<Rightarrow>
          if \<not> ok then Inr (None, c)
          else and_then (ps_next_fd c) (\<lambda>fd.
            let x = x\<lparr>ps_fd := (if ac_ps c = [] then 0 else fd), ps_cmd_after_init := Cmd_none, ps_is_avail := False\<rparr> in
            Inr (Some (length (ac_ps c)), c\<lparr>ac_ps := ac_ps c @ [x]\<rparr>)))"

text \<open>The flag of the result is \<^verbatim>\<open>was_init\<close>.\<close>

definition maybe_alloc_ps :: "alloc_env \<Rightarrow> afs_ctx \<Rightarrow> ((nat \<times> bool) option \<times> afs_ctx) outcome" where
  "maybe_alloc_ps e c =
     (case ps_get c (-1) of
        Some i \<Rightarrow>
          let x = ac_ps c ! i in
          (case (if pr_st (ps_p x) = Proc_uninit then proc_init (ae_spawn e) (ps_p x) else (afs_ok, ps_p x)) of (r, p) \<Rightarrow>
           if r \<noteq> afs_ok then Inr (None, snd (ps_del (afs_set_fail (ps_upd c i (x\<lparr>ps_p := p\<rparr>)) (pr_fail p)) (-1)))
           else
             let c' = ps_upd c i (x\<lparr>ps_p := p\<rparr>) in
             and_then (ps_next_fd c') (\<lambda>fd.
             Inr (Some (i, pr_st (ps_p x) \<noteq> Proc_uninit), ps_upd c' i (x\<lparr>ps_p := p, ps_fd := fd\<rparr>))))
      | None \<Rightarrow>
          and_then (ps_add e c) (\<lambda>(r, c).
          case r of
            None \<Rightarrow> Inr (None, c)
          | Some i \<Rightarrow>
              let x = ac_ps c ! i in
              case proc_init (ae_spawn e) (ps_p x) of (r, p) \<Rightarrow>
              let c' = ps_upd c i (x\<lparr>ps_p := p\<rparr>) in
              if r \<noteq> afs_ok then Inr (None, snd (ps_del (afs_set_fail c' (pr_fail p)) (ps_fd x)))
              else Inr (Some (i, False), c')))"

section \<open>Requests\<close>

text \<open>
  A request returns its result, the context, and what it stored through its out-parameters.
  \<^verbatim>\<open>strcpy\<close> writes the path and its terminator.
\<close>

definition buf_put :: "string option \<Rightarrow> nat \<Rightarrow> string \<Rightarrow> string option outcome" where
  "buf_put b at s =
     (case b of
        None \<Rightarrow> Inl Null_deref
      | Some b \<Rightarrow> if at + length s \<le> length b then Inr (Some (overwrite b at s)) else Inl Out_of_bounds)"

text \<open>The result of a command sent to worker \<open>i\<close>; \<^verbatim>\<open>afs_open\<close> and its like copy the failure.\<close>

definition ps_sent :: "bool \<Rightarrow> afs_ctx \<Rightarrow> nat \<Rightarrow> ps \<Rightarrow> (afs_res \<times> proc) outcome \<Rightarrow> (afs_res \<times> afs_ctx) outcome" where
  "ps_sent copy c i x m =
     and_then m (\<lambda>(r, p).
     Inr (r, (if copy then afs_set_fail (ps_upd c i (x\<lparr>ps_p := p\<rparr>)) (pr_fail p) else ps_upd c i (x\<lparr>ps_p := p\<rparr>))))"

definition afs_get_rw_buf :: "afs_ctx \<Rightarrow> int \<Rightarrow> afs_res \<times> afs_ctx \<times> (string option \<times> nat) option" where
  "afs_get_rw_buf c fd =
     (if fd \<noteq> -1 then
        case ps_get c fd of
          None \<Rightarrow> (afs_fail_bad_fd, afs_set_fail c ''fd not found (no errno)'', None)
        | Some i \<Rightarrow> (afs_ok, c, Some (pr_rw_buf (ps_p (ac_ps c ! i)), pr_rw_buf_len (ps_p (ac_ps c ! i))))
      else (afs_fail_bad_fd, afs_set_fail c ''bad fd (no errno)'', None))"

definition afs_open ::
  "alloc_env \<Rightarrow> io_end \<Rightarrow> afs_ctx \<Rightarrow> string \<Rightarrow> int \<Rightarrow> (afs_res \<times> afs_ctx \<times> int option) outcome" where
  "afs_open e io c path flags =
     and_then (maybe_alloc_ps e c) (\<lambda>(a, c).
     case a of
       None \<Rightarrow> Inr (afs_fail_alloc, c, None)
     | Some (i, was_init) \<Rightarrow>
         let x = ac_ps c ! i; p = ps_p x in
         if length path + 1 > pr_rw_buf_len p
         then Inr (afs_fail_bad_arg, afs_set_fail c ''path does not fit in rw_buf (no errno)'', None)
         else if pr_rw_buf p = None then sob_panic
         else case pr_shared p of
           None \<Rightarrow> sob_panic
         | Some s \<Rightarrow>
             and_then (buf_put (pr_rw_buf p) 0 (path @ [NUL])) (\<lambda>b.
             let p = p\<lparr>pr_rw_buf := b, pr_shared := Some (s\<lparr>sh_open_flags := flags\<rparr>)\<rparr> in
             if was_init then and_then (ps_sent True c i x (proc_open io p)) (\<lambda>(r, c). Inr (r, c, Some (ps_fd x)))
             else Inr (afs_ok, ps_upd c i (x\<lparr>ps_p := p, ps_is_avail := False, ps_cmd_after_init := Cmd_open\<rparr>), Some (ps_fd x))))"

definition afs_close :: "io_end \<Rightarrow> afs_ctx \<Rightarrow> int \<Rightarrow> (afs_res \<times> afs_ctx) outcome" where
  "afs_close io c fd =
     (if fd \<noteq> -1 then
        case ps_get c fd of
          None \<Rightarrow> Inr (afs_fail_bad_fd, afs_set_fail c ''bad fd (no errno)'')
        | Some i \<Rightarrow>
            let x = ac_ps c ! i in
            if \<not> ps_is_avail x then Inr (afs_fail_bad_fd, afs_set_fail c ''bad fd (no errno)'')
            else ps_sent False c i x (proc_close io (ps_p x))
      else Inr (afs_fail_bad_fd, c))"

definition afs_fsync :: "io_end \<Rightarrow> afs_ctx \<Rightarrow> int \<Rightarrow> (afs_res \<times> afs_ctx) outcome" where
  "afs_fsync io c fd =
     (if fd \<noteq> -1 then
        case ps_get c fd of
          None \<Rightarrow> Inr (afs_fail_bad_fd, afs_set_fail c ''bad fd (no errno)'')
        | Some i \<Rightarrow>
            let x = ac_ps c ! i in
            if \<not> ps_is_avail x then Inr (afs_fail_bad_fd, afs_set_fail c ''bad fd (no errno)'')
            else ps_sent False c i x (proc_fsync io (ps_p x))
      else Inr (afs_fail_bad_fd, c))"

definition afs_write :: "io_end \<Rightarrow> afs_ctx \<Rightarrow> int \<Rightarrow> nat \<Rightarrow> (afs_res \<times> afs_ctx) outcome" where
  "afs_write io c fd len =
     (if fd \<noteq> -1 then
        case ps_get c fd of
          None \<Rightarrow> Inr (afs_fail_bad_fd, afs_set_fail c ''bad fd (no errno)'')
        | Some i \<Rightarrow>
            let x = ac_ps c ! i; p = ps_p x in
            if \<not> ps_is_avail x then Inr (afs_fail_bad_fd, afs_set_fail c ''bad fd (no errno)'')
            else case pr_shared p of
              None \<Rightarrow> Inr (afs_fail, afs_set_fail c ''shared is NULL (no errno)'')
            | Some s \<Rightarrow>
                if len > pr_rw_buf_len p then Inr (afs_fail_bad_arg, afs_set_fail c ''write len out of bounds (no errno)'')
                else ps_sent False c i x (proc_write io (p\<lparr>pr_shared := Some (s\<lparr>sh_write_len := len\<rparr>)\<rparr>))
      else Inr (afs_fail_bad_fd, c))"

definition afs_readall :: "io_end \<Rightarrow> afs_ctx \<Rightarrow> int \<Rightarrow> (afs_res \<times> afs_ctx) outcome" where
  "afs_readall io c fd =
     (if fd \<noteq> -1 then
        case ps_get c fd of
          None \<Rightarrow> Inr (afs_fail_bad_fd, c)
        | Some i \<Rightarrow>
            let x = ac_ps c ! i in
            if \<not> ps_is_avail x then Inr (afs_fail_bad_fd, c)
            else ps_sent False c i x (proc_readall io (ps_p x))
      else Inr (afs_fail_bad_fd, c))"

definition afs_mkdir ::
  "alloc_env \<Rightarrow> io_end \<Rightarrow> afs_ctx \<Rightarrow> string \<Rightarrow> (afs_res \<times> afs_ctx \<times> int option) outcome" where
  "afs_mkdir e io c path =
     and_then (maybe_alloc_ps e c) (\<lambda>(a, c).
     case a of
       None \<Rightarrow> Inr (afs_fail_alloc, c, None)
     | Some (i, was_init) \<Rightarrow>
         let x = ac_ps c ! i; p = ps_p x in
         if length path + 1 > pr_rw_buf_len p
         then Inr (afs_fail_bad_arg, afs_set_fail c ''path does not fit in rw_buf (no errno)'', None)
         else if pr_rw_buf p = None then sob_panic
         else if pr_shared p = None then sob_panic
         else
           and_then (buf_put (pr_rw_buf p) 0 (path @ [NUL])) (\<lambda>b.
           let p = p\<lparr>pr_rw_buf := b\<rparr> in
           if was_init then and_then (ps_sent True c i x (proc_mkdir io p)) (\<lambda>(r, c). Inr (r, c, Some (ps_fd x)))
           else Inr (afs_ok, ps_upd c i (x\<lparr>ps_p := p, ps_is_avail := False, ps_cmd_after_init := Cmd_mkdir\<rparr>), Some (ps_fd x))))"

definition afs_reserve :: "alloc_env \<Rightarrow> afs_ctx \<Rightarrow> (afs_res \<times> afs_ctx \<times> int option) outcome" where
  "afs_reserve e c =
     and_then (maybe_alloc_ps e c) (\<lambda>(a, c).
     case a of
       None \<Rightarrow> Inr (afs_fail_alloc, c, None)
     | Some (i, was_init) \<Rightarrow> Inr (afs_ok, c, Some (ps_fd (ac_ps c ! i))))"

text \<open>
  \<open>write_len\<close> is a \<^verbatim>\<open>size_t\<close>, and the sum with the length of the path wraps around before it is
  compared with the length of the buffer.
\<close>

definition afs_write_fsync_close ::
  "io_end \<Rightarrow> afs_ctx \<Rightarrow> int \<Rightarrow> string \<Rightarrow> int \<Rightarrow> nat \<Rightarrow> (afs_res \<times> afs_ctx) outcome" where
  "afs_write_fsync_close io c fd path flags write_len =
     (if fd = -1 then Inr (afs_fail_bad_fd, afs_set_fail c ''bad fd (no errno)'')
      else case ps_get c fd of
        None \<Rightarrow> Inr (afs_fail_bad_fd, afs_set_fail c ''fd not found (no errno)'')
      | Some i \<Rightarrow>
          let x = ac_ps c ! i; p = ps_p x in
          case pr_shared p of
            None \<Rightarrow> Inr (afs_fail, afs_set_fail c ''shared or rw_buf is NULL (no errno)'')
          | Some s \<Rightarrow>
            if pr_rw_buf p = None then Inr (afs_fail, afs_set_fail c ''shared or rw_buf is NULL (no errno)'')
            else if (write_len + (length path + 1)) mod 2 ^ 64 \<le> pr_rw_buf_len p then
              and_then (buf_put (pr_rw_buf p) write_len (path @ [NUL])) (\<lambda>b.
              let p = p\<lparr>pr_shared := Some (s\<lparr>sh_open_flags := flags, sh_write_len := write_len\<rparr>), pr_rw_buf := b\<rparr> in
              if pr_st p = Proc_avail then ps_sent True c i x (proc_write_fsync_close io p)
              else if pr_st p = Proc_uninit \<or> pr_st p = Proc_init_pend then
                Inr (afs_ok, ps_upd c i (x\<lparr>ps_p := p, ps_is_avail := False, ps_cmd_after_init := Cmd_write_fsync_close\<rparr>))
              else Inr (afs_fail, afs_set_fail (ps_upd c i (x\<lparr>ps_p := p\<rparr>)) ''proc busy or dead (no errno)''))
            else Inr (afs_fail_bad_arg, afs_set_fail c ''write len and path don't fit in the buf (no errno)''))"

section \<open>Stop\<close>

text \<open>The worker at position \<open>i\<close> gets the message \<open>ios i\<close>.\<close>

fun stop_prep_loop :: "(nat \<Rightarrow> io_end) \<Rightarrow> nat \<Rightarrow> nat \<Rightarrow> afs_res \<Rightarrow> afs_ctx \<Rightarrow> (afs_res \<times> afs_ctx) outcome" where
  "stop_prep_loop ios i 0 res c = Inr (res, c)"
| "stop_prep_loop ios i (Suc n) res c =
     (let x = ac_ps c ! i in
      and_then (proc_stop_prep (ios i) (ps_p x)) (\<lambda>(r, p).
      let c = ps_upd c i (x\<lparr>ps_p := p\<rparr>) in
      if r \<noteq> afs_ok then stop_prep_loop ios (Suc i) n r (afs_set_fail c (pr_fail p))
      else stop_prep_loop ios (Suc i) n res c))"

definition afs_stop_prep :: "(nat \<Rightarrow> io_end) \<Rightarrow> afs_ctx \<Rightarrow> (afs_res \<times> afs_ctx) outcome" where
  "afs_stop_prep ios c =
     (if \<not> ac_is_stop_req c then stop_prep_loop ios 0 (length (ac_ps c)) afs_ok (c\<lparr>ac_is_stop_req := True\<rparr>)
      else Inr (afs_fail, afs_set_fail c ''stop_prep already pending (no errno)''))"

fun stop_loop :: "ps list \<Rightarrow> afs_res \<Rightarrow> afs_ctx \<Rightarrow> afs_res \<times> afs_ctx" where
  "stop_loop [] res c = (res, c)"
| "stop_loop (x # xs) res c =
     (case proc_stop (ps_p x) of (r, p) \<Rightarrow>
      let c' = c\<lparr>ac_freed := ac_freed c @ [x\<lparr>ps_p := p\<rparr>]\<rparr> in
      if r \<noteq> afs_ok then stop_loop xs r (afs_set_fail c' (pr_fail p)) else stop_loop xs res c')"

definition afs_stop :: "afs_ctx \<Rightarrow> afs_res \<times> afs_ctx" where
  "afs_stop c =
     (case stop_loop (ac_ps c) afs_ok c of (res, c) \<Rightarrow>
      (res, c\<lparr>ac_ps := [], ac_pfds := None, ac_pfds_len := 0, ac_pfds_maxlen := 0,
              ac_evs := None, ac_evs_len := 0, ac_evs_maxlen := 0\<rparr>))"

section \<open>Descriptors to poll, and events\<close>

text \<open>
  The loop of \<^verbatim>\<open>afs_pollfds\<close> writes the descriptor first and advances when it is not -1.
\<close>

fun pollfds_loop :: "ps list \<Rightarrow> pollfd list option \<Rightarrow> nat \<Rightarrow> nat \<Rightarrow> (pollfd list option \<times> nat) outcome" where
  "pollfds_loop [] a maxlen len = Inr (a, len)"
| "pollfds_loop (x # xs) a maxlen len =
     (if len = maxlen then sob_panic
      else case a of
        None \<Rightarrow> Inl Null_deref
      | Some fds \<Rightarrow>
          if len \<ge> length fds then Inl Out_of_bounds
          else
            let fd = proc_fd (ps_p x) in
            if fd \<noteq> -1
            then pollfds_loop xs (Some (fds[len := \<lparr>pfd_fd = fd, pfd_events = POLLIN, pfd_revents = 0\<rparr>])) maxlen (len + 1)
            else pollfds_loop xs (Some (fds[len := (fds ! len)\<lparr>pfd_fd := fd\<rparr>])) maxlen len)"

definition afs_pollfds :: "afs_ctx \<Rightarrow> (pollfd list option \<times> nat \<times> afs_ctx) outcome" where
  "afs_pollfds c =
     and_then (pollfds_loop (ac_ps c) (ac_pfds c) (ac_pfds_maxlen c) 0) (\<lambda>(a, len).
     Inr (a, len, c\<lparr>ac_pfds := a, ac_pfds_len := len\<rparr>))"

definition afs_evs :: "afs_ctx \<Rightarrow> afs_ev list option \<times> nat" where
  "afs_evs c = (ac_evs c, ac_evs_len c)"

definition afs_ev_ty :: "afs_ev \<Rightarrow> afs_event" where
  "afs_ev_ty ev = ev_ty ev"

fun afs_event_is_fail :: "afs_event \<Rightarrow> bool" where
  "afs_event_is_fail afs_ev_init_fail = True"
| "afs_event_is_fail afs_ev_stop_fail = True"
| "afs_event_is_fail afs_ev_open_fail = True"
| "afs_event_is_fail afs_ev_close_fail = True"
| "afs_event_is_fail afs_ev_fsync_fail = True"
| "afs_event_is_fail afs_ev_write_fail = True"
| "afs_event_is_fail afs_ev_readall_fail = True"
| "afs_event_is_fail afs_ev_mkdir_fail = True"
| "afs_event_is_fail afs_ev_write_fsync_close_fail = True"
| "afs_event_is_fail _ = False"

definition afs_ev_is_fail :: "afs_ev \<Rightarrow> bool" where
  "afs_ev_is_fail ev = afs_event_is_fail (ev_ty ev)"

fun afs_event_str :: "afs_event \<Rightarrow> string" where
  "afs_event_str afs_ev_init = ''afs_ev_init''"
| "afs_event_str afs_ev_init_fail = ''afs_ev_init_fail''"
| "afs_event_str afs_ev_stop = ''afs_ev_stop''"
| "afs_event_str afs_ev_stop_fail = ''afs_ev_stop_fail''"
| "afs_event_str afs_ev_open = ''afs_ev_open''"
| "afs_event_str afs_ev_open_fail = ''afs_ev_open_fail''"
| "afs_event_str afs_ev_close = ''afs_ev_close''"
| "afs_event_str afs_ev_close_fail = ''afs_ev_close_fail''"
| "afs_event_str afs_ev_fsync = ''afs_ev_fsync''"
| "afs_event_str afs_ev_fsync_fail = ''afs_ev_fsync_fail''"
| "afs_event_str afs_ev_write = ''afs_ev_write''"
| "afs_event_str afs_ev_write_fail = ''afs_ev_write_fail''"
| "afs_event_str afs_ev_readall = ''afs_ev_readall''"
| "afs_event_str afs_ev_readall_fail = ''afs_ev_readall_fail''"
| "afs_event_str afs_ev_mkdir = ''afs_ev_mkdir''"
| "afs_event_str afs_ev_mkdir_fail = ''afs_ev_mkdir_fail''"
| "afs_event_str afs_ev_write_fsync_close = ''afs_ev_write_fsync_close''"
| "afs_event_str afs_ev_write_fsync_close_fail = ''afs_ev_write_fsync_close_fail''"

definition afs_ev_write_len :: "afs_ev \<Rightarrow> nat" where
  "afs_ev_write_len ev = ev_len ev"

definition afs_ev_readall_len :: "afs_ev \<Rightarrow> nat" where
  "afs_ev_readall_len ev = ev_len ev"

definition afs_ev_readall_data :: "afs_ev \<Rightarrow> string option" where
  "afs_ev_readall_data ev = ev_data ev"

section \<open>Update\<close>

text \<open>
  \<open>out_ev\<close> stores an event at \<^verbatim>\<open>oev\<close>, the element of \<^verbatim>\<open>c->evs\<close> at \<^verbatim>\<open>c->evs_len\<close>, and then does
  \<^verbatim>\<open>SOB_AFS_UPD_ADD_EV_()\<close>. \<open>out_ty\<close> stores only the descriptor and the type.
\<close>

definition out_ev :: "(afs_ev \<Rightarrow> afs_ev) \<Rightarrow> afs_ctx \<Rightarrow> afs_ctx outcome" where
  "out_ev f c =
     (case ac_evs c of
        None \<Rightarrow> Inl Null_deref
      | Some evs \<Rightarrow>
          if ac_evs_len c \<ge> length evs then Inl Out_of_bounds
          else if ac_evs_len c \<ge> ac_evs_maxlen c then sob_panic
          else Inr (c\<lparr>ac_evs := Some (evs[ac_evs_len c := f (evs ! ac_evs_len c)]), ac_evs_len := ac_evs_len c + 1\<rparr>))"

definition out_ty :: "int \<Rightarrow> afs_event \<Rightarrow> afs_ctx \<Rightarrow> afs_ctx outcome" where
  "out_ty fd ty c = out_ev (\<lambda>ev. ev\<lparr>ev_fd := fd, ev_ty := ty\<rparr>) c"

text \<open>The case \<^verbatim>\<open>afs_ev_init\<close>: the command that waited for the worker to start is sent to it.\<close>

definition upd_init :: "update_env \<Rightarrow> afs_ctx \<Rightarrow> nat \<Rightarrow> ps \<Rightarrow> afs_ctx outcome" where
  "upd_init e c i x =
     (let x = x\<lparr>ps_is_avail := True\<rparr>; cmd = ps_cmd_after_init x; fd = ps_fd x;
          send = (\<lambda>m. and_then m (\<lambda>(r, p).
            let c = ps_upd c i (x\<lparr>ps_p := p, ps_cmd_after_init := Cmd_none\<rparr>) in
            if r \<noteq> afs_ok then out_ty fd (proc_cmd_fail_ev cmd) (afs_set_fail c (pr_fail p)) else Inr c)) in
      if cmd = Cmd_open then send (proc_open (ue_after_init e) (ps_p x))
      else if cmd = Cmd_mkdir then send (proc_mkdir (ue_after_init e) (ps_p x))
      else if cmd = Cmd_write_fsync_close then send (proc_write_fsync_close (ue_after_init e) (ps_p x))
      else if cmd \<noteq> Cmd_none then
        and_then (out_ty fd (proc_cmd_fail_ev cmd) (ps_upd c i (x\<lparr>ps_cmd_after_init := Cmd_none\<rparr>))) (\<lambda>c.
        Inr (afs_set_fail c ''bad cmd_after_init (no errno)''))
      else Inr (ps_upd c i x))"

definition upd_init_fail :: "afs_ctx \<Rightarrow> nat \<Rightarrow> ps \<Rightarrow> afs_ctx outcome" where
  "upd_init_fail c i x =
     (let c' = ps_upd c i (x\<lparr>ps_cmd_after_init := Cmd_none\<rparr>) in
      if ps_cmd_after_init x \<noteq> Cmd_none then out_ty (ps_fd x) (proc_cmd_fail_ev (ps_cmd_after_init x)) c' else Inr c')"

text \<open>
  The switch on the type of the event \<open>ev\<close> of the worker at \<open>i\<close>, whose element is \<open>x\<close>. The
  results are \<^verbatim>\<open>should_add_ev\<close>, \<^verbatim>\<open>should_del\<close> (\<open>del\<close> before) and the context.
\<close>

definition upd_switch :: "update_env \<Rightarrow> afs_ctx \<Rightarrow> nat \<Rightarrow> ps \<Rightarrow> afs_ev \<Rightarrow> bool \<Rightarrow> (bool \<times> bool \<times> afs_ctx) outcome" where
  "upd_switch e c i x ev del =
     (let free = x\<lparr>ps_fd := -1\<rparr> in
      case afs_ev_ty ev of
        afs_ev_init \<Rightarrow> and_then (upd_init e c i x) (\<lambda>c. Inr (False, del, c))
      | afs_ev_close \<Rightarrow> Inr (True, del, ps_upd c i free)
      | afs_ev_close_fail \<Rightarrow> Inr (True, del, ps_upd c i free)
      | afs_ev_init_fail \<Rightarrow> and_then (upd_init_fail c i x) (\<lambda>c. Inr (False, True, c))
      | afs_ev_mkdir_fail \<Rightarrow> Inr (True, del, ps_upd c i free)
      | afs_ev_mkdir \<Rightarrow> Inr (True, del, ps_upd c i free)
      | afs_ev_write_fsync_close \<Rightarrow> Inr (True, del, ps_upd c i free)
      | afs_ev_write_fsync_close_fail \<Rightarrow> Inr (True, del, ps_upd c i free)
      | afs_ev_stop \<Rightarrow> Inr (False, del, ps_upd c i (free\<lparr>ps_is_avail := False\<rparr>))
      | afs_ev_stop_fail \<Rightarrow> Inr (False, del, ps_upd c i (free\<lparr>ps_is_avail := False\<rparr>))
      | _ \<Rightarrow> Inr (True, del, c))"

text \<open>Event number \<open>k\<close> of worker \<open>i\<close>.\<close>

definition upd_event :: "update_env \<Rightarrow> afs_ctx \<Rightarrow> nat \<Rightarrow> nat \<Rightarrow> bool \<Rightarrow> (bool \<times> afs_ctx) outcome" where
  "upd_event e c i k del =
     (let x = ac_ps c ! i; p = ps_p x; ev = (pr_evs p ! k)\<lparr>ev_fd := ps_fd x\<rparr>;
          x = x\<lparr>ps_p := p\<lparr>pr_evs := (pr_evs p)[k := ev]\<rparr>\<rparr> in
      and_then (upd_switch e (ps_upd c i x) i x ev del) (\<lambda>(add, del, c).
      let c = (if afs_ev_is_fail ev then afs_set_fail c (pr_fail (ps_p (ac_ps c ! i))) else c) in
      and_then (if add then out_ev (\<lambda>_. ev) c else Inr c) (\<lambda>c. Inr (del, c))))"

fun upd_events :: "update_env \<Rightarrow> nat \<Rightarrow> nat \<Rightarrow> nat \<Rightarrow> bool \<Rightarrow> afs_ctx \<Rightarrow> (bool \<times> afs_ctx) outcome" where
  "upd_events e i k 0 del c = Inr (del, c)"
| "upd_events e i k (Suc n) del c = and_then (upd_event e c i k del) (\<lambda>(del, c). upd_events e i (Suc k) n del c)"

text \<open>The body of the loop over the workers; the flag tells whether an element was removed.\<close>

definition upd_ps :: "update_env \<Rightarrow> pollfd list \<Rightarrow> afs_ctx \<Rightarrow> nat \<Rightarrow> (bool \<times> afs_ctx) outcome" where
  "upd_ps e fds c i =
     (let x = ac_ps c ! i in
      and_then (proc_update e (ps_p x) fds) (\<lambda>(r, p).
      and_then (upd_events e i 0 (snd (proc_evs p)) False (ps_upd c i (x\<lparr>ps_p := p\<rparr>))) (\<lambda>(del, c).
      if r \<noteq> afs_ok \<or> del then
        case ps_del c (ps_fd (ac_ps c ! i)) of (r', c) \<Rightarrow> Inr (r' = afs_ok, c)
      else Inr (False, c))))"

text \<open>
  The walk along the list: \<open>n\<close> elements from position \<open>i\<close> on remain. The next one was taken from
  \<^verbatim>\<open>ps->next\<close> before; as \<^verbatim>\<open>ps_del_\<close> finds this element or one before it, the next one is then at
  the position of this one.
\<close>

fun update_loop :: "(nat \<Rightarrow> update_env) \<Rightarrow> pollfd list \<Rightarrow> nat \<Rightarrow> nat \<Rightarrow> afs_ctx \<Rightarrow> afs_ctx outcome" where
  "update_loop es fds i 0 c = Inr c"
| "update_loop es fds i (Suc n) c =
     and_then (upd_ps (es n) fds c i) (\<lambda>(removed, c). update_loop es fds (if removed then i else Suc i) n c)"

definition afs_update :: "(nat \<Rightarrow> update_env) \<Rightarrow> afs_ctx \<Rightarrow> pollfd list \<Rightarrow> afs_ctx outcome" where
  "afs_update es c fds =
     (let c = c\<lparr>ac_evs_len := 0\<rparr> in
      if ac_ps c \<noteq> [] \<and> ac_evs c = None then sob_panic
      else and_then (update_loop es fds 0 (length (ac_ps c)) c) (\<lambda>c.
        if ac_is_stop_req c \<and> (\<forall>x \<in> set (ac_ps c). pr_st (ps_p x) = Proc_uninit)
        then out_ty (-1) afs_ev_stop c
        else Inr c))"

end
