(* ===== verification/Afs_Inv.thy ===== *)
theory Afs_Inv
  imports Afs
begin

text \<open>
  The invariant of a context of the asynchronous file module, and that every operation of
  \<open>Afs\<close> keeps it: each worker is in step with its process, descriptors are distinct, the
  arrays have room. The only fault left is the overflow of the descriptor counter.
\<close>

section \<open>Lookup, and descriptors that are free\<close>

lemma ps_find_None: "ps_find xs fd = None \<longleftrightarrow> (\<forall>x \<in> set xs. ps_fd x \<noteq> fd)"
  by (induction xs) auto

lemma ps_find_Some:
  "ps_find xs fd = Some i \<Longrightarrow> i < length xs \<and> ps_fd (xs ! i) = fd \<and> (\<forall>j < i. ps_fd (xs ! j) \<noteq> fd)"
proof (induction xs arbitrary: i)
  case (Cons x xs)
  then show ?case
    by (cases i) (auto split: if_splits simp: nth_Cons split: nat.splits)
qed simp

lemma ps_find_le: "i < length xs \<Longrightarrow> \<exists>j \<le> i. ps_find xs (ps_fd (xs ! i)) = Some j"
proof (induction xs arbitrary: i)
  case (Cons x xs)
  then show ?case by (cases i) fastforce+
qed simp

lemma ps_next_from_spec:
  "allows {Signed_overflow} (ps_next_from xs fd) (\<lambda>n. fd \<le> n \<and> (\<forall>x \<in> set xs. ps_fd x < n))"
proof (induction xs arbitrary: fd)
  case (Cons x xs)
  show ?case
  proof (cases "ps_fd x \<ge> fd")
    case True
    have "allows {Signed_overflow} (ps_next_from xs (ps_fd x + 1)) (\<lambda>n. fd \<le> n \<and> (\<forall>y \<in> set (x # xs). ps_fd y < n))"
      using Cons[of "ps_fd x + 1"] True by (auto elim!: allows_mono)
    with True show ?thesis by (simp add: c_int_def)
  next
    case False
    with Cons[of fd] show ?thesis by (auto elim!: allows_mono)
  qed
qed simp

section \<open>Invariant of a context\<close>

definition fds_distinct :: "ps list \<Rightarrow> bool" where
  "fds_distinct xs \<longleftrightarrow> distinct (filter (\<lambda>fd. fd \<noteq> -1) (map ps_fd xs))"

text \<open>Room in the arrays for a number of workers.\<close>

definition room_for :: "nat \<Rightarrow> afs_ctx \<Rightarrow> bool" where
  "room_for n c \<longleftrightarrow> n \<le> ac_pfds_maxlen c \<and> n * proc_evs_maxlen \<le> ac_evs_maxlen c \<and>
     ac_pfds_maxlen c = (case ac_pfds c of None \<Rightarrow> 0 | Some a \<Rightarrow> length a) \<and>
     ac_evs_maxlen c = (case ac_evs c of None \<Rightarrow> 0 | Some a \<Rightarrow> length a) \<and> ac_evs c \<noteq> Some []"

definition ps_inv :: "ps \<Rightarrow> bool" where
  "ps_inv x \<longleftrightarrow> proc_inv (ps_p x) \<and> ps_fd x \<ge> -1"

definition ctx_inv :: "afs_ctx \<Rightarrow> bool" where
  "ctx_inv c \<longleftrightarrow> (\<forall>x \<in> set (ac_ps c). ps_inv x) \<and> fds_distinct (ac_ps c) \<and> room_for (length (ac_ps c)) c"

lemma ctx_inv_init: "ctx_inv (afs_init c)"
  by (simp add: ctx_inv_def afs_init_def fds_distinct_def room_for_def)

lemma fds_distinct_Cons:
  "fds_distinct (x # xs) \<longleftrightarrow> (ps_fd x \<noteq> -1 \<longrightarrow> ps_fd x \<notin> ps_fd ` set xs) \<and> fds_distinct xs"
  by (auto simp: fds_distinct_def)

lemma fds_distinct_append:
  "fds_distinct (xs @ ys) \<longleftrightarrow> fds_distinct xs \<and> fds_distinct ys \<and> (\<forall>x \<in> set xs. ps_fd x \<noteq> -1 \<longrightarrow> ps_fd x \<notin> ps_fd ` set ys)"
  by (auto simp: fds_distinct_def)

lemma fds_distinct_update:
  assumes "fds_distinct xs" "i < length xs" "ps_fd y = ps_fd (xs ! i) \<or> ps_fd y = -1 \<or> (\<forall>x \<in> set xs. ps_fd x \<noteq> ps_fd y)"
  shows "fds_distinct (xs[i := y])"
  using assms
proof (induction xs arbitrary: i)
  case (Cons x xs)
  show ?case
  proof (cases i)
    case 0
    with Cons.prems show ?thesis by (auto simp: fds_distinct_Cons)
  next
    case (Suc j)
    with Cons.prems have "fds_distinct (xs[j := y])" by (intro Cons.IH) (auto simp: fds_distinct_Cons)
    moreover have "ps_fd x \<noteq> -1 \<Longrightarrow> ps_fd x \<notin> ps_fd ` set (xs[j := y])"
      using Cons.prems Suc set_update_subset_insert[of xs j y] nth_mem[of j xs] by (auto simp: fds_distinct_Cons)
    ultimately show ?thesis using Suc by (simp add: fds_distinct_Cons)
  qed
qed simp

lemma room_for_upd [simp]:
  "room_for n (c\<lparr>ac_ps := xs\<rparr>) = room_for n c" "room_for n (c\<lparr>ac_fail := f\<rparr>) = room_for n c"
  "room_for n (afs_set_fail c m) = room_for n c" "room_for n (c\<lparr>ac_freed := fr\<rparr>) = room_for n c"
  "room_for n (c\<lparr>ac_evs_len := k\<rparr>) = room_for n c" "room_for n (c\<lparr>ac_is_stop_req := b\<rparr>) = room_for n c"
  "room_for n (ps_upd c i x) = room_for n c"
  by (simp_all add: room_for_def afs_set_fail_def ps_upd_def)

lemma room_for_mono: "room_for n c \<Longrightarrow> m \<le> n \<Longrightarrow> room_for m c"
  by (auto simp: room_for_def intro: le_trans[OF mult_le_mono1])

lemma afs_set_fail_simps [simp]:
  "ac_ps (afs_set_fail c m) = ac_ps c" "ac_evs (afs_set_fail c m) = ac_evs c" "ac_evs_len (afs_set_fail c m) = ac_evs_len c"
  "ac_evs_maxlen (afs_set_fail c m) = ac_evs_maxlen c" "ac_is_stop_req (afs_set_fail c m) = ac_is_stop_req c"
  "ac_freed (afs_set_fail c m) = ac_freed c" "ctx_inv (afs_set_fail c m) = ctx_inv c"
  by (simp_all add: afs_set_fail_def ctx_inv_def room_for_def)

lemma ps_upd_simps [simp]:
  "ac_ps (ps_upd c i x) = (ac_ps c)[i := x]" "ac_evs (ps_upd c i x) = ac_evs c" "ac_evs_len (ps_upd c i x) = ac_evs_len c"
  "ac_evs_maxlen (ps_upd c i x) = ac_evs_maxlen c" "ac_is_stop_req (ps_upd c i x) = ac_is_stop_req c"
  "ac_freed (ps_upd c i x) = ac_freed c"
  by (simp_all add: ps_upd_def)

text \<open>An element may change when it stays well-formed and its descriptor stays, is given up, or is new.\<close>

lemma ctx_inv_upd:
  assumes "ctx_inv c" "i < length (ac_ps c)" "ps_inv y"
    "ps_fd y = ps_fd (ac_ps c ! i) \<or> ps_fd y = -1 \<or> (\<forall>x \<in> set (ac_ps c). ps_fd x \<noteq> ps_fd y)"
  shows "ctx_inv (ps_upd c i y)"
  using assms fds_distinct_update[of "ac_ps c" i y] set_update_subset_insert[of "ac_ps c" i y]
  by (auto simp: ctx_inv_def)

lemma ctx_inv_nth: "ctx_inv c \<Longrightarrow> i < length (ac_ps c) \<Longrightarrow> ps_inv (ac_ps c ! i)"
  by (simp add: ctx_inv_def)

lemma fds_distinct_del: "fds_distinct xs \<Longrightarrow> fds_distinct (take j xs @ drop (Suc j) xs)"
proof (cases "j < length xs")
  case True
  assume "fds_distinct xs"
  then have "fds_distinct (take j xs @ xs ! j # drop (Suc j) xs)" using id_take_nth_drop[OF True] by metis
  then show ?thesis by (auto simp: fds_distinct_append fds_distinct_Cons)
qed simp

lemma ps_del_inv: "ctx_inv c \<Longrightarrow> ctx_inv (snd (ps_del c fd))"
  using fds_distinct_del[of "ac_ps c"]
  by (auto simp: ps_del_def ctx_inv_def split: option.splits intro: room_for_mono dest: in_set_takeD in_set_dropD)

section \<open>Taking a worker\<close>

definition alloc_env_ok :: "alloc_env \<Rightarrow> bool" where
  "alloc_env_ok e \<longleftrightarrow> spawn_env_ok (ae_spawn e) \<and>
     (case ae_ps e of None \<Rightarrow> True | Some x \<Rightarrow> length (pr_evs (ps_p x)) = proc_evs_maxlen)"

definition pfds_room :: "nat \<Rightarrow> afs_ctx \<Rightarrow> bool" where
  "pfds_room n c \<longleftrightarrow> n \<le> ac_pfds_maxlen c \<and> ac_pfds_maxlen c = (case ac_pfds c of None \<Rightarrow> 0 | Some a \<Rightarrow> length a)"

definition evs_room :: "nat \<Rightarrow> afs_ctx \<Rightarrow> bool" where
  "evs_room n c \<longleftrightarrow> n * proc_evs_maxlen \<le> ac_evs_maxlen c \<and> ac_evs_maxlen c = (case ac_evs c of None \<Rightarrow> 0 | Some a \<Rightarrow> length a) \<and>
     ac_evs c \<noteq> Some []"

lemma room_for_split: "room_for n c \<longleftrightarrow> pfds_room n c \<and> evs_room n c"
  by (auto simp: room_for_def pfds_room_def evs_room_def)

lemma ps_grow_pfds_room:
  "pfds_room n c \<Longrightarrow> ps_grow_pfds ok c m = (r, d) \<Longrightarrow>
   ac_ps d = ac_ps c \<and> ac_evs d = ac_evs c \<and> ac_evs_maxlen d = ac_evs_maxlen c \<and> pfds_room (if r then max n m else n) d"
  by (auto simp: ps_grow_pfds_def pfds_room_def afs_set_fail_def evs_pfds_prealloc_len_def Let_def split: if_splits)

lemma ps_grow_evs_room:
  "evs_room n c \<Longrightarrow> ps_grow_evs ok c m = (r, d) \<Longrightarrow>
   ac_ps d = ac_ps c \<and> ac_pfds d = ac_pfds c \<and> ac_pfds_maxlen d = ac_pfds_maxlen c \<and> evs_room (if r then max n m else n) d"
  by (auto simp: ps_grow_evs_def evs_room_def afs_set_fail_def evs_pfds_prealloc_len_def Let_def proc_evs_maxlen_def split: if_splits)

lemma ps_grow_room:
  assumes "room_for n c" "ps_grow_pfds ok c (Suc n) = (r, d)" "ps_grow_evs ok' d (Suc n) = (r', d')"
  shows "ac_ps d = ac_ps c \<and> ac_ps d' = ac_ps c \<and> room_for n d \<and> room_for n d' \<and> (r \<and> r' \<longrightarrow> room_for (Suc n) d')"
proof -
  have d: "ac_ps d = ac_ps c" "ac_evs d = ac_evs c" "ac_evs_maxlen d = ac_evs_maxlen c" "pfds_room (if r then Suc n else n) d"
    using ps_grow_pfds_room[OF _ assms(2), of n] assms(1) by (auto simp: room_for_split max_def split: if_splits)
  then have "evs_room n d" using assms(1) by (simp add: room_for_split evs_room_def)
  then have e: "ac_ps d' = ac_ps d" "ac_pfds d' = ac_pfds d" "ac_pfds_maxlen d' = ac_pfds_maxlen d" "evs_room (if r' then Suc n else n) d'"
    using ps_grow_evs_room[OF _ assms(3), of n] by (auto simp: max_def split: if_splits)
  have "pfds_room n d \<and> evs_room n d'"
    using d(4) e(4) by (auto simp: pfds_room_def evs_room_def proc_evs_maxlen_def split: if_splits)
  with d e \<open>evs_room n d\<close> show ?thesis by (auto simp: room_for_split pfds_room_def)
qed

lemma ps_add_spec:
  assumes "ctx_inv c"
  shows "allows {Signed_overflow} (ps_add e c) (\<lambda>(r, d).
    case r of
      None \<Rightarrow> ctx_inv d \<and> ac_ps d = ac_ps c
    | Some i \<Rightarrow> i = length (ac_ps c) \<and> room_for (Suc (length (ac_ps c))) d \<and>
        (\<exists>x y. ae_ps e = Some x \<and> ac_ps d = ac_ps c @ [y] \<and> ps_p y = ps_p x \<and> ps_fd y \<ge> 0 \<and>
           (\<forall>z \<in> set (ac_ps c). ps_fd z \<noteq> ps_fd y)))"
proof (cases "ae_ps e")
  case None
  with assms show ?thesis by (simp add: ps_add_def)
next
  case (Some x)
  obtain r d where g: "ps_grow_pfds (ae_pfds e) c (Suc (length (ac_ps c))) = (r, d)" by fastforce
  obtain r' d' where g': "ps_grow_evs (ae_evs e) d (Suc (length (ac_ps c))) = (r', d')" by fastforce
  from assms have "room_for (length (ac_ps c)) c" by (simp add: ctx_inv_def)
  note room = ps_grow_room[OF this g g']
  with assms have inv: "ctx_inv d" "ctx_inv d'" by (simp_all add: ctx_inv_def)
  have "allows {Signed_overflow} (ps_next_fd d') (\<lambda>n. 0 \<le> n \<and> (\<forall>x \<in> set (ac_ps c). ps_fd x < n))"
    using ps_next_from_spec[of "ac_ps d'" 0] room by (simp add: ps_next_fd_def)
  then have "r \<Longrightarrow> r' \<Longrightarrow> ?thesis"
    using Some g g' room
    by (fastforce simp: ps_add_def ps_len_def Let_def elim!: allows_mono)
  moreover have "\<not> (r \<and> r') \<Longrightarrow> ?thesis"
    using Some g g' room inv by (cases r) (simp_all add: ps_add_def ps_len_def Let_def)
  ultimately show ?thesis by blast
qed

lemma ps_find_upd: "ps_find xs fd = Some i \<Longrightarrow> ps_fd y = fd \<Longrightarrow> ps_find (xs[i := y]) fd = Some i"
proof (induction xs arbitrary: i)
  case (Cons x xs)
  then show ?case by (cases i) (auto split: if_splits)
qed simp

lemma ps_find_snoc: "\<forall>z \<in> set xs. ps_fd z \<noteq> fd \<Longrightarrow> ps_fd y = fd \<Longrightarrow> ps_find (xs @ [y]) fd = Some (length xs)"
  by (induction xs) auto

lemma ps_upd_twice [simp]: "ps_upd (ps_upd c i x) i y = ps_upd c i y"
  by (simp add: ps_upd_def)

lemma ps_del_replaced:
  assumes "ctx_inv c" "ps_find (ac_ps c) fd = Some i" "ps_fd y = fd"
  shows "ctx_inv (snd (ps_del (afs_set_fail (ps_upd c i y) m) fd))"
proof -
  have "ctx_inv (snd (ps_del c fd))" using assms(1) by (rule ps_del_inv)
  with assms ps_find_Some[OF assms(2)] ps_find_upd[OF assms(2,3)] show ?thesis
    by (simp add: ps_del_def ctx_inv_def)
qed

lemma fd_free_upd:
  assumes "\<forall>x \<in> set (xs[i := y]). ps_fd x < fd" "i < length xs" "ps_fd y = ps_fd (xs ! i)"
  shows "\<forall>x \<in> set xs. ps_fd x \<noteq> fd"
proof
  fix x assume "x \<in> set xs"
  then obtain j where j: "j < length xs" "x = xs ! j" by (auto simp: in_set_conv_nth)
  have "xs[i := y] ! j \<in> set (xs[i := y])" using j(1) by (intro nth_mem) simp
  then have "ps_fd (xs[i := y] ! j) < fd" using assms(1) by blast
  with j assms(2,3) show "ps_fd x \<noteq> fd" by (cases "j = i") auto
qed

text \<open>
  A worker that was taken has a descriptor no other has, and a buffer; the others are as they
  were.
\<close>

definition taken :: "afs_ctx \<Rightarrow> afs_ctx \<Rightarrow> nat \<Rightarrow> bool \<Rightarrow> bool" where
  "taken c d i was_init \<longleftrightarrow> i < length (ac_ps d) \<and> pr_st (ps_p (ac_ps d ! i)) \<noteq> Proc_uninit \<and> ps_fd (ac_ps d ! i) \<ge> 0 \<and>
     (\<forall>x \<in> set (ac_ps c). ps_fd x \<noteq> ps_fd (ac_ps d ! i)) \<and>
     (\<forall>j < length (ac_ps c). j \<noteq> i \<longrightarrow> ac_ps d ! j = ac_ps c ! j) \<and>
     (\<not> was_init \<longrightarrow> pr_st (ps_p (ac_ps d ! i)) = Proc_init_pend)"

lemma maybe_alloc_reuse:
  assumes "ctx_inv c" "alloc_env_ok e" "ps_get c (-1) = Some i"
  shows "allows {Signed_overflow} (maybe_alloc_ps e c) (\<lambda>(a, d).
    ctx_inv d \<and> (case a of None \<Rightarrow> True | Some (i, was_init) \<Rightarrow> taken c d i was_init))"
proof -
  let ?x = "ac_ps c ! i"
  obtain r p where rp: "(if pr_st (ps_p ?x) = Proc_uninit then proc_init (ae_spawn e) (ps_p ?x) else (afs_ok, ps_p ?x)) = (r, p)"
    by fastforce
  from assms(3) ps_find_Some[of "ac_ps c" "-1" i] have i: "i < length (ac_ps c)" "ps_fd ?x = -1"
    by (simp_all add: ps_get_def)
  from ctx_inv_nth[OF assms(1) i(1)] have inv: "proc_inv (ps_p ?x)" by (simp add: ps_inv_def)
  have p: "r = afs_ok \<longrightarrow> proc_inv p \<and> pr_st p \<noteq> Proc_uninit \<and> (pr_st (ps_p ?x) = Proc_uninit \<longrightarrow> pr_st p = Proc_init_pend)"
    using proc_init_inv[of "ae_spawn e" "ps_p ?x" r p] assms(2) rp inv proc_inv_evs_length[OF inv]
    by (auto simp: alloc_env_ok_def split: if_splits)
  show ?thesis
  proof (cases "r = afs_ok")
    case False
    let ?c = "afs_set_fail (ps_upd c i (?x\<lparr>ps_p := p\<rparr>)) (pr_fail p)"
    have "ctx_inv (snd (ps_del ?c (-1)))"
      using assms(1,3) i(2) by (intro ps_del_replaced) (simp_all add: ps_get_def)
    with False rp assms(3) show ?thesis by (simp add: maybe_alloc_ps_def Let_def)
  next
    case True
    let ?c = "ps_upd c i (?x\<lparr>ps_p := p\<rparr>)"
    have n: "allows {Signed_overflow} (ps_next_fd ?c) (\<lambda>fd. 0 \<le> fd \<and> (\<forall>x \<in> set (ac_ps ?c). ps_fd x < fd))"
      using ps_next_from_spec[of "ac_ps ?c" 0] by (simp add: ps_next_fd_def)
    have "ctx_inv (ps_upd ?c i (?x\<lparr>ps_p := p, ps_fd := fd\<rparr>)) \<and>
       taken c (ps_upd ?c i (?x\<lparr>ps_p := p, ps_fd := fd\<rparr>)) i (pr_st (ps_p ?x) \<noteq> Proc_uninit)" if "0 \<le> fd" "\<forall>x \<in> set (ac_ps ?c). ps_fd x < fd" for fd
    proof -
      from that(2) i have free: "\<forall>x \<in> set (ac_ps c). ps_fd x \<noteq> fd" using fd_free_upd[of "ac_ps c" i "?x\<lparr>ps_p := p\<rparr>" fd] by simp
      with assms(1) i p True that(1) have "ctx_inv (ps_upd c i (?x\<lparr>ps_p := p, ps_fd := fd\<rparr>))"
        by (intro ctx_inv_upd) (simp_all add: ps_inv_def)
      with free i p True that(1) show ?thesis by (simp add: taken_def)
    qed
    with n rp True assms(3) show ?thesis
      by (auto simp: maybe_alloc_ps_def Let_def elim!: allows_mono)
  qed
qed

text \<open>\<open>d\<close> is \<open>c\<close> with a new element \<open>y\<close> at the end, its worker not yet started.\<close>

definition added :: "afs_ctx \<Rightarrow> afs_ctx \<Rightarrow> ps \<Rightarrow> bool" where
  "added c d y \<longleftrightarrow> room_for (Suc (length (ac_ps c))) d \<and> ac_ps d = ac_ps c @ [y] \<and> 0 \<le> ps_fd y \<and>
     (\<forall>z \<in> set (ac_ps c). ps_fd z \<noteq> ps_fd y)"

lemma added_undone:
  assumes "ctx_inv c" "added c d y"
  shows "ctx_inv (snd (ps_del (afs_set_fail (ps_upd d (length (ac_ps c)) (y\<lparr>ps_p := p\<rparr>)) m) (ps_fd y)))"
proof -
  from assms(2) have a: "room_for (Suc (length (ac_ps c))) d" "ac_ps d = ac_ps c @ [y]"
    "\<forall>z \<in> set (ac_ps c). ps_fd z \<noteq> ps_fd y"
    by (simp_all add: added_def)
  then have "ps_find (ac_ps c @ [y\<lparr>ps_p := p\<rparr>]) (ps_fd y) = Some (length (ac_ps c))"
    by (intro ps_find_snoc) simp_all
  with a(1,2) assms(1) show ?thesis
    by (simp add: ps_del_def ctx_inv_def room_for_mono[OF a(1)])
qed

lemma added_taken:
  assumes "ctx_inv c" "added c d y" "proc_inv p" "pr_st p = Proc_init_pend"
  shows "ctx_inv (ps_upd d (length (ac_ps c)) (y\<lparr>ps_p := p\<rparr>)) \<and>
    taken c (ps_upd d (length (ac_ps c)) (y\<lparr>ps_p := p\<rparr>)) (length (ac_ps c)) False"
  using assms
  by (auto simp: added_def ctx_inv_def taken_def ps_inv_def fds_distinct_append fds_distinct_Cons nth_append)
    (simp_all add: fds_distinct_def)

lemma maybe_alloc_fresh:
  assumes "ctx_inv c" "alloc_env_ok e" "ps_get c (-1) = None"
  shows "allows {Signed_overflow} (maybe_alloc_ps e c) (\<lambda>(a, d).
    ctx_inv d \<and> (case a of None \<Rightarrow> True | Some (i, was_init) \<Rightarrow> taken c d i was_init))"
proof (cases "ps_add e c")
  case (Inl f)
  with ps_add_spec[OF assms(1), of e] assms(3) show ?thesis by (simp add: maybe_alloc_ps_def)
next
  case (Inr rd)
  obtain r d where rd: "rd = (r, d)" by fastforce
  show ?thesis
  proof (cases r)
    case None
    with Inr rd ps_add_spec[OF assms(1), of e] assms(3) show ?thesis by (simp add: maybe_alloc_ps_def)
  next
    case (Some i)
    with Inr rd ps_add_spec[OF assms(1), of e] obtain x y where i: "i = length (ac_ps c)" and x: "ae_ps e = Some x" "ps_p y = ps_p x"
      and y: "added c d y"
      by (auto simp: added_def)
    obtain q p where q: "proc_init (ae_spawn e) (ps_p y) = (q, p)" by fastforce
    have "q = afs_ok \<longrightarrow> proc_inv p \<and> pr_st p = Proc_init_pend"
      using proc_init_inv[OF q] assms(2) x by (simp add: alloc_env_ok_def)
    moreover have "ac_ps d ! i = y" using y i by (simp add: added_def)
    ultimately show ?thesis
      using Inr rd Some q i assms(3) added_undone[OF assms(1) y] added_taken[OF assms(1) y]
      by (simp add: maybe_alloc_ps_def Let_def)
  qed
qed

lemma maybe_alloc_ps_spec:
  assumes "ctx_inv c" "alloc_env_ok e"
  shows "allows {Signed_overflow} (maybe_alloc_ps e c) (\<lambda>(a, d).
    ctx_inv d \<and> (case a of None \<Rightarrow> True | Some (i, was_init) \<Rightarrow> taken c d i was_init))"
  using maybe_alloc_reuse[OF assms] maybe_alloc_fresh[OF assms] by (cases "ps_get c (-1)") blast+

section \<open>Requests keep the invariant\<close>

lemma proto_request [simp]:
  "proto st (s\<lparr>sh_open_flags := fl\<rparr>) ch = proto st s ch" "proto st (s\<lparr>sh_write_len := n\<rparr>) ch = proto st s ch"
  by (cases st; simp add: proto_defs)+

lemma proc_inv_request:
  assumes "proc_inv p" "pr_shared p = Some s" "pr_rw_buf p = Some b" "length b' = length b" "n \<le> pr_rw_buf_len p"
  shows "proc_inv (p\<lparr>pr_rw_buf := Some b', pr_shared := Some (s\<lparr>sh_open_flags := fl\<rparr>)\<rparr>)"
    and "proc_inv (p\<lparr>pr_rw_buf := Some b'\<rparr>)"
    and "proc_inv (p\<lparr>pr_shared := Some (s\<lparr>sh_write_len := n\<rparr>)\<rparr>)"
    and "proc_inv (p\<lparr>pr_shared := Some (s\<lparr>sh_open_flags := fl, sh_write_len := n\<rparr>), pr_rw_buf := Some b'\<rparr>)"
  using assms by (auto simp: proc_inv_def proc_mem_def split: if_splits)

lemma ps_sent_inv:
  assumes "ctx_inv c" "i < length (ac_ps c)" "ps_fd x = ps_fd (ac_ps c ! i)" "proc_inv p" "cmd \<noteq> Cmd_none"
  shows "safe (ps_sent copy c i x (proc_send_cmd io p cmd)) (\<lambda>(r, d). ctx_inv d)"
proof -
  have "ps_fd x \<ge> -1" using ctx_inv_nth[OF assms(1,2)] assms(3) by (simp add: ps_inv_def)
  then have "ctx_inv (ps_upd c i (x\<lparr>ps_p := q\<rparr>))" if "proc_inv q" for q
    using that assms(3) by (intro ctx_inv_upd[OF assms(1,2)]) (simp_all add: ps_inv_def)
  moreover have "safe (proc_send_cmd io p cmd) (\<lambda>(r, q). proc_inv q)"
    using proc_send_cmd_inv[OF assms(4,5), of io] by (rule safe_mono) auto
  ultimately show ?thesis by (auto simp: ps_sent_def elim!: safe_mono)
qed

lemmas proc_requests = proc_open_def proc_close_def proc_fsync_def proc_write_def proc_readall_def proc_mkdir_def
  proc_write_fsync_close_def

lemma ps_get_nth:
  assumes "ctx_inv c" "ps_get c fd = Some i"
  shows "i < length (ac_ps c) \<and> proc_inv (ps_p (ac_ps c ! i)) \<and> ps_fd (ac_ps c ! i) = fd"
  using assms ps_find_Some[of "ac_ps c" fd i] ctx_inv_nth[of c i] by (simp add: ps_get_def ps_inv_def)

lemma afs_close_inv:
  assumes "ctx_inv c"
  shows "safe (afs_close io c fd) (\<lambda>(r, d). ctx_inv d)"
  using assms ps_get_nth[OF assms, of fd]
  by (auto simp: afs_close_def proc_requests Let_def split: option.splits intro!: ps_sent_inv)

lemma afs_fsync_inv:
  assumes "ctx_inv c"
  shows "safe (afs_fsync io c fd) (\<lambda>(r, d). ctx_inv d)"
  using assms ps_get_nth[OF assms, of fd]
  by (auto simp: afs_fsync_def proc_requests Let_def split: option.splits intro!: ps_sent_inv)

lemma afs_readall_inv:
  assumes "ctx_inv c"
  shows "safe (afs_readall io c fd) (\<lambda>(r, d). ctx_inv d)"
  using assms ps_get_nth[OF assms, of fd]
  by (auto simp: afs_readall_def proc_requests Let_def split: option.splits intro!: ps_sent_inv)

lemma proc_inv_shared: "proc_inv p \<Longrightarrow> pr_shared p = Some s \<Longrightarrow> \<exists>b. pr_rw_buf p = Some b \<and> length b = pr_rw_buf_len p"
  by (auto simp: proc_inv_def proc_mem_def split: if_splits)

lemma afs_write_inv:
  assumes "ctx_inv c"
  shows "safe (afs_write io c fd len) (\<lambda>(r, d). ctx_inv d)"
proof -
  have "proc_inv (p\<lparr>pr_shared := Some (s\<lparr>sh_write_len := len\<rparr>)\<rparr>)"
    if "proc_inv p" "pr_shared p = Some s" "len \<le> pr_rw_buf_len p" for p s
    using proc_inv_shared[OF that(1,2)] proc_inv_request(3)[OF that(1,2) _ _ that(3)] by blast
  then show ?thesis
    using assms ps_get_nth[OF assms, of fd]
    by (auto simp: afs_write_def proc_requests Let_def split: option.splits intro!: ps_sent_inv)
qed

text \<open>Only a length that makes the sum of the lengths wrap around takes the path outside the buffer.\<close>

lemma afs_write_fsync_close_inv:
  assumes "ctx_inv c"
  shows "allows {f. f = Out_of_bounds \<and> 2 ^ 64 \<le> n + (length path + 1)} (afs_write_fsync_close io c fd path flags n) (\<lambda>(r, d). ctx_inv d)"
proof (cases "ps_get c fd")
  case (Some i)
  let ?x = "ac_ps c ! i" and ?n = "n + (length path + 1)"
  from ps_get_nth[OF assms Some] have i: "i < length (ac_ps c)" "proc_inv (ps_p ?x)" "ps_fd ?x = fd" by simp_all
  show ?thesis
  proof (cases "fd \<noteq> -1 \<and> pr_shared (ps_p ?x) \<noteq> None \<and> ?n mod 2 ^ 64 \<le> pr_rw_buf_len (ps_p ?x)")
    case True
    then obtain s where s: "pr_shared (ps_p ?x) = Some s" by blast
    from proc_inv_shared[OF i(2) s] obtain b where b: "pr_rw_buf (ps_p ?x) = Some b" "length b = pr_rw_buf_len (ps_p ?x)" by blast
    show ?thesis
    proof (cases "?n \<le> pr_rw_buf_len (ps_p ?x)")
      case fits: True
      let ?p = "(ps_p ?x)\<lparr>pr_shared := Some (s\<lparr>sh_open_flags := flags, sh_write_len := n\<rparr>), pr_rw_buf := Some (overwrite b n (path @ [NUL]))\<rparr>"
      have p: "proc_inv ?p"
        using fits b by (intro proc_inv_request(4)[OF i(2) s b(1)]) simp_all
      have upd: "ctx_inv (ps_upd c i y)" if "ps_p y = ?p" "ps_fd y = fd" for y
        using that p i ctx_inv_nth[OF assms i(1)] by (intro ctx_inv_upd[OF assms i(1)]) (simp_all add: ps_inv_def)
      have "safe (afs_write_fsync_close io c fd path flags n) (\<lambda>(r, d). ctx_inv d)"
        using True fits Some s b p i
        by (auto simp: afs_write_fsync_close_def buf_put_def Let_def proc_requests intro!: upd ps_sent_inv[OF assms])
      then show ?thesis by (rule safe_allows)
    next
      case False
      have "2 ^ 64 \<le> ?n"
      proof (rule ccontr)
        assume "\<not> 2 ^ 64 \<le> ?n"
        then have "?n mod 2 ^ 64 = ?n" by simp
        with True False show False by simp
      qed
      with True False Some s b show ?thesis
        by (simp add: afs_write_fsync_close_def buf_put_def Let_def)
    qed
  qed (use Some assms in \<open>auto simp: afs_write_fsync_close_def Let_def split: option.splits\<close>)
qed (use assms in \<open>simp add: afs_write_fsync_close_def\<close>)

lemma taken_mem:
  assumes "ctx_inv d" "taken c d i w"
  obtains s b where "i < length (ac_ps d)" "proc_inv (ps_p (ac_ps d ! i))" "pr_shared (ps_p (ac_ps d ! i)) = Some s"
    "pr_rw_buf (ps_p (ac_ps d ! i)) = Some b" "length b = pr_rw_buf_len (ps_p (ac_ps d ! i))" "ps_fd (ac_ps d ! i) \<ge> 0"
proof -
  from assms have i: "i < length (ac_ps d)" "proc_inv (ps_p (ac_ps d ! i))" "pr_st (ps_p (ac_ps d ! i)) \<noteq> Proc_uninit"
    "ps_fd (ac_ps d ! i) \<ge> 0"
    using ctx_inv_nth[of d i] by (simp_all add: taken_def ps_inv_def)
  from proc_inv_live[OF i(2,3)] i that show thesis by metis
qed

lemma allows_maybe_alloc:
  assumes "ctx_inv c" "alloc_env_ok e"
    and none: "\<And>d. ctx_inv d \<Longrightarrow> allows {Signed_overflow} (k (None, d)) Q"
    and some: "\<And>d i w. ctx_inv d \<Longrightarrow> taken c d i w \<Longrightarrow> allows {Signed_overflow} (k (Some (i, w), d)) Q"
  shows "allows {Signed_overflow} (and_then (maybe_alloc_ps e c) k) Q"
  unfolding allows_and_then
proof (rule allows_mono[OF maybe_alloc_ps_spec[OF assms(1,2)]])
  fix ad assume "case ad of (a, d) \<Rightarrow> ctx_inv d \<and> (case a of None \<Rightarrow> True | Some (i, w) \<Rightarrow> taken c d i w)"
  then show "allows {Signed_overflow} (k ad) Q"
    by (cases ad; cases "fst ad") (auto intro: none some)
qed

lemma ctx_inv_upd_same:
  assumes "ctx_inv c" "i < length (ac_ps c)" "proc_inv (ps_p y)" "ps_fd y = ps_fd (ac_ps c ! i)"
  shows "ctx_inv (ps_upd c i y)"
  using assms ctx_inv_nth[OF assms(1,2)] by (intro ctx_inv_upd) (simp_all add: ps_inv_def)

text \<open>A path put into the buffer of the worker that was taken.\<close>

lemma taken_path:
  assumes "ctx_inv d" "taken c d i w" "length path < pr_rw_buf_len (ps_p (ac_ps d ! i))" "cmd \<noteq> Cmd_none"
    "pr_shared (ps_p (ac_ps d ! i)) = Some s" "pr_rw_buf (ps_p (ac_ps d ! i)) = Some b"
    "p = (ps_p (ac_ps d ! i))\<lparr>pr_rw_buf := Some (overwrite b 0 (path @ [NUL])), pr_shared := Some (s\<lparr>sh_open_flags := flags\<rparr>)\<rparr> \<or>
     p = (ps_p (ac_ps d ! i))\<lparr>pr_rw_buf := Some (overwrite b 0 (path @ [NUL]))\<rparr>"
  shows "ctx_inv (ps_upd d i ((ac_ps d ! i)\<lparr>ps_p := p, ps_is_avail := False, ps_cmd_after_init := cmd\<rparr>))"
    and "safe (ps_sent True d i (ac_ps d ! i) (proc_send_cmd io p cmd)) (\<lambda>(r, d). ctx_inv d)"
proof -
  from taken_mem[OF assms(1,2)] assms(6) have x: "i < length (ac_ps d)" "proc_inv (ps_p (ac_ps d ! i))"
    "length b = pr_rw_buf_len (ps_p (ac_ps d ! i))"
    by (metis option.sel)+
  have "proc_inv p"
    using assms(3,7) x(3) proc_inv_request(1,2)[OF x(2) assms(5,6), where n = 0] by auto
  then show "ctx_inv (ps_upd d i ((ac_ps d ! i)\<lparr>ps_p := p, ps_is_avail := False, ps_cmd_after_init := cmd\<rparr>))"
    and "safe (ps_sent True d i (ac_ps d ! i) (proc_send_cmd io p cmd)) (\<lambda>(r, d). ctx_inv d)"
    using ctx_inv_upd_same[OF assms(1) x(1)] ps_sent_inv[OF assms(1) x(1) _ _ assms(4)] by simp_all
qed

lemma afs_open_inv:
  assumes "ctx_inv c" "alloc_env_ok e"
  shows "allows {Signed_overflow} (afs_open e io c path flags) (\<lambda>(r, d, fd). ctx_inv d)"
  unfolding afs_open_def
proof (rule allows_maybe_alloc[OF assms], goal_cases)
  case (2 d i w)
  from taken_mem[OF this] obtain s b where x: "pr_shared (ps_p (ac_ps d ! i)) = Some s"
    "pr_rw_buf (ps_p (ac_ps d ! i)) = Some b" "length b = pr_rw_buf_len (ps_p (ac_ps d ! i))"
    by metis
  show ?case
  proof (cases "length path < pr_rw_buf_len (ps_p (ac_ps d ! i))")
    case True
    note put = taken_path[OF 2 True _ x(1,2) disjI1[OF refl], where cmd = Cmd_open and flags = flags]
    have "allows {Signed_overflow} (ps_sent True d i (ac_ps d ! i) (proc_open io ((ps_p (ac_ps d ! i))
        \<lparr>pr_rw_buf := Some (overwrite b 0 (path @ [NUL])), pr_shared := Some (s\<lparr>sh_open_flags := flags\<rparr>)\<rparr>))) (\<lambda>(r, d). ctx_inv d)"
      using put(2) by (simp add: proc_requests safe_allows)
    then show ?thesis
      using x True put(1) by (auto simp: Let_def buf_put_def elim: allows_mono)
  qed (use 2 x in \<open>simp add: Let_def\<close>)
qed simp

lemma afs_mkdir_inv:
  assumes "ctx_inv c" "alloc_env_ok e"
  shows "allows {Signed_overflow} (afs_mkdir e io c path) (\<lambda>(r, d, fd). ctx_inv d)"
  unfolding afs_mkdir_def
proof (rule allows_maybe_alloc[OF assms], goal_cases)
  case (2 d i w)
  from taken_mem[OF this] obtain s b where x: "pr_shared (ps_p (ac_ps d ! i)) = Some s"
    "pr_rw_buf (ps_p (ac_ps d ! i)) = Some b" "length b = pr_rw_buf_len (ps_p (ac_ps d ! i))"
    by metis
  show ?case
  proof (cases "length path < pr_rw_buf_len (ps_p (ac_ps d ! i))")
    case True
    note put = taken_path[OF 2 True _ x(1,2) disjI2[OF refl], where cmd = Cmd_mkdir]
    have "allows {Signed_overflow} (ps_sent True d i (ac_ps d ! i) (proc_mkdir io ((ps_p (ac_ps d ! i))
        \<lparr>pr_rw_buf := Some (overwrite b 0 (path @ [NUL]))\<rparr>))) (\<lambda>(r, d). ctx_inv d)"
      using put(2) by (simp add: proc_requests safe_allows)
    then show ?thesis
      using x True put(1) by (auto simp: Let_def buf_put_def elim: allows_mono)
  qed (use 2 x in \<open>simp add: Let_def\<close>)
qed simp

lemma afs_reserve_inv:
  assumes "ctx_inv c" "alloc_env_ok e"
  shows "allows {Signed_overflow} (afs_reserve e c) (\<lambda>(r, d, fd). ctx_inv d)"
  unfolding afs_reserve_def by (rule allows_maybe_alloc[OF assms]) auto

section \<open>Stop and poll\<close>

lemma stop_prep_loop_inv:
  "ctx_inv c \<Longrightarrow> i + n = length (ac_ps c) \<Longrightarrow>
   safe (stop_prep_loop ios i n res c) (\<lambda>(r, d). ctx_inv d \<and> length (ac_ps d) = length (ac_ps c) \<and> ac_evs d = ac_evs c)"
proof (induction ios i n res c rule: stop_prep_loop.induct)
  case (2 ios i n res c)
  let ?x = "ac_ps c ! i"
  have i: "i < length (ac_ps c)" using 2(4) by simp
  have "proc_inv (ps_p ?x)" using ctx_inv_nth[OF 2(3) i] by (simp add: ps_inv_def)
  from proc_stop_prep_inv[OF this, of "ios i"] obtain r p where rp: "proc_stop_prep (ios i) (ps_p ?x) = Inr (r, p)" "proc_inv p"
    by (auto simp: safe_iff)
  let ?d = "ps_upd c i (?x\<lparr>ps_p := p\<rparr>)"
  have d: "ctx_inv ?d" using rp(2) by (intro ctx_inv_upd_same[OF 2(3) i]) simp_all
  show ?case
  proof (cases "r = afs_ok")
    case True
    with 2(2)[OF refl refl _ d, of r] d rp(1) 2(4) show ?thesis by (simp add: Let_def)
  next
    case False
    with 2(1)[OF refl refl, of r] d rp(1) 2(4) show ?thesis by (simp add: Let_def)
  qed
qed simp

lemma afs_stop_prep_inv:
  assumes "ctx_inv c"
  shows "safe (afs_stop_prep ios c) (\<lambda>(r, d). ctx_inv d)"
proof -
  have "ctx_inv (c\<lparr>ac_is_stop_req := True\<rparr>)" using assms by (simp add: ctx_inv_def)
  from stop_prep_loop_inv[OF this, of 0 _ ios afs_ok] have "safe (stop_prep_loop ios 0 (length (ac_ps c)) afs_ok (c\<lparr>ac_is_stop_req := True\<rparr>))
     (\<lambda>(r, d). ctx_inv d)"
    by (auto elim: safe_mono)
  with assms show ?thesis by (simp add: afs_stop_prep_def)
qed

lemma afs_stop_inv: "ctx_inv (snd (afs_stop c))"
  by (simp add: afs_stop_def ctx_inv_def fds_distinct_def room_for_def split: prod.splits)

definition poll_entry :: "int \<Rightarrow> pollfd" where
  "poll_entry fd = \<lparr>pfd_fd = fd, pfd_events = POLLIN, pfd_revents = 0\<rparr>"

definition live_fds :: "ps list \<Rightarrow> int list" where
  "live_fds xs = filter (\<lambda>fd. fd \<noteq> -1) (map (\<lambda>x. pr_fd (ps_p x)) xs)"

lemma live_fds_simps [simp]:
  "live_fds [] = []" "live_fds (x # xs) = (if pr_fd (ps_p x) \<noteq> -1 then pr_fd (ps_p x) # live_fds xs else live_fds xs)"
  by (simp_all add: live_fds_def)

lemma pollfds_loop_spec:
  "len + length xs \<le> length fds \<Longrightarrow>
   safe (pollfds_loop xs (Some fds) (length fds) len) (\<lambda>(a, n). \<exists>fds'. a = Some fds' \<and> length fds' = length fds \<and>
     n = len + length (live_fds xs) \<and> take n fds' = take len fds @ map poll_entry (live_fds xs))"
proof (induction xs arbitrary: fds len)
  case (Cons x xs)
  let ?fd = "pr_fd (ps_p x)"
  show ?case
  proof (cases "?fd = -1")
    case True
    let ?fds = "fds[len := (fds ! len)\<lparr>pfd_fd := -1\<rparr>]"
    from Cons.IH[of len ?fds] Cons.prems True show ?thesis by (simp add: proc_fd_def Let_def)
  next
    case False
    let ?fds = "fds[len := poll_entry ?fd]"
    have t: "take (Suc len) ?fds = take len fds @ [poll_entry ?fd]"
      using Cons.prems by (simp add: take_Suc_conv_app_nth)
    show ?thesis
      using Cons.IH[of "Suc len" ?fds] Cons.prems False t
      by (simp add: proc_fd_def Let_def poll_entry_def del: take_Suc)
  qed
qed auto

lemma afs_pollfds_spec:
  assumes "ctx_inv c"
  shows "safe (afs_pollfds c) (\<lambda>(a, n, d). ctx_inv d \<and> ac_ps d = ac_ps c \<and> n = length (live_fds (ac_ps c)) \<and>
     (case a of None \<Rightarrow> n = 0 | Some fds \<Rightarrow> take n fds = map poll_entry (live_fds (ac_ps c))))"
proof (cases "ac_pfds c")
  case None
  with assms have "ac_ps c = []" by (auto simp: ctx_inv_def room_for_def)
  with None assms show ?thesis by (simp add: afs_pollfds_def ctx_inv_def room_for_def)
next
  case (Some fds)
  with assms have "length (ac_ps c) \<le> length fds" "ac_pfds_maxlen c = length fds" by (simp_all add: ctx_inv_def room_for_def)
  with pollfds_loop_spec[of 0 "ac_ps c" fds] Some assms show ?thesis
    by (auto simp: afs_pollfds_def ctx_inv_def room_for_def safe_iff)
qed

end
