(* ===== verification/Afs_Update.thy ===== *)
theory Afs_Update
  imports Afs_Inv
begin

text \<open>
  \<open>afs_update\<close> keeps the invariant of \<open>Afs_Inv\<close> and never runs out of room for events, as long
  as \<^verbatim>\<open>poll\<close> tells the truth about the workers' sockets.
\<close>

section \<open>Turns of the update\<close>

text \<open>What the turn of one event leaves: the other workers, and all but at most one place for events.\<close>

definition upd_frame :: "afs_ctx \<Rightarrow> afs_ctx \<Rightarrow> nat \<Rightarrow> bool" where
  "upd_frame c d i \<longleftrightarrow> length (ac_ps d) = length (ac_ps c) \<and> (\<forall>j. j \<noteq> i \<longrightarrow> ac_ps d ! j = ac_ps c ! j) \<and>
     pr_evs_len (ps_p (ac_ps d ! i)) = pr_evs_len (ps_p (ac_ps c ! i)) \<and> ac_evs_maxlen d = ac_evs_maxlen c \<and>
     ac_evs_len c \<le> ac_evs_len d \<and> ac_evs_len d \<le> Suc (ac_evs_len c) \<and> ac_is_stop_req d = ac_is_stop_req c \<and> ac_freed d = ac_freed c"

lemma upd_frame_fail [simp]: "upd_frame c (afs_set_fail d m) i = upd_frame c d i"
  by (simp add: upd_frame_def)

lemma ctx_inv_evs: "ctx_inv c \<Longrightarrow> ac_evs_maxlen c = (case ac_evs c of None \<Rightarrow> 0 | Some a \<Rightarrow> length a)"
  by (simp add: ctx_inv_def room_for_def)

lemma out_ev_eq:
  assumes "ctx_inv c" "ac_evs_len c < ac_evs_maxlen c"
  obtains evs where "ac_evs c = Some evs" "ac_evs_len c < length evs"
    "out_ev f c = Inr (c\<lparr>ac_evs := Some (evs[ac_evs_len c := f (evs ! ac_evs_len c)]), ac_evs_len := ac_evs_len c + 1\<rparr>)"
  using assms ctx_inv_evs[OF assms(1)] by (auto simp: out_ev_def split: option.splits)

lemma out_ev_inv:
  assumes "ctx_inv c" "ac_evs_len c < ac_evs_maxlen c"
  shows "safe (out_ev f c) (\<lambda>d. ctx_inv d \<and> ac_ps d = ac_ps c \<and> ac_evs_maxlen d = ac_evs_maxlen c \<and> ac_evs_len d = Suc (ac_evs_len c) \<and>
     ac_is_stop_req d = ac_is_stop_req c \<and> ac_freed d = ac_freed c)"
proof -
  obtain evs where e: "ac_evs c = Some evs" "ac_evs_len c < length evs"
    "out_ev f c = Inr (c\<lparr>ac_evs := Some (evs[ac_evs_len c := f (evs ! ac_evs_len c)]), ac_evs_len := ac_evs_len c + 1\<rparr>)"
    using out_ev_eq[OF assms] .
  with assms(1) show ?thesis by (simp add: ctx_inv_def room_for_def)
qed

lemma upd_frame_upd:
  "i < length (ac_ps c) \<Longrightarrow> pr_evs_len (ps_p y) = pr_evs_len (ps_p (ac_ps c ! i)) \<Longrightarrow> upd_frame c (ps_upd c i y) i"
  by (simp add: upd_frame_def)

lemma upd_frame_out:
  "upd_frame c d i \<Longrightarrow> ac_evs_len d = ac_evs_len c \<Longrightarrow> ac_ps f = ac_ps d \<Longrightarrow> ac_evs_maxlen f = ac_evs_maxlen d \<Longrightarrow>
   ac_evs_len f = Suc (ac_evs_len d) \<Longrightarrow> ac_is_stop_req f = ac_is_stop_req d \<Longrightarrow> ac_freed f = ac_freed d \<Longrightarrow> upd_frame c f i"
  by (auto simp: upd_frame_def)

text \<open>Element \<open>i\<close> replaced by one with the same descriptor or none, and possibly an event put out.\<close>

lemma upd_out_inv:
  assumes "ctx_inv c" "i < length (ac_ps c)" "ac_evs_len c < ac_evs_maxlen c" "proc_inv (ps_p y)"
    "ps_fd y = ps_fd (ac_ps c ! i) \<or> ps_fd y = -1" "pr_evs_len (ps_p y) = pr_evs_len (ps_p (ac_ps c ! i))"
  shows "ctx_inv (ps_upd c i y) \<and> upd_frame c (ps_upd c i y) i"
    and "safe (out_ty fd ty (ps_upd c i y)) (\<lambda>d. ctx_inv d \<and> upd_frame c d i)"
    and "safe (out_ty fd ty (afs_set_fail (ps_upd c i y) m)) (\<lambda>d. ctx_inv d \<and> upd_frame c d i)"
proof -
  have y: "ctx_inv (ps_upd c i y)"
    using assms ctx_inv_nth[OF assms(1,2)] by (intro ctx_inv_upd) (auto simp: ps_inv_def)
  moreover have f: "upd_frame c (ps_upd c i y) i" using assms by (intro upd_frame_upd)
  ultimately show "ctx_inv (ps_upd c i y) \<and> upd_frame c (ps_upd c i y) i" by simp
  have "ac_evs_len (ps_upd c i y) < ac_evs_maxlen (ps_upd c i y)" using assms(3) by simp
  from out_ev_inv[OF y this] show "safe (out_ty fd ty (ps_upd c i y)) (\<lambda>d. ctx_inv d \<and> upd_frame c d i)"
    unfolding out_ty_def by (rule safe_mono) (auto intro: upd_frame_out[OF f])
  have "ctx_inv (afs_set_fail (ps_upd c i y) m)" "ac_evs_len (afs_set_fail (ps_upd c i y) m) < ac_evs_maxlen (afs_set_fail (ps_upd c i y) m)"
    using y assms(3) by simp_all
  from out_ev_inv[OF this] show "safe (out_ty fd ty (afs_set_fail (ps_upd c i y) m)) (\<lambda>d. ctx_inv d \<and> upd_frame c d i)"
    unfolding out_ty_def by (rule safe_mono) (auto intro: upd_frame_out[OF f])
qed

lemma upd_init_inv:
  assumes "ctx_inv c" "i < length (ac_ps c)" "ac_evs_len c < ac_evs_maxlen c" "x = ac_ps c ! i"
  shows "safe (upd_init e c i x) (\<lambda>d. ctx_inv d \<and> upd_frame c d i)"
proof -
  have p: "proc_inv (ps_p x)" using ctx_inv_nth[OF assms(1,2)] assms(4) by (simp add: ps_inv_def)
  have sent: "safe (proc_send_cmd (ue_after_init e) (ps_p x) cmd) (\<lambda>(r, q). proc_inv q \<and> pr_evs_len q = pr_evs_len (ps_p x))"
    if "cmd \<noteq> Cmd_none" for cmd
    using proc_send_cmd_inv[OF p that] by (rule safe_mono) (auto simp: proc_same_def)
  note out = upd_out_inv[OF assms(1,2,3)]
  have send: "safe (and_then (proc_send_cmd (ue_after_init e) (ps_p x) cmd) (\<lambda>(r, q).
      let c = ps_upd c i (x\<lparr>ps_is_avail := True, ps_p := q, ps_cmd_after_init := Cmd_none\<rparr>) in
      if r \<noteq> afs_ok then out_ty fd ty (afs_set_fail c (pr_fail q)) else Inr c)) (\<lambda>d. ctx_inv d \<and> upd_frame c d i)"
    if "cmd \<noteq> Cmd_none" for cmd fd ty
    using sent[OF that] unfolding safe_and_then
    by (rule safe_mono) (auto simp: Let_def assms(4) intro!: out conjunct1[OF out(1)] conjunct2[OF out(1)])
  consider "ps_cmd_after_init x \<in> {Cmd_open, Cmd_mkdir, Cmd_write_fsync_close}" | "ps_cmd_after_init x = Cmd_none"
    | "ps_cmd_after_init x \<notin> {Cmd_none, Cmd_open, Cmd_mkdir, Cmd_write_fsync_close}" by blast
  then show ?thesis
  proof cases
    case 1
    with send show ?thesis by (auto simp: upd_init_def Let_def proc_requests)
  next
    case 2
    with out(1)[of "x\<lparr>ps_is_avail := True\<rparr>"] p assms(4) show ?thesis by (simp add: upd_init_def Let_def)
  next
    case 3
    with out(2)[of "x\<lparr>ps_is_avail := True, ps_cmd_after_init := Cmd_none\<rparr>"] p assms(4) show ?thesis
      by (simp add: upd_init_def Let_def)
  qed
qed

lemma upd_init_fail_inv:
  assumes "ctx_inv c" "i < length (ac_ps c)" "ac_evs_len c < ac_evs_maxlen c" "x = ac_ps c ! i"
  shows "safe (upd_init_fail c i x) (\<lambda>d. ctx_inv d \<and> upd_frame c d i)"
  using upd_out_inv[OF assms(1,2,3), of "x\<lparr>ps_cmd_after_init := Cmd_none\<rparr>"] ctx_inv_nth[OF assms(1,2)] assms(4)
  by (simp add: upd_init_fail_def Let_def ps_inv_def)

lemma upd_switch_inv:
  assumes "ctx_inv c" "i < length (ac_ps c)" "ac_evs_len c < ac_evs_maxlen c" "x = ac_ps c ! i"
  shows "safe (upd_switch e c i x ev del) (\<lambda>(add, del', d). ctx_inv d \<and> upd_frame c d i \<and> (add \<longrightarrow> ac_evs_len d = ac_evs_len c))"
proof -
  have p: "proc_inv (ps_p x)" using ctx_inv_nth[OF assms(1,2)] assms(4) by (simp add: ps_inv_def)
  have "ctx_inv (ps_upd c i (x\<lparr>ps_fd := -1\<rparr>)) \<and> upd_frame c (ps_upd c i (x\<lparr>ps_fd := -1\<rparr>)) i"
    "ctx_inv (ps_upd c i (x\<lparr>ps_fd := -1, ps_is_avail := False\<rparr>)) \<and> upd_frame c (ps_upd c i (x\<lparr>ps_fd := -1, ps_is_avail := False\<rparr>)) i"
    using upd_out_inv(1)[OF assms(1,2,3)] p assms(4) by simp_all
  moreover have "upd_frame c c i" by (simp add: upd_frame_def)
  ultimately show ?thesis
    using assms(1) upd_init_inv[OF assms, of e] upd_init_fail_inv[OF assms]
    by (cases "afs_ev_ty ev") (simp_all add: upd_switch_def Let_def)
qed

lemma upd_event_inv:
  assumes "ctx_inv c" "i < length (ac_ps c)" "ac_evs_len c < ac_evs_maxlen c"
  shows "safe (upd_event e c i k del) (\<lambda>(del', d). ctx_inv d \<and> upd_frame c d i)"
proof -
  let ?x = "ac_ps c ! i"
  let ?ev = "(pr_evs (ps_p ?x) ! k)\<lparr>ev_fd := ps_fd ?x\<rparr>"
  let ?y = "?x\<lparr>ps_p := (ps_p ?x)\<lparr>pr_evs := (pr_evs (ps_p ?x))[k := ?ev]\<rparr>\<rparr>"
  let ?c = "ps_upd c i ?y"
  have y: "proc_inv (ps_p ?y)" using ctx_inv_nth[OF assms(1,2)] by (simp add: ps_inv_def proc_inv_def)
  have c: "ctx_inv ?c" "i < length (ac_ps ?c)" "ac_evs_len ?c < ac_evs_maxlen ?c" "?y = ac_ps ?c ! i"
    using upd_out_inv(1)[OF assms, of ?y] y assms(2,3) by simp_all
  have frame: "upd_frame ?c d i \<Longrightarrow> upd_frame c d i" for d by (simp add: upd_frame_def assms(2))
  have put: "safe (out_ev (\<lambda>_. ?ev) d) (\<lambda>d. ctx_inv d \<and> upd_frame c d i)"
    if "ctx_inv d" "upd_frame c d i" "ac_evs_len d = ac_evs_len c" for d
  proof -
    have "ac_evs_len d < ac_evs_maxlen d" using that(2,3) assms(3) by (simp add: upd_frame_def)
    from out_ev_inv[OF that(1) this] show ?thesis by (rule safe_mono) (auto intro: upd_frame_out[OF that(2,3)])
  qed
  from upd_switch_inv[OF c, of e ?ev del] obtain add del' d where d: "upd_switch e ?c i ?y ?ev del = Inr (add, del', d)"
    "ctx_inv d" "upd_frame ?c d i" "add \<longrightarrow> ac_evs_len d = ac_evs_len ?c"
    by (auto simp: safe_iff)
  let ?d = "if afs_ev_is_fail ?ev then afs_set_fail d (pr_fail (ps_p (ac_ps d ! i))) else d"
  have "ctx_inv ?d" "upd_frame c ?d i" "add \<longrightarrow> ac_evs_len ?d = ac_evs_len c"
    using d frame by auto
  then have "safe (if add then out_ev (\<lambda>_. ?ev) ?d else Inr ?d) (\<lambda>d. ctx_inv d \<and> upd_frame c d i)"
    using put by (cases add) (simp_all only: if_True if_False safe_Inr)
  with d(1) show ?thesis by (simp only: upd_event_def Let_def and_then_Inr prod.case safe_and_then safe_Inr)
qed

lemma upd_events_inv:
  "ctx_inv c \<Longrightarrow> i < length (ac_ps c) \<Longrightarrow> ac_evs_len c + n \<le> ac_evs_maxlen c \<Longrightarrow>
   safe (upd_events e i k n del c) (\<lambda>(del', d). ctx_inv d \<and> length (ac_ps d) = length (ac_ps c) \<and>
     (\<forall>j. j \<noteq> i \<longrightarrow> ac_ps d ! j = ac_ps c ! j) \<and> ac_evs_maxlen d = ac_evs_maxlen c \<and> ac_evs_len d \<le> ac_evs_len c + n \<and>
     ac_is_stop_req d = ac_is_stop_req c \<and> ac_freed d = ac_freed c)"
proof (induction n arbitrary: k del c)
  case (Suc n)
  then have "ac_evs_len c < ac_evs_maxlen c" by simp
  from upd_event_inv[OF Suc.prems(1,2) this, of e k del] obtain del' d where
    d: "upd_event e c i k del = Inr (del', d)" "ctx_inv d" "upd_frame c d i"
    by (auto simp: safe_iff)
  then have "safe (upd_events e i (Suc k) n del' d) (\<lambda>(del', f). ctx_inv f \<and> length (ac_ps f) = length (ac_ps d) \<and>
     (\<forall>j. j \<noteq> i \<longrightarrow> ac_ps f ! j = ac_ps d ! j) \<and> ac_evs_maxlen f = ac_evs_maxlen d \<and> ac_evs_len f \<le> ac_evs_len d + n \<and>
     ac_is_stop_req f = ac_is_stop_req d \<and> ac_freed f = ac_freed d)"
    using Suc.prems by (intro Suc.IH) (auto simp: upd_frame_def)
  with d show ?case by (auto simp: upd_frame_def elim!: safe_mono)
qed simp

lemma nth_del: "j \<le> m \<Longrightarrow> j < length xs \<Longrightarrow> (take j xs @ drop (Suc j) xs) ! m = xs ! Suc m"
proof -
  assume "j \<le> m" "j < length xs"
  then have "\<not> m < length (take j xs)" "Suc j + (m - length (take j xs)) = Suc m" by auto
  with \<open>j < length xs\<close> show ?thesis by (simp only: nth_append if_False nth_drop)
qed

lemma ps_del_at:
  assumes "ctx_inv c" "i < length (ac_ps c)"
  obtains j d where "j \<le> i" "ps_del c (ps_fd (ac_ps c ! i)) = (afs_ok, d)" "ctx_inv d"
    "ac_ps d = take j (ac_ps c) @ drop (Suc j) (ac_ps c)" "length (ac_ps c) = Suc (length (ac_ps d))"
    "ac_evs_len d = ac_evs_len c" "ac_evs_maxlen d = ac_evs_maxlen c" "ac_is_stop_req d = ac_is_stop_req c"
    "ac_freed d = ac_freed c @ [ac_ps c ! j]"
proof -
  from ps_find_le[OF assms(2)] obtain j where j: "j \<le> i" "ps_find (ac_ps c) (ps_fd (ac_ps c ! i)) = Some j" by blast
  let ?d = "c\<lparr>ac_ps := take j (ac_ps c) @ drop (Suc j) (ac_ps c), ac_freed := ac_freed c @ [ac_ps c ! j]\<rparr>"
  have d: "ps_del c (ps_fd (ac_ps c ! i)) = (afs_ok, ?d)" using j(2) by (simp add: ps_del_def)
  have "ctx_inv ?d" using ps_del_inv[OF assms(1), of "ps_fd (ac_ps c ! i)"] d by simp
  with j(1) d show thesis by (rule that) (use j(1) assms(2) in simp_all)
qed

text \<open>One turn of the loop over the workers, and what it leaves to those after it.\<close>

definition turn_frame :: "nat \<Rightarrow> bool \<Rightarrow> afs_ctx \<Rightarrow> afs_ctx \<Rightarrow> bool" where
  "turn_frame i removed c d \<longleftrightarrow>
     (if removed then length (ac_ps c) = Suc (length (ac_ps d)) \<and> (\<forall>m \<ge> i. ac_ps d ! m = ac_ps c ! Suc m)
      else length (ac_ps d) = length (ac_ps c) \<and> (\<forall>m > i. ac_ps d ! m = ac_ps c ! m)) \<and>
     ac_evs_maxlen d = ac_evs_maxlen c \<and> ac_evs_len d \<le> ac_evs_len c + 2 \<and> ac_is_stop_req d = ac_is_stop_req c"

lemma upd_ps_inv:
  assumes "ctx_inv c" "i < length (ac_ps c)" "ac_evs_len c + 2 \<le> ac_evs_maxlen c"
    "poll_true (proc_polled (ps_p (ac_ps c ! i)) fds) (pr_child (ps_p (ac_ps c ! i)))"
  shows "safe (upd_ps e fds c i) (\<lambda>(removed, d). ctx_inv d \<and> turn_frame i removed c d)"
proof -
  let ?x = "ac_ps c ! i"
  have "proc_inv (ps_p ?x)" using ctx_inv_nth[OF assms(1,2)] by (simp add: ps_inv_def)
  from proc_update_ok[OF this assms(4), of e] obtain r p where p: "proc_update e (ps_p ?x) fds = Inr (r, p)" "proc_inv p" "pr_evs_len p \<le> 2"
    by (auto simp: safe_iff proc_updated_def)
  let ?c = "ps_upd c i (?x\<lparr>ps_p := p\<rparr>)"
  have c: "ctx_inv ?c" using p(2) by (intro ctx_inv_upd_same[OF assms(1,2)]) simp_all
  have "i < length (ac_ps ?c)" "ac_evs_len ?c + pr_evs_len p \<le> ac_evs_maxlen ?c" using assms(2,3) p(3) by simp_all
  from upd_events_inv[OF c this, of e 0 False] obtain del d where d: "upd_events e i 0 (pr_evs_len p) False ?c = Inr (del, d)" "ctx_inv d"
    "length (ac_ps d) = length (ac_ps c)" "\<forall>j. j \<noteq> i \<longrightarrow> ac_ps d ! j = ac_ps c ! j" "ac_evs_maxlen d = ac_evs_maxlen c"
    "ac_evs_len d \<le> ac_evs_len c + 2" "ac_is_stop_req d = ac_is_stop_req c"
    using p(3) by (auto simp: safe_iff)
  show ?thesis
  proof (cases "r \<noteq> afs_ok \<or> del")
    case True
    obtain j f where f: "j \<le> i" "ps_del d (ps_fd (ac_ps d ! i)) = (afs_ok, f)" "ctx_inv f"
      "ac_ps f = take j (ac_ps d) @ drop (Suc j) (ac_ps d)" "length (ac_ps d) = Suc (length (ac_ps f))"
      "ac_evs_len f = ac_evs_len d" "ac_evs_maxlen f = ac_evs_maxlen d" "ac_is_stop_req f = ac_is_stop_req d"
      using ps_del_at[OF d(2), of i] assms(2) d(3) by metis
    have "ac_ps f ! m = ac_ps c ! Suc m" if "m \<ge> i" for m
      using nth_del[of j m "ac_ps d"] f(1,4) d(3,4) that assms(2) by simp
    with f d True p(1) show ?thesis by (simp add: upd_ps_def proc_evs_def turn_frame_def)
  next
    case False
    with d p(1) show ?thesis by (simp add: upd_ps_def proc_evs_def turn_frame_def)
  qed
qed

lemma update_loop_inv:
  "ctx_inv c \<Longrightarrow> i + n = length (ac_ps c) \<Longrightarrow> ac_evs_len c + 2 * n \<le> ac_evs_maxlen c \<Longrightarrow>
   (\<And>j. i \<le> j \<Longrightarrow> j < length (ac_ps c) \<Longrightarrow> poll_true (proc_polled (ps_p (ac_ps c ! j)) fds) (pr_child (ps_p (ac_ps c ! j)))) \<Longrightarrow>
   safe (update_loop es fds i n c) (\<lambda>d. ctx_inv d \<and> ac_evs_maxlen d = ac_evs_maxlen c \<and> ac_evs_len d \<le> ac_evs_len c + 2 * n \<and>
     ac_is_stop_req d = ac_is_stop_req c)"
proof (induction n arbitrary: i c)
  case (Suc n)
  have i: "i < length (ac_ps c)" "ac_evs_len c + 2 \<le> ac_evs_maxlen c" using Suc.prems(2,3) by simp_all
  from upd_ps_inv[OF Suc.prems(1) i Suc.prems(4)[OF order_refl i(1)], of "es n"] obtain removed d where
    d: "upd_ps (es n) fds c i = Inr (removed, d)" "ctx_inv d" "turn_frame i removed c d"
    by (auto simp: safe_iff)
  have "safe (update_loop es fds (if removed then i else Suc i) n d)
      (\<lambda>f. ctx_inv f \<and> ac_evs_maxlen f = ac_evs_maxlen d \<and> ac_evs_len f \<le> ac_evs_len d + 2 * n \<and> ac_is_stop_req f = ac_is_stop_req d)"
    using Suc.prems d(3) by (intro Suc.IH d(2)) (auto simp: turn_frame_def split: if_splits)
  with d(1,3) show ?case by (auto simp: turn_frame_def elim!: safe_mono)
qed simp

definition polls_true :: "afs_ctx \<Rightarrow> pollfd list \<Rightarrow> bool" where
  "polls_true c fds \<longleftrightarrow> (\<forall>x \<in> set (ac_ps c). poll_true (proc_polled (ps_p x) fds) (pr_child (ps_p x)))"

lemma afs_update_inv:
  assumes "ctx_inv c" "polls_true c fds" "ac_is_stop_req c \<longrightarrow> ac_evs c \<noteq> None"
  shows "safe (afs_update es c fds) ctx_inv"
proof -
  let ?c = "c\<lparr>ac_evs_len := 0\<rparr>" and ?n = "length (ac_ps c)"
  have c: "ctx_inv ?c" "?n * 3 \<le> ac_evs_maxlen c" "ac_evs c = None \<longrightarrow> ac_ps c = []"
    "ac_is_stop_req c \<longrightarrow> 0 < ac_evs_maxlen c"
    using assms(1,3) by (auto simp: ctx_inv_def room_for_def proc_evs_maxlen_def)
  have "safe (update_loop es fds 0 ?n ?c) (\<lambda>d. ctx_inv d \<and> ac_evs_maxlen d = ac_evs_maxlen ?c \<and>
      ac_evs_len d \<le> ac_evs_len ?c + 2 * ?n \<and> ac_is_stop_req d = ac_is_stop_req ?c)"
    using c(2) assms(2) by (intro update_loop_inv c(1)) (auto simp: polls_true_def)
  then obtain d where d: "update_loop es fds 0 ?n ?c = Inr d" "ctx_inv d" "ac_evs_maxlen d = ac_evs_maxlen c" "ac_evs_len d \<le> 2 * ?n"
    "ac_is_stop_req d = ac_is_stop_req c"
    by (auto simp: safe_iff)
  have "ac_is_stop_req c \<Longrightarrow> ac_evs_len d < ac_evs_maxlen d" using c(2,4) d(3,4) by (cases ?n) auto
  then have "ac_is_stop_req c \<Longrightarrow> safe (out_ty (-1) afs_ev_stop d) ctx_inv"
    unfolding out_ty_def using safe_mono[OF out_ev_inv[OF d(2)]] by blast
  with c(3) d show ?thesis by (auto simp: afs_update_def Let_def)
qed

text \<open>
  Only a stop requested of a context that never had a worker is not survived: then there is no
  array to report it in.
\<close>

lemma afs_update_null:
  assumes "ac_is_stop_req c" "ac_evs c = None" "ac_ps c = []"
  shows "afs_update es c fds = Inl Null_deref"
  using assms by (simp add: afs_update_def out_ty_def out_ev_def)

end
