(* ===== verification/Afs_System.thy ===== *)
theory Afs_System
  imports Afs_Update
begin

text \<open>
  The asynchronous file module together with its worker processes: the calls of the
  interface in any order, interleaved with the steps of the processes. The theorems on the
  whole system: which operations can end in a fault, and in which one, the two sides of every
  worker stay in step, and the descriptors to poll are those of the workers.
\<close>

section \<open>The system\<close>

text \<open>
  The operations of the interface, interleaved in any order with the steps of the worker
  processes, with their sudden end, and with the user's writes to the buffer that
  \<^verbatim>\<open>afs_get_rw_buf\<close> hands out.
\<close>

datatype afs_op =
    Do_init
  | Do_open alloc_env io_end string int
  | Do_close io_end int
  | Do_fsync io_end int
  | Do_write io_end int nat
  | Do_readall io_end int
  | Do_mkdir alloc_env io_end string
  | Do_reserve alloc_env
  | Do_write_fsync_close io_end int string int nat
  | Do_stop_prep "nat \<Rightarrow> io_end"
  | Do_stop
  | Do_pollfds
  | Do_update "nat \<Rightarrow> update_env" "pollfd list"
  | Do_child nat sock_io child_env
  | Do_kill nat
  | Do_fill nat string

definition ps_map :: "afs_ctx \<Rightarrow> nat \<Rightarrow> (proc \<Rightarrow> proc) \<Rightarrow> afs_ctx" where
  "ps_map c i f = ps_upd c i ((ac_ps c ! i)\<lparr>ps_p := f (ps_p (ac_ps c ! i))\<rparr>)"

fun afs_exec :: "afs_op \<Rightarrow> afs_ctx \<Rightarrow> afs_ctx outcome" where
  "afs_exec Do_init c = Inr (afs_init c)"
| "afs_exec (Do_open e io path flags) c = and_then (afs_open e io c path flags) (\<lambda>(r, d, fd). Inr d)"
| "afs_exec (Do_close io fd) c = and_then (afs_close io c fd) (\<lambda>(r, d). Inr d)"
| "afs_exec (Do_fsync io fd) c = and_then (afs_fsync io c fd) (\<lambda>(r, d). Inr d)"
| "afs_exec (Do_write io fd len) c = and_then (afs_write io c fd len) (\<lambda>(r, d). Inr d)"
| "afs_exec (Do_readall io fd) c = and_then (afs_readall io c fd) (\<lambda>(r, d). Inr d)"
| "afs_exec (Do_mkdir e io path) c = and_then (afs_mkdir e io c path) (\<lambda>(r, d, fd). Inr d)"
| "afs_exec (Do_reserve e) c = and_then (afs_reserve e c) (\<lambda>(r, d, fd). Inr d)"
| "afs_exec (Do_write_fsync_close io fd path flags len) c =
     and_then (afs_write_fsync_close io c fd path flags len) (\<lambda>(r, d). Inr d)"
| "afs_exec (Do_stop_prep ios) c = and_then (afs_stop_prep ios c) (\<lambda>(r, d). Inr d)"
| "afs_exec Do_stop c = Inr (snd (afs_stop c))"
| "afs_exec Do_pollfds c = and_then (afs_pollfds c) (\<lambda>(a, n, d). Inr d)"
| "afs_exec (Do_update es fds) c = afs_update es c fds"
| "afs_exec (Do_child i io e) c =
     Inr (if i < length (ac_ps c)
          then ps_map c i (\<lambda>p. case proc_child_step io e p of None \<Rightarrow> p | Some q \<Rightarrow> q) else c)"
| "afs_exec (Do_kill i) c = Inr (if i < length (ac_ps c) then ps_map c i proc_child_killed else c)"
| "afs_exec (Do_fill i b) c = Inr (if i < length (ac_ps c) then ps_map c i (\<lambda>p. p\<lparr>pr_rw_buf := Some b\<rparr>) else c)"

text \<open>
  What the allocator, the kernel and the user promise: memory of the right size, valid process
  numbers and descriptors, reads that fit the buffer, \<^verbatim>\<open>poll\<close> telling the truth, writes inside
  the buffer.
\<close>

fun afs_op_ok :: "afs_op \<Rightarrow> afs_ctx \<Rightarrow> bool" where
  "afs_op_ok (Do_open e io path flags) c = alloc_env_ok e"
| "afs_op_ok (Do_mkdir e io path) c = alloc_env_ok e"
| "afs_op_ok (Do_reserve e) c = alloc_env_ok e"
| "afs_op_ok (Do_update es fds) c = polls_true c fds"
| "afs_op_ok (Do_child i io e) c =
     (i < length (ac_ps c) \<longrightarrow> (case pr_rw_buf (ps_p (ac_ps c ! i)) of None \<Rightarrow> True | Some b \<Rightarrow> child_env_ok e b))"
| "afs_op_ok (Do_fill i b) c =
     (i < length (ac_ps c) \<longrightarrow>
      pr_rw_buf (ps_p (ac_ps c ! i)) \<noteq> None \<and> length b = pr_rw_buf_len (ps_p (ac_ps c ! i)))"
| "afs_op_ok _ c = True"

lemma ps_map_inv:
  assumes "ctx_inv c" "i < length (ac_ps c)" "proc_inv (f (ps_p (ac_ps c ! i)))"
  shows "ctx_inv (ps_map c i f)"
  using assms(3) by (auto simp: ps_map_def intro!: ctx_inv_upd_same[OF assms(1,2)])

lemma proc_inv_fill: "proc_inv p \<Longrightarrow> pr_rw_buf p \<noteq> None \<Longrightarrow> length b = pr_rw_buf_len p \<Longrightarrow> proc_inv (p\<lparr>pr_rw_buf := Some b\<rparr>)"
  by (auto simp: proc_inv_def proc_mem_def split: if_splits)

text \<open>
  The faults an operation can end in: the counter of descriptors overflows when a worker is
  added; a stop is reported to a context that has no array of events; the sum of the lengths
  given to \<^verbatim>\<open>afs_write_fsync_close\<close> wraps around.
\<close>

fun afs_fault :: "afs_op \<Rightarrow> afs_ctx \<Rightarrow> fault \<Rightarrow> bool" where
  "afs_fault (Do_open e io path flags) c f \<longleftrightarrow> f = Signed_overflow"
| "afs_fault (Do_mkdir e io path) c f \<longleftrightarrow> f = Signed_overflow"
| "afs_fault (Do_reserve e) c f \<longleftrightarrow> f = Signed_overflow"
| "afs_fault (Do_update es fds) c f \<longleftrightarrow> f = Null_deref \<and> ac_is_stop_req c \<and> ac_evs c = None"
| "afs_fault (Do_write_fsync_close io fd path flags len) c f \<longleftrightarrow> f = Out_of_bounds \<and> 2 ^ 64 \<le> len + (length path + 1)"
| "afs_fault op c f \<longleftrightarrow> False"

lemma afs_exec_inv:
  assumes "ctx_inv c" "afs_op_ok op c"
  shows "allows {f. afs_fault op c f} (afs_exec op c) ctx_inv"
proof (cases op)
  case (Do_child i io e)
  have "proc_inv (case proc_child_step io e (ps_p (ac_ps c ! i)) of None \<Rightarrow> ps_p (ac_ps c ! i) | Some q \<Rightarrow> q)"
    if i: "i < length (ac_ps c)"
    using ctx_inv_nth[OF assms(1) i] proc_child_step_inv[of io e "ps_p (ac_ps c ! i)"] assms(2) Do_child i
    by (auto simp: ps_inv_def split: option.splits)
  with Do_child assms(1) show ?thesis by (auto intro!: ps_map_inv)
next
  case (Do_kill i)
  with assms ctx_inv_nth[OF assms(1), of i] show ?thesis by (auto intro!: ps_map_inv proc_child_killed_inv simp: ps_inv_def)
next
  case (Do_fill i b)
  with assms ctx_inv_nth[OF assms(1), of i] show ?thesis by (auto intro!: ps_map_inv proc_inv_fill simp: ps_inv_def)
next
  case (Do_open e io path flags)
  with afs_open_inv[OF assms(1), of e io path flags] assms(2) show ?thesis by (auto elim!: allows_mono)
next
  case (Do_mkdir e io path)
  with afs_mkdir_inv[OF assms(1), of e io path] assms(2) show ?thesis by (auto elim!: allows_mono)
next
  case (Do_reserve e)
  with afs_reserve_inv[OF assms(1), of e] assms(2) show ?thesis by (auto elim!: allows_mono)
next
  case (Do_close io fd)
  with afs_close_inv[OF assms(1), of io fd] show ?thesis by (auto intro!: safe_allows elim!: safe_mono)
next
  case (Do_fsync io fd)
  with afs_fsync_inv[OF assms(1), of io fd] show ?thesis by (auto intro!: safe_allows elim!: safe_mono)
next
  case (Do_write io fd len)
  with afs_write_inv[OF assms(1), of io fd len] show ?thesis by (auto intro!: safe_allows elim!: safe_mono)
next
  case (Do_readall io fd)
  with afs_readall_inv[OF assms(1), of io fd] show ?thesis by (auto intro!: safe_allows elim!: safe_mono)
next
  case (Do_write_fsync_close io fd path flags len)
  with afs_write_fsync_close_inv[OF assms(1), of len path io fd flags] show ?thesis by (auto elim!: allows_mono)
next
  case (Do_stop_prep ios)
  with afs_stop_prep_inv[OF assms(1), of ios] show ?thesis by (auto intro!: safe_allows elim!: safe_mono)
next
  case Do_pollfds
  with afs_pollfds_spec[OF assms(1)] show ?thesis by (auto intro!: safe_allows elim!: safe_mono)
next
  case (Do_update es fds)
  show ?thesis
  proof (cases "ac_is_stop_req c \<and> ac_evs c = None")
    case True
    with assms(1) have "ac_ps c = []" by (auto simp: ctx_inv_def room_for_def proc_evs_maxlen_def)
    with True Do_update afs_update_null[of c es fds] show ?thesis by simp
  next
    case False
    with Do_update afs_update_inv[OF assms(1), of fds es] assms(2) show ?thesis by (auto intro!: safe_allows)
  qed
qed (simp_all add: ctx_inv_init afs_stop_inv)

interpretation afs_sys: step_invariant afs_exec afs_op_ok ctx_inv "{Signed_overflow, Null_deref, Out_of_bounds}"
proof unfold_locales
  fix c op assume "ctx_inv c" "afs_op_ok op c"
  from afs_exec_inv[OF this] show "allows {Signed_overflow, Null_deref, Out_of_bounds} (afs_exec op c) ctx_inv"
    by (cases "afs_exec op c"; cases op) auto
qed

lemmas afs_run_inv = afs_sys.run_invariant[OF ctx_inv_init]

section \<open>A small context to evaluate on\<close>

definition demo_shared :: proc_shared where
  "demo_shared = shared_fresh\<lparr>sh_st := Child_idle, sh_res := Res_ok\<rparr>"

definition demo_child :: "int \<Rightarrow> child" where
  "demo_child fd = \<lparr>ch_pc = Pc_read, ch_fd = fd, ch_in = 0, ch_out = 0, ch_calls = []\<rparr>"

definition demo_proc :: proc where
  "demo_proc = \<lparr>pr_fail = [], pr_is_stop_req = False, pr_st = Proc_avail, pr_evs = replicate 3 afs_ev_zero, pr_evs_len = 0,
     pr_shared = Some demo_shared, pr_rw_buf = Some ''hello'', pr_rw_buf_len = 5, pr_mmap_start = Mmap_at, pr_mmap_len = 12288,
     pr_pid = 7, pr_fd = 4, pr_child = Some (demo_child 5)\<rparr>"

definition demo_ps :: ps where
  "demo_ps = \<lparr>ps_fd = 0, ps_p = demo_proc, ps_cmd_after_init = Cmd_none, ps_is_avail = True\<rparr>"

definition demo_ctx :: "ps list \<Rightarrow> afs_ctx" where
  "demo_ctx xs = \<lparr>ac_fail = [], ac_is_stop_req = False, ac_ps = xs, ac_pfds = Some (replicate 4 pollfd_zero), ac_pfds_maxlen = 4,
     ac_pfds_len = 0, ac_evs = Some (replicate 12 afs_ev_zero), ac_evs_maxlen = 12, ac_evs_len = 0, ac_freed = []\<rparr>"

definition demo_env :: "write_res list \<Rightarrow> child_env" where
  "demo_env ws = \<lparr>ce_open = 6, ce_open_again = 6, ce_fsync = True, ce_fsync_again = True, ce_writes = ws, ce_read = None,
     ce_mkdir = Mkdir_ok, ce_stat = Stat_error, ce_realpath = Some ''/hello''\<rparr>"

definition demo_update :: update_env where
  "demo_update = \<lparr>ue_wait = 0, ue_exit = (0, True), ue_after_init = (0, True)\<rparr>"

definition demo_fds :: "int list \<Rightarrow> pollfd list" where
  "demo_fds fds = map (\<lambda>fd. \<lparr>pfd_fd = fd, pfd_events = POLLIN, pfd_revents = POLLIN\<rparr>) fds"

lemmas demo_defs = demo_shared_def demo_child_def demo_proc_def demo_ps_def demo_ctx_def demo_env_def demo_update_def demo_fds_def
  shared_fresh_def

lemma poll_in [simp]: "died POLLIN = False" "readable POLLIN = True"
  by (simp_all add: died_def readable_def)

lemma demo_proc_inv: "proc_inv demo_proc"
  by (simp add: proc_inv_def proc_mem_def demo_defs proc_evs_maxlen_def idle_def)

section \<open>Safety of every run\<close>

definition demo_alloc :: alloc_env where
  "demo_alloc = \<lparr>ae_ps = Some demo_ps, ae_pfds = True, ae_evs = True,
     ae_spawn = \<lparr>se_pgs = 4096, se_socketpair = Some (4, 5), se_mmap = True, se_fork = Some 7, se_notify = (0, True)\<rparr>\<rparr>"

definition demo_run :: "afs_op list" where
  "demo_run = [Do_reserve demo_alloc, Do_child 0 Io_done (demo_env []), Do_child 0 Io_done (demo_env []),
     Do_child 0 Io_done (demo_env []), Do_child 0 Io_done (demo_env []), Do_pollfds, Do_update (\<lambda>_. demo_update) (demo_fds [4])]"


lemmas run_defs = demo_run_def demo_alloc_def demo_defs run_ops.simps afs_exec.simps afs_reserve_def maybe_alloc_ps_def ps_add_def ps_get_def ps_len_def
  ps_grow_pfds_def ps_grow_evs_def ps_next_fd_def proc_init_def proc_notify_child_eq child_wake_def child_forked_def
  afs_init_def ps_map_def ps_upd_def proc_child_step_def child_run_cmd_def child_done_def afs_pollfds_def proc_fd_def
  afs_update_def upd_ps_def proc_update_def proc_update_init_pend_def proc_read_byte_def with_shared_def
  proc_must_add_ev_def proc_add_ev_def proc_evs_def upd_event_def upd_switch_def upd_init_def afs_ev_ty_def afs_ev_is_fail_def
  proc_evs_maxlen_def evs_pfds_prealloc_len_def mmap_len_def proc_shared_size_def rw_buf_len_def pagesize_def
  afs_ev_zero_def pollfd_zero_def

lemma demo_run_ok: "run_ok afs_exec afs_op_ok demo_run (afs_init (demo_ctx []))"
  by (simp add: run_defs alloc_env_ok_def spawn_env_ok_def child_env_ok_def polls_true_def proc_polled_def poll_true_def)

lemma demo_run_avail:
  "\<exists>d x. run_ops afs_exec demo_run (afs_init (demo_ctx [])) = Inr d \<and> ac_ps d = [x] \<and> pr_st (ps_p x) = Proc_avail \<and> pr_fd (ps_p x) = 4"
  by (simp add: run_defs)


text \<open>
  C22: The two sides of a worker stay in step, so that the branches the code marks as never
  happening are not taken: in every state a run reaches, a command sent to an available
  worker is refused only when the socket fails, a starting worker whose socket is readable
  becomes available, and a busy worker has a command.
\<close>

theorem afs_in_step:
  assumes "run_ok afs_exec afs_op_ok ops (afs_init c)" "run_ops afs_exec ops (afs_init c) = Inr d" "x \<in> set (ac_ps d)"
  shows "(pr_st (ps_p x) = Proc_avail \<longrightarrow> (\<exists>q. proc_send_cmd (k, True) (ps_p x) cmd = Inr (afs_ok, q))) \<and>
    (pr_st (ps_p x) = Proc_init_pend \<and> \<not> pr_is_stop_req (ps_p x) \<and> poll_true r (pr_child (ps_p x)) \<and> \<not> died r \<longrightarrow>
      (\<exists>q. proc_update_init_pend e ((ps_p x)\<lparr>pr_evs_len := 0\<rparr>) r = Inr (afs_ok, q))) \<and>
    (pr_st (ps_p x) = Proc_busy \<longrightarrow> (\<exists>s. pr_shared (ps_p x) = Some s \<and> sh_cmd s \<noteq> Cmd_none))"
proof -
  have p: "proc_inv (ps_p x)" using afs_run_inv[OF assms(1,2)] assms(3) by (simp add: ctx_inv_def ps_inv_def)
  have "\<exists>q. proc_send_cmd (k, True) (ps_p x) cmd = Inr (afs_ok, q)" if st: "pr_st (ps_p x) = Proc_avail"
    using p st by (auto simp: proc_inv_def proc_mem_def idle_def proc_send_cmd_def proc_notify_child_eq)
  moreover have "\<exists>q. proc_update_init_pend e ((ps_p x)\<lparr>pr_evs_len := 0\<rparr>) r = Inr (afs_ok, q)"
    if "pr_st (ps_p x) = Proc_init_pend" "\<not> pr_is_stop_req (ps_p x)" "poll_true r (pr_child (ps_p x))" "\<not> died r"
    using proc_update_init_pend_ok[of "(ps_p x)\<lparr>pr_evs_len := 0\<rparr>" r e] that p by (auto simp: proc_inv_evs safe_iff)
  moreover have "\<exists>s. pr_shared (ps_p x) = Some s \<and> sh_cmd s \<noteq> Cmd_none" if "pr_st (ps_p x) = Proc_busy"
    using p that by (auto simp: proc_inv_def proc_mem_def)
  ultimately show ?thesis by blast
qed

theorem afs_in_step_witness:
  "\<exists>d x q. run_ops afs_exec demo_run (afs_init (demo_ctx [])) = Inr d \<and> x \<in> set (ac_ps d) \<and>
     proc_send_cmd (0, True) (ps_p x) Cmd_open = Inr (afs_ok, q)"
proof -
  from demo_run_avail obtain d x where d: "run_ops afs_exec demo_run (afs_init (demo_ctx [])) = Inr d" "ac_ps d = [x]"
    "pr_st (ps_p x) = Proc_avail"
    by blast
  with afs_in_step[OF demo_run_ok d(1), of x 0 Cmd_open] show ?thesis by auto
qed

text \<open>
  C24: What \<^verbatim>\<open>afs_pollfds\<close> hands out is one entry for input per worker that has a socket, in the
  order of the workers, and nothing else.
\<close>

theorem afs_pollfds_exact:
  assumes "run_ok afs_exec afs_op_ok ops (afs_init c)" "run_ops afs_exec ops (afs_init c) = Inr d"
  shows "\<exists>a n f. afs_pollfds d = Inr (a, n, f) \<and> n = length (live_fds (ac_ps d)) \<and>
    take n (case a of None \<Rightarrow> [] | Some fds \<Rightarrow> fds) = map poll_entry (live_fds (ac_ps d))"
proof -
  from afs_pollfds_spec[OF afs_run_inv[OF assms]] obtain a n f where a: "afs_pollfds d = Inr (a, n, f)"
    "n = length (live_fds (ac_ps d))" "case a of None \<Rightarrow> n = 0 | Some fds \<Rightarrow> take n fds = map poll_entry (live_fds (ac_ps d))"
    by (auto simp: safe_iff)
  then have "take n (case a of None \<Rightarrow> [] | Some fds \<Rightarrow> fds) = map poll_entry (live_fds (ac_ps d))"
    by (cases a) auto
  with a show ?thesis by blast
qed

theorem afs_pollfds_exact_witness:
  "\<exists>d a n f. run_ops afs_exec demo_run (afs_init (demo_ctx [])) = Inr d \<and> afs_pollfds d = Inr (a, n, f) \<and> n = 1 \<and>
     take n (case a of None \<Rightarrow> [] | Some fds \<Rightarrow> fds) = [poll_entry 4]"
proof -
  from demo_run_avail obtain d x where d: "run_ops afs_exec demo_run (afs_init (demo_ctx [])) = Inr d" "ac_ps d = [x]"
    "pr_fd (ps_p x) = 4"
    by blast
  with afs_pollfds_exact[OF demo_run_ok d(1)] show ?thesis by auto
qed

end
