(* ===== verification/Afs_Requests.thy ===== *)
theory Afs_Requests
  imports Afs_System
begin

text \<open>
  What becomes of a request: it is answered by one event, the bytes of a write go out whole and
  in order, a combined write is synced before it is reported. And where it goes wrong: the
  parent of a new directory is not synced, and a refused write changes the one under way.
\<close>

section \<open>A request is answered\<close>

text \<open>The type of the event that reports the success of a command.\<close>

fun cmd_ok_ty :: "proc_cmd \<Rightarrow> afs_event" where
  "cmd_ok_ty Cmd_open = afs_ev_open"
| "cmd_ok_ty Cmd_close = afs_ev_close"
| "cmd_ok_ty Cmd_fsync = afs_ev_fsync"
| "cmd_ok_ty Cmd_write = afs_ev_write"
| "cmd_ok_ty Cmd_readall = afs_ev_readall"
| "cmd_ok_ty Cmd_mkdir = afs_ev_mkdir"
| "cmd_ok_ty Cmd_write_fsync_close = afs_ev_write_fsync_close"
| "cmd_ok_ty Cmd_none = afs_ev_init"
| "cmd_ok_ty Cmd_exit = afs_ev_stop"

text \<open>The worker wakes up, runs the command it finds, and answers.\<close>

definition child_serves :: "child_env \<Rightarrow> proc \<Rightarrow> proc option" where
  "child_serves e p =
     Option.bind (proc_child_step Io_done e p) (\<lambda>p.
     Option.bind (proc_child_step Io_done e p) (proc_child_step Io_done e))"

definition ready_worker :: "proc \<Rightarrow> proc_shared \<Rightarrow> string \<Rightarrow> child \<Rightarrow> bool" where
  "ready_worker p s b ch \<longleftrightarrow> proc_inv p \<and> pr_st p = Proc_avail \<and> \<not> pr_is_stop_req p \<and> pr_shared p = Some s \<and>
     pr_rw_buf p = Some b \<and> pr_child p = Some ch \<and> ch_pc ch = Pc_read"

lemma ready_worker_idle: "ready_worker p s b ch \<Longrightarrow> idle s ch"
  by (auto simp: ready_worker_def proc_inv_def proc_mem_def)

lemma proc_send_ready:
  assumes "ready_worker p s b ch"
  shows "proc_send_cmd (k, True) p cmd =
     Inr (afs_ok, p\<lparr>pr_st := Proc_busy, pr_shared := Some (s\<lparr>sh_cmd := cmd\<rparr>), pr_child := Some (ch\<lparr>ch_in := 1\<rparr>)\<rparr>)"
  using assms ready_worker_idle[OF assms]
  by (simp add: proc_send_cmd_def proc_notify_child_eq child_wake_def ready_worker_def idle_def)

text \<open>The memory in which the worker runs a command sent to it when it was ready.\<close>

definition serving :: "proc_shared \<Rightarrow> proc_cmd \<Rightarrow> string \<Rightarrow> child \<Rightarrow> child_mem" where
  "serving s cmd b ch = (s\<lparr>sh_cmd := cmd, sh_st := Child_busy, sh_res := Res_none\<rparr>, b, ch\<lparr>ch_pc := Pc_cmd, ch_in := 0\<rparr>)"

lemma child_serves_ready:
  assumes "ready_worker p s b ch" "child_run_cmd e (serving s cmd b ch) = Some (t, b', ch')" "cmd \<noteq> Cmd_exit" "child_env_ok e b"
  shows "child_serves e (p\<lparr>pr_st := Proc_busy, pr_shared := Some (s\<lparr>sh_cmd := cmd\<rparr>), pr_child := Some (ch\<lparr>ch_in := 1\<rparr>)\<rparr>) =
     Some (p\<lparr>pr_st := Proc_busy, pr_shared := Some t, pr_rw_buf := Some b', pr_child := Some (ch'\<lparr>ch_pc := Pc_read, ch_out := 1\<rparr>)\<rparr>)"
    and "sh_cmd t = cmd" "sh_res t \<noteq> Res_none" "sh_st t = Child_idle" "sh_write_len t = sh_write_len s" "length b' = length b"
      "ch_in ch' = 0"
proof -
  have "child_ran (fst (serving s cmd b ch)) b (snd (snd (serving s cmd b ch))) (t, b', ch')"
    using assms(2,4) unfolding serving_def fst_conv snd_conv
    by (intro child_run_cmd_ran) (auto simp: child_env_ok_def)
  then obtain u r fd calls where u: "t = u\<lparr>sh_res := r, sh_st := Child_idle\<rparr>" "sh_cmd u = cmd" "r \<noteq> Res_none"
    "sh_write_len u = sh_write_len s" "length b' = length b" "ch' = ch\<lparr>ch_in := 0, ch_pc := Pc_answer False, ch_fd := fd, ch_calls := ch_calls ch @ calls\<rparr>"
    using assms(3) by (auto simp: child_ran_def child_done_def serving_def dest!: sh_cmd_parent)
  then show "sh_cmd t = cmd" "sh_res t \<noteq> Res_none" "sh_st t = Child_idle" "sh_write_len t = sh_write_len s" "length b' = length b"
    "ch_in ch' = 0"
    by simp_all
  have "ch_out ch = 0" using ready_worker_idle[OF assms(1)] by (simp add: idle_def)
  with u(6) assms(1,2) show "child_serves e (p\<lparr>pr_st := Proc_busy, pr_shared := Some (s\<lparr>sh_cmd := cmd\<rparr>), pr_child := Some (ch\<lparr>ch_in := 1\<rparr>)\<rparr>) =
     Some (p\<lparr>pr_st := Proc_busy, pr_shared := Some t, pr_rw_buf := Some b', pr_child := Some (ch'\<lparr>ch_pc := Pc_read, ch_out := 1\<rparr>)\<rparr>)"
    by (simp add: child_serves_def proc_child_step_def ready_worker_def serving_def)
qed

text \<open>The worker as an update finds it after it has answered, and as the update leaves it.\<close>

definition served :: "proc \<Rightarrow> proc_shared \<Rightarrow> string \<Rightarrow> child \<Rightarrow> proc" where
  "served p t b ch = p\<lparr>pr_st := Proc_busy, pr_shared := Some t, pr_rw_buf := Some b, pr_child := Some (ch\<lparr>ch_pc := Pc_read, ch_out := 1\<rparr>)\<rparr>"

lemma served_update:
  assumes "length (pr_evs p) = proc_evs_maxlen" "\<not> pr_is_stop_req p" "proc_polled p fds = POLLIN"
    "sh_cmd t = cmd" "cmd \<noteq> Cmd_none" "cmd \<noteq> Cmd_exit" "sh_res t \<noteq> Res_none"
  shows "\<exists>v. proc_update ue (served p t b ch) fds = Inr (afs_ok, v) \<and> pr_evs_len v = 1 \<and>
     ev_ty (pr_evs v ! 0) = (if sh_res t = Res_ok then cmd_ok_ty cmd else proc_cmd_fail_ev cmd) \<and>
     (sh_res t = Res_ok \<and> cmd \<in> {Cmd_write, Cmd_write_fsync_close} \<longrightarrow> ev_len (pr_evs v ! 0) = sh_written t) \<and>
     (sh_res t = Res_ok \<and> cmd = Cmd_readall \<longrightarrow> ev_len (pr_evs v ! 0) = sh_read_len t \<and> ev_data (pr_evs v ! 0) = Some b) \<and>
     pr_st v = Proc_avail \<and> pr_child v = Some (ch\<lparr>ch_pc := Pc_read, ch_out := 0\<rparr>) \<and> pr_rw_buf v = Some b \<and>
     pr_shared v = Some (if sh_res t = Res_ok then t\<lparr>sh_cmd := Cmd_none\<rparr> else t) \<and> \<not> pr_is_stop_req v \<and> pr_fd v = pr_fd p"
proof -
  have "pr_fd p \<noteq> -1" "proc_revents fds (pr_fd p) 0 = POLLIN"
    using assms(3) by (auto simp: proc_polled_def split: if_splits)
  with assms show ?thesis
    by (cases cmd; cases "sh_res t")
      (simp_all add: proc_update_def served_def proc_update_busy_def with_shared_def proc_read_byte_def
        proc_must_add_ev_eq proc_evs_maxlen_def proc_fill_ev_def proc_update_free_def Let_def)
qed

lemma served_inv:
  assumes "ready_worker p s b ch" "sh_cmd t = cmd" "cmd \<noteq> Cmd_none" "cmd \<noteq> Cmd_exit" "sh_res t \<noteq> Res_none" "sh_st t = Child_idle"
    "sh_write_len t = sh_write_len s" "length b' = length b" "ch_in ch' = 0"
  shows "proc_inv (served p t b' ch')"
  using assms by (auto simp: ready_worker_def served_def proc_inv_def proc_mem_def proto_defs)

lemma ready_answered:
  assumes "ready_worker p s b ch" "cmd \<noteq> Cmd_none" "cmd \<noteq> Cmd_exit" "child_env_ok e b"
    "child_run_cmd e (serving s cmd b ch) = Some (t, b', ch')" "proc_polled p fds = POLLIN"
  obtains q u v t' where "proc_send_cmd (k, True) p cmd = Inr (afs_ok, q)" "child_serves e q = Some u"
    "proc_update ue u fds = Inr (afs_ok, v)" "pr_evs_len v = 1"
    "ev_ty (pr_evs v ! 0) = (if sh_res t = Res_ok then cmd_ok_ty cmd else proc_cmd_fail_ev cmd)"
    "sh_res t = Res_ok \<Longrightarrow> cmd \<in> {Cmd_write, Cmd_write_fsync_close} \<Longrightarrow> ev_len (pr_evs v ! 0) = sh_written t"
    "sh_res t = Res_ok \<Longrightarrow> cmd = Cmd_readall \<Longrightarrow> ev_len (pr_evs v ! 0) = sh_read_len t \<and> ev_data (pr_evs v ! 0) = Some b'"
    "ready_worker v t' b' (ch'\<lparr>ch_pc := Pc_read, ch_out := 0\<rparr>)" "proc_inv u" "poll_true (proc_polled u fds) (pr_child u)"
    "pr_fd v = pr_fd p"
proof -
  note c = child_serves_ready[OF assms(1,5,3,4)]
  have p: "length (pr_evs p) = proc_evs_maxlen" "\<not> pr_is_stop_req p"
    using assms(1) by (auto simp: ready_worker_def proc_inv_def)
  from served_update[OF p assms(6) c(2) assms(2,3) c(3), of ue b' ch'] obtain v where
    v: "proc_update ue (served p t b' ch') fds = Inr (afs_ok, v)" "pr_evs_len v = 1"
      "ev_ty (pr_evs v ! 0) = (if sh_res t = Res_ok then cmd_ok_ty cmd else proc_cmd_fail_ev cmd)"
      "sh_res t = Res_ok \<and> cmd \<in> {Cmd_write, Cmd_write_fsync_close} \<longrightarrow> ev_len (pr_evs v ! 0) = sh_written t"
      "sh_res t = Res_ok \<and> cmd = Cmd_readall \<longrightarrow> ev_len (pr_evs v ! 0) = sh_read_len t \<and> ev_data (pr_evs v ! 0) = Some b'"
      "pr_st v = Proc_avail" "pr_child v = Some (ch'\<lparr>ch_pc := Pc_read, ch_out := 0\<rparr>)" "pr_rw_buf v = Some b'"
      "pr_shared v = Some (if sh_res t = Res_ok then t\<lparr>sh_cmd := Cmd_none\<rparr> else t)" "\<not> pr_is_stop_req v" "pr_fd v = pr_fd p"
    by blast
  note u = served_inv[OF assms(1) c(2) assms(2,3) c(3-7)]
  have poll: "poll_true (proc_polled (served p t b' ch') fds) (pr_child (served p t b' ch'))"
    using assms(6) by (simp add: served_def proc_polled_def poll_true_def split: if_splits)
  with proc_update_ok[OF u, of fds ue] v(1) have "proc_inv v"
    by (simp add: proc_updated_def)
  with v have "ready_worker v (if sh_res t = Res_ok then t\<lparr>sh_cmd := Cmd_none\<rparr> else t) b' (ch'\<lparr>ch_pc := Pc_read, ch_out := 0\<rparr>)"
    by (simp add: ready_worker_def)
  note that[OF proc_send_ready[OF assms(1)] c(1)[folded served_def] v(1-3) _ _ this u poll v(11)]
  with v(4,5) show thesis by simp
qed

text \<open>
  C7: A request sent to a ready worker is answered: when its process wakes up, the command
  comes to an end, and \<^verbatim>\<open>poll\<close> reports the answer, the next update reports exactly one event,
  success or failure of that command as its process found, and the worker is ready again.
\<close>

theorem afs_request_answered:
  assumes "ready_worker p s b ch" "cmd \<noteq> Cmd_none" "cmd \<noteq> Cmd_exit" "child_env_ok e b"
    "child_run_cmd e (serving s cmd b ch) = Some (t, b', ch')" "proc_polled p fds = POLLIN"
  shows "\<exists>q u v t'. proc_send_cmd (k, True) p cmd = Inr (afs_ok, q) \<and> child_serves e q = Some u \<and>
     proc_update ue u fds = Inr (afs_ok, v) \<and> pr_evs_len v = 1 \<and>
     ev_ty (pr_evs v ! 0) = (if sh_res t = Res_ok then cmd_ok_ty cmd else proc_cmd_fail_ev cmd) \<and>
     ready_worker v t' b' (ch'\<lparr>ch_pc := Pc_read, ch_out := 0\<rparr>)"
  by (rule ready_answered[OF assms]) blast

lemma demo_ready: "ready_worker demo_proc demo_shared ''hello'' (demo_child 5)"
  using demo_proc_inv unfolding ready_worker_def by (simp add: demo_proc_def demo_child_def)

theorem afs_request_answered_witness:
  "\<exists>q u v t'. proc_send_cmd (2, True) demo_proc Cmd_close = Inr (afs_ok, q) \<and> child_serves (demo_env []) q = Some u \<and>
     proc_update demo_update u (demo_fds [4]) = Inr (afs_ok, v) \<and> pr_evs_len v = 1 \<and>
     ev_ty (pr_evs v ! 0) = afs_ev_close \<and> ready_worker v t' ''hello'' ((demo_child (-1))\<lparr>ch_calls := [Sys_close 5]\<rparr>)"
  using afs_request_answered[OF demo_ready, of Cmd_close "demo_env []"
      "(fst (serving demo_shared Cmd_close ''hello'' (demo_child 5)))\<lparr>sh_res := Res_ok, sh_st := Child_idle\<rparr>" "''hello''"
      "(demo_child (-1))\<lparr>ch_pc := Pc_answer False, ch_calls := [Sys_close 5]\<rparr>" "demo_fds [4]" 2 demo_update]
  by (simp add: serving_def child_run_cmd_def proc_child_close_def child_done_def child_env_ok_def proc_polled_def demo_defs)

lemma ready_worker_write_len:
  "ready_worker p s b ch \<Longrightarrow> len \<le> pr_rw_buf_len p \<Longrightarrow>
   ready_worker (p\<lparr>pr_shared := Some (s\<lparr>sh_write_len := len\<rparr>)\<rparr>) (s\<lparr>sh_write_len := len\<rparr>) b ch"
  by (auto simp: ready_worker_def intro: proc_inv_request(3)[OF _ _ _ refl])

lemma ready_worker_length: "ready_worker p s b ch \<Longrightarrow> length b = pr_rw_buf_len p"
  by (auto simp: ready_worker_def proc_inv_def proc_mem_def)

lemma child_run_write:
  assumes "ch_fd ch \<noteq> -1" "len \<le> length b" "writes_fit (ce_writes e) len" "Write_error \<notin> set (ce_writes e)"
    "len \<le> writes_total (ce_writes e)" "\<exists>n. Wrote n \<in> set (ce_writes e)" "sh_write_len s = len"
  shows "\<exists>t calls. child_run_cmd e (serving s Cmd_write b ch) =
       Some (t\<lparr>sh_res := Res_ok, sh_st := Child_idle\<rparr>, b, ch\<lparr>ch_in := 0, ch_pc := Pc_answer False, ch_calls := ch_calls ch @ calls\<rparr>) \<and>
     sh_written t = len \<and> only_writes (ch_fd ch) calls \<and> sys_written (ch_fd ch) calls = take len b"
proof -
  let ?s = "s\<lparr>sh_cmd := Cmd_write, sh_st := Child_busy, sh_res := Res_none, sh_written := 0\<rparr>"
  from child_write_loop_ends[OF assms(3-6), of "ch_fd ch" b ?s] obtain t calls where
    l: "child_write_loop (ce_writes e) (ch_fd ch) b len ?s = Some (Res_ok, t, calls)"
    by blast
  from child_write_loop_data[OF l assms(3,2)] have "sys_written (ch_fd ch) calls = take len b" "only_writes (ch_fd ch) calls" "sh_written t = len"
    by auto
  with l assms(1,7) show ?thesis
    by (auto simp: child_run_cmd_def serving_def proc_child_write_def child_done_def)
qed

section \<open>What the process does with a request\<close>

text \<open>
  C25: However the kernel cuts a write into pieces and interrupts it, the loop has the effect of
  one \<^verbatim>\<open>write\<close> that takes everything: the same result, the same shared memory, the same data
  to the file. It ends as soon as the pieces add up.
\<close>

theorem afs_write_pieces:
  assumes "len \<le> length buf" "writes_fit ws len" "Write_error \<notin> set ws" "len \<le> writes_total ws" "Wrote n \<in> set ws"
  shows "\<exists>t calls whole. child_write_loop ws fd buf len s = Some (Res_ok, t, calls) \<and>
     child_write_loop [Wrote len] fd buf len s = Some (Res_ok, t, whole) \<and> sys_written fd calls = sys_written fd whole"
proof -
  from child_write_loop_ends[OF assms(2-4)] assms(5) obtain t calls where
    l: "child_write_loop ws fd buf len s = Some (Res_ok, t, calls)"
    by blast
  from child_write_loop_data[OF l assms(2,1)] have "sys_written fd calls = take len buf" "t = s\<lparr>sh_written := sh_written s + len\<rparr>"
    by auto
  with l show ?thesis by simp
qed

theorem afs_write_pieces_witness:
  "\<exists>t calls whole. child_write_loop [Write_eintr, Wrote 2, Write_eintr, Wrote 1] 5 ''hello'' 3 demo_shared = Some (Res_ok, t, calls) \<and>
     child_write_loop [Wrote 3] 5 ''hello'' 3 demo_shared = Some (Res_ok, t, whole) \<and> sys_written 5 calls = sys_written 5 whole"
  using afs_write_pieces[of 3 "''hello''" "[Write_eintr, Wrote 2, Write_eintr, Wrote 1]" 2 5 demo_shared] by simp

lemma child_write_loop_ok_data:
  assumes "child_write_loop ws fd buf len s = Some (Res_ok, t, calls)" "writes_fit ws len" "len \<le> length buf"
  shows "sys_written fd calls = take len buf \<and> only_writes fd calls \<and> sh_written t = sh_written s + len"
  using child_write_loop_data[OF assms] by auto

text \<open>
  C20: Success of \<^verbatim>\<open>afs_write_fsync_close\<close> means the data is on disk: the process reports it only
  after the file at the path behind the data was opened, all \<open>write_len\<close> bytes were written to
  it in order, then synced, then closed, and nothing in between.
\<close>

theorem afs_write_fsync_close_durable:
  assumes "proc_child_write_fsync_close e s b = Some (Res_ok, t, calls)" "writes_fit (ce_writes e) (sh_write_len s)"
    "sh_write_len s \<le> length b"
  shows "ce_open e \<noteq> -1 \<and> ce_fsync e \<and> sh_written t = sh_write_len s \<and>
    (\<exists>writes. calls = Sys_open (c_str (drop (sh_write_len s) b)) (sh_open_flags s) # writes @ [Sys_fsync (ce_open e), Sys_close (ce_open e)] \<and>
       only_writes (ce_open e) writes \<and> sys_written (ce_open e) writes = take (sh_write_len s) b)"
proof -
  let ?s = "s\<lparr>sh_written := 0\<rparr>"
  from assms(1) obtain writes where w: "ce_open e \<noteq> -1" "ce_fsync e"
    "child_write_loop (ce_writes e) (ce_open e) b (sh_write_len s) ?s = Some (Res_ok, t, writes)"
    "calls = Sys_open (c_str (drop (sh_write_len s) b)) (sh_open_flags s) # writes @ [Sys_fsync (ce_open e), Sys_close (ce_open e)]"
    by (auto simp: proc_child_write_fsync_close_def Let_def split: if_splits option.splits prod.splits proc_res.splits)
  from child_write_loop_ok_data[OF w(3) assms(2,3)] w show ?thesis by auto
qed

theorem afs_write_fsync_close_durable_witness:
  "\<exists>t calls. proc_child_write_fsync_close (demo_env [Wrote 1, Wrote 1]) (demo_shared\<lparr>sh_write_len := 2\<rparr>) (''hi/f'' @ [NUL]) =
       Some (Res_ok, t, calls) \<and> sh_written t = 2 \<and>
     (\<exists>writes. calls = Sys_open ''/f'' 0 # writes @ [Sys_fsync 6, Sys_close 6] \<and> only_writes 6 writes \<and> sys_written 6 writes = ''hi'')"
proof -
  have "\<exists>t calls. proc_child_write_fsync_close (demo_env [Wrote 1, Wrote 1]) (demo_shared\<lparr>sh_write_len := 2\<rparr>) (''hi/f'' @ [NUL]) =
       Some (Res_ok, t, calls)"
    by (simp add: proc_child_write_fsync_close_def demo_env_def Let_def)
  then obtain t calls where r: "proc_child_write_fsync_close (demo_env [Wrote 1, Wrote 1]) (demo_shared\<lparr>sh_write_len := 2\<rparr>) (''hi/f'' @ [NUL]) =
       Some (Res_ok, t, calls)"
    by blast
  from afs_write_fsync_close_durable[OF r] r show ?thesis by (simp add: demo_defs c_str_def)
qed



section \<open>A second write before the first is done\<close>

lemma ps_get_upd_self:
  assumes "ps_get c fd = Some i" "ps_fd y = fd"
  shows "ps_get (ps_upd c i y) fd = Some i \<and> ac_ps (ps_upd c i y) ! i = y"
  using assms ps_find_upd[of "ac_ps c" fd i y] ps_find_Some[of "ac_ps c" fd i] by (simp add: ps_get_def)

text \<open>
  C36: A write that is refused changes the one under way. \<^verbatim>\<open>afs_write\<close> stores the length before it
  finds the worker busy: the second call fails, but when the process has not yet taken up the
  first, it writes the length of the second, and that is what the event of the first reports.
\<close>

theorem afs_write_interferes:
  assumes "ps_get c fd = Some i" "fd \<noteq> -1" "ps_is_avail (ac_ps c ! i)" "ready_worker (ps_p (ac_ps c ! i)) s b ch"
    "len \<le> length b" "len' \<le> length b" "ch_fd ch \<noteq> -1" "child_env_ok e b"
    "writes_fit (ce_writes e) len'" "Write_error \<notin> set (ce_writes e)" "len' \<le> writes_total (ce_writes e)"
    "Wrote n \<in> set (ce_writes e)" "proc_polled (ps_p (ac_ps c ! i)) fds = POLLIN"
  shows "\<exists>c1 c2 u v. afs_write (k, True) c fd len = Inr (afs_ok, c1) \<and> afs_write io c1 fd len' = Inr (afs_fail, c2) \<and>
     child_serves e (ps_p (ac_ps c2 ! i)) = Some u \<and> proc_update ue u fds = Inr (afs_ok, v) \<and>
     pr_evs_len v = 1 \<and> ev_ty (pr_evs v ! 0) = afs_ev_write \<and> afs_ev_write_len (pr_evs v ! 0) = len'"
proof -
  let ?x = "ac_ps c ! i" and ?s = "s\<lparr>sh_write_len := len'\<rparr>" and ?msg = "''bad st (no errno)''"
  let ?p = "(ps_p ?x)\<lparr>pr_shared := Some ?s, pr_fail := ?msg\<rparr>"
  let ?q = "(ps_p ?x)\<lparr>pr_shared := Some (s\<lparr>sh_write_len := len, sh_cmd := Cmd_write\<rparr>), pr_st := Proc_busy,
    pr_child := Some (ch\<lparr>ch_in := 1\<rparr>)\<rparr>"
  let ?q' = "?q\<lparr>pr_shared := Some (s\<lparr>sh_cmd := Cmd_write, sh_write_len := len'\<rparr>), pr_fail := ?msg\<rparr>"
  have b: "length b = pr_rw_buf_len (ps_p ?x)" using ready_worker_length[OF assms(4)] .
  have i: "ps_fd ?x = fd" "i < length (ac_ps c)" using assms(1) ps_find_Some by (auto simp: ps_get_def)
  have x: "pr_shared (ps_p ?x) = Some s" using assms(4) by (simp add: ready_worker_def)
  have len: "ready_worker ((ps_p ?x)\<lparr>pr_shared := Some (s\<lparr>sh_write_len := n\<rparr>)\<rparr>) (s\<lparr>sh_write_len := n\<rparr>) b ch" if "n \<le> length b" for n
    using ready_worker_write_len[OF assms(4), of n] that b by simp
  have p: "ready_worker ?p ?s b ch" using len[OF assms(6)] by (simp add: ready_worker_def)
  have "proc_write (k, True) ((ps_p ?x)\<lparr>pr_shared := Some (s\<lparr>sh_write_len := len\<rparr>)\<rparr>) = Inr (afs_ok, ?q)"
    using proc_send_ready[OF len[OF assms(5)]] by (simp add: proc_write_def)
  then have first: "afs_write (k, True) c fd len = Inr (afs_ok, ps_upd c i (?x\<lparr>ps_p := ?q\<rparr>))"
    using assms(1,2,3,5) b x by (simp add: afs_write_def ps_sent_def Let_def)
  have second: "afs_write io (ps_upd c i (?x\<lparr>ps_p := ?q\<rparr>)) fd len' = Inr (afs_fail, ps_upd c i (?x\<lparr>ps_p := ?q'\<rparr>))"
    using ps_get_upd_self[OF assms(1), of "?x\<lparr>ps_p := ?q\<rparr>"] assms(2,3,6) b i
    by (simp add: afs_write_def ps_sent_def Let_def proc_write_def proc_send_cmd_def proc_fail_def)
  from child_run_write[OF assms(7,6,9,10,11) _, of ?s] assms(12) obtain t calls where
    run: "child_run_cmd e (serving ?s Cmd_write b ch) =
       Some (t\<lparr>sh_res := Res_ok, sh_st := Child_idle\<rparr>, b, ch\<lparr>ch_in := 0, ch_pc := Pc_answer False, ch_calls := ch_calls ch @ calls\<rparr>)"
    and w: "sh_written t = len'"
    by auto
  have polled: "proc_polled ?p fds = POLLIN" using assms(13) by (auto simp: proc_polled_def split: if_splits)
  obtain q u v where v: "proc_send_cmd (k, True) ?p Cmd_write = Inr (afs_ok, q)" "child_serves e q = Some u"
    "proc_update ue u fds = Inr (afs_ok, v)" "pr_evs_len v = 1" "ev_ty (pr_evs v ! 0) = afs_ev_write" "ev_len (pr_evs v ! 0) = len'"
    by (rule ready_answered[OF p _ _ assms(8) run polled]) (simp_all add: w)
  have "q = ?q'" using proc_send_ready[OF p, of k Cmd_write] v(1) by (cases s; cases "ps_p ?x") simp
  with v first second i show ?thesis
    by (intro exI[of _ "ps_upd c i (?x\<lparr>ps_p := ?q\<rparr>)"] exI[of _ "ps_upd c i (?x\<lparr>ps_p := ?q'\<rparr>)"] exI[of _ u] exI[of _ v])
      (simp add: afs_ev_write_len_def)
qed

theorem afs_write_interferes_witness:
  "\<exists>c1 c2 u v. afs_write (0, True) (demo_ctx [demo_ps]) 0 5 = Inr (afs_ok, c1) \<and> afs_write (0, True) c1 0 2 = Inr (afs_fail, c2) \<and>
     child_serves (demo_env [Wrote 2]) (ps_p (ac_ps c2 ! 0)) = Some u \<and> proc_update demo_update u (demo_fds [4]) = Inr (afs_ok, v) \<and>
     pr_evs_len v = 1 \<and> ev_ty (pr_evs v ! 0) = afs_ev_write \<and> afs_ev_write_len (pr_evs v ! 0) = 2"
proof (rule afs_write_interferes)
  show "ready_worker (ps_p (ac_ps (demo_ctx [demo_ps]) ! 0)) demo_shared ''hello'' (demo_child 5)"
    using demo_ready by (simp add: demo_ctx_def demo_ps_def)
  show "Wrote 2 \<in> set (ce_writes (demo_env [Wrote 2]))" by (simp add: demo_env_def)
qed (simp_all add: ps_get_def child_env_ok_def proc_polled_def demo_defs)

end
