(* ===== verification/Afs_Events.thy ===== *)
theory Afs_Events
  imports Afs_System
begin

text \<open>
  What the user is told: the descriptor a successful \<^verbatim>\<open>afs_open\<close> returns, and which types of
  events an update reports.
\<close>

section \<open>Opening a file\<close>

lemma ps_find_distinct:
  assumes "fds_distinct xs" "i < length xs" "ps_fd (xs ! i) \<noteq> -1"
  shows "ps_find xs (ps_fd (xs ! i)) = Some i"
  using assms
proof (induction xs arbitrary: i)
  case (Cons x xs)
  then show ?case
    by (cases i) (auto simp: fds_distinct_Cons dest: nth_mem)
qed simp

text \<open>The request to open \<open>path\<close> with \<open>flags\<close> stands with a worker: sent, or to be sent when it has started.\<close>

definition open_pending :: "ps \<Rightarrow> string \<Rightarrow> int \<Rightarrow> bool" where
  "open_pending x path flags \<longleftrightarrow>
     (\<exists>s b. pr_shared (ps_p x) = Some s \<and> pr_rw_buf (ps_p x) = Some b \<and> c_str b = path \<and> sh_open_flags s = flags \<and>
        (pr_st (ps_p x) = Proc_init_pend \<and> ps_cmd_after_init x = Cmd_open \<or> pr_st (ps_p x) = Proc_busy \<and> sh_cmd s = Cmd_open))"

lemma c_str_overwrite: "NUL \<notin> set path \<Longrightarrow> length path < length b \<Longrightarrow> c_str (overwrite b 0 (path @ [NUL])) = path"
  by (simp add: overwrite_def)

definition opened :: "afs_ctx \<Rightarrow> afs_ctx \<Rightarrow> int option \<Rightarrow> string \<Rightarrow> int \<Rightarrow> bool" where
  "opened c d out path flags \<longleftrightarrow>
     (\<exists>fd i. out = Some fd \<and> 0 \<le> fd \<and> (\<forall>x \<in> set (ac_ps c). ps_fd x \<noteq> fd) \<and> i < length (ac_ps d) \<and> ps_fd (ac_ps d ! i) = fd \<and>
        open_pending (ac_ps d ! i) path flags)"

lemma openedI:
  assumes "taken c d i w" "ps_fd y = ps_fd (ac_ps d ! i)" "open_pending y path flags"
  shows "opened c (ps_upd d i y) (Some (ps_fd (ac_ps d ! i))) path flags"
    and "opened c (afs_set_fail (ps_upd d i y) m) (Some (ps_fd (ac_ps d ! i))) path flags"
  using assms unfolding opened_def by (auto simp: taken_def intro!: exI[of _ i])

lemma afs_open_spec:
  assumes "ctx_inv c" "alloc_env_ok e" "NUL \<notin> set path"
  shows "allows {Signed_overflow} (afs_open e io c path flags) (\<lambda>(r, d, out). r = afs_ok \<longrightarrow> opened c d out path flags)"
  unfolding afs_open_def
proof (rule allows_maybe_alloc[OF assms(1,2)], goal_cases)
  case (2 d i w)
  from taken_mem[OF this] obtain s b where x: "i < length (ac_ps d)" "proc_inv (ps_p (ac_ps d ! i))" "pr_shared (ps_p (ac_ps d ! i)) = Some s"
    "pr_rw_buf (ps_p (ac_ps d ! i)) = Some b" "length b = pr_rw_buf_len (ps_p (ac_ps d ! i))" "0 \<le> ps_fd (ac_ps d ! i)"
    by metis
  have fresh: "\<forall>x \<in> set (ac_ps c). ps_fd x \<noteq> ps_fd (ac_ps d ! i)" "\<not> w \<longrightarrow> pr_st (ps_p (ac_ps d ! i)) = Proc_init_pend"
    using 2(2) by (simp_all add: taken_def)
  show ?case
  proof (cases "length path < pr_rw_buf_len (ps_p (ac_ps d ! i))")
    case True
    then have path: "c_str (overwrite b 0 (path @ [NUL])) = path" using c_str_overwrite[OF assms(3), of b] x(5) by simp
    show ?thesis
    proof (cases w)
      case False
      with True x fresh path show ?thesis
        by (auto simp: Let_def buf_put_def open_pending_def intro!: openedI[OF 2(2)])
    next
      case w: True
      show ?thesis
      proof (cases "pr_st (ps_p (ac_ps d ! i)) = Proc_avail \<and> snd io")
        case ok: True
        with x(2,3) have "sh_st s = Child_idle" by (auto simp: proc_inv_def proc_mem_def idle_def)
        with True x fresh path w ok show ?thesis
          by (auto simp: Let_def buf_put_def open_pending_def ps_sent_def proc_open_def proc_send_cmd_def proc_notify_child_eq
              child_wake_def intro!: openedI[OF 2(2)])
      next
        case False
        with True x w show ?thesis
          by (auto simp: Let_def buf_put_def ps_sent_def proc_open_def proc_send_cmd_def proc_notify_child_eq)
      qed
    qed
  qed (use x in \<open>simp add: Let_def\<close>)
qed simp

text \<open>
  C23: A file being opened gets a descriptor of its own: when \<^verbatim>\<open>afs_open\<close> succeeds, the descriptor
  was not in use, it leads to the worker that was taken, and that worker has the path and the
  flags and the command, sent or to be sent once it has started.
\<close>

theorem afs_open_fresh:
  assumes "run_ok afs_exec afs_op_ok ops (afs_init c0)" "run_ops afs_exec ops (afs_init c0) = Inr c" "alloc_env_ok e"
    "NUL \<notin> set path" "afs_open e io c path flags = Inr (afs_ok, d, out)"
  shows "\<exists>fd i. out = Some fd \<and> 0 \<le> fd \<and> (\<forall>x \<in> set (ac_ps c). ps_fd x \<noteq> fd) \<and> ps_get d fd = Some i \<and>
    open_pending (ac_ps d ! i) path flags"
proof -
  note c = afs_run_inv[OF assms(1,2)]
  from afs_open_inv[OF c assms(3), of io path flags] assms(5) have d: "fds_distinct (ac_ps d)" by (simp add: ctx_inv_def)
  from afs_open_spec[OF c assms(3,4), of io flags] assms(5) obtain fd i where "out = Some fd" "0 \<le> fd"
    "\<forall>x \<in> set (ac_ps c). ps_fd x \<noteq> fd" "i < length (ac_ps d)" "ps_fd (ac_ps d ! i) = fd" "open_pending (ac_ps d ! i) path flags"
    by (auto simp: opened_def)
  moreover from this d ps_find_distinct[of "ac_ps d" i] have "ps_get d fd = Some i" by (simp add: ps_get_def)
  ultimately show ?thesis by blast
qed

theorem afs_open_fresh_witness:
  "\<exists>d fd i. afs_open demo_alloc (0, True) (afs_init (demo_ctx [])) ''f'' 2 = Inr (afs_ok, d, Some fd) \<and> 0 \<le> fd \<and>
     ps_get d fd = Some i \<and> open_pending (ac_ps d ! i) ''f'' 2"
proof -
  have "\<exists>d out. afs_open demo_alloc (0, True) (afs_init (demo_ctx [])) ''f'' 2 = Inr (afs_ok, d, out)"
    by (simp add: afs_open_def run_defs buf_put_def overwrite_def)
  then obtain d out where o: "afs_open demo_alloc (0, True) (afs_init (demo_ctx [])) ''f'' 2 = Inr (afs_ok, d, out)" by blast
  have "alloc_env_ok demo_alloc" by (simp add: alloc_env_ok_def spawn_env_ok_def run_defs)
  from afs_open_fresh[of "[]" "demo_ctx []", OF _ _ this _ o] o show ?thesis by auto
qed

section \<open>Which events are reported\<close>

definition user_event :: "afs_event \<Rightarrow> bool" where
  "user_event ty \<longleftrightarrow> ty \<noteq> afs_ev_init \<and> ty \<noteq> afs_ev_init_fail"

definition evs_for_user :: "afs_ctx \<Rightarrow> bool" where
  "evs_for_user c \<longleftrightarrow> (case ac_evs c of None \<Rightarrow> ac_evs_len c = 0 | Some evs \<Rightarrow> \<forall>k < ac_evs_len c. user_event (ev_ty (evs ! k)))"

lemma evs_for_user_simps [simp]:
  "evs_for_user (ps_upd c i x) = evs_for_user c" "evs_for_user (afs_set_fail c m) = evs_for_user c"
  "evs_for_user (snd (ps_del c fd)) = evs_for_user c"
  by (simp_all add: evs_for_user_def ps_del_def afs_set_fail_def split: option.splits)

lemma out_ev_user: "out_ev f c = Inr d \<Longrightarrow> evs_for_user c \<Longrightarrow> (\<And>ev. user_event (ev_ty (f ev))) \<Longrightarrow> evs_for_user d"
  by (auto simp: out_ev_def evs_for_user_def less_Suc_eq nth_list_update sob_panic_def split: option.splits if_splits)

lemma out_ty_user: "out_ty fd ty c = Inr d \<Longrightarrow> evs_for_user c \<Longrightarrow> user_event ty \<Longrightarrow> evs_for_user d"
  unfolding out_ty_def by (erule out_ev_user) auto

lemma fail_ev_user: "cmd \<noteq> Cmd_none \<Longrightarrow> user_event (proc_cmd_fail_ev cmd)"
  by (cases cmd) (auto simp: user_event_def)

lemma user_event_fails [simp]:
  "user_event afs_ev_open_fail" "user_event afs_ev_mkdir_fail" "user_event afs_ev_write_fsync_close_fail"
  by (simp_all add: user_event_def)

lemma upd_init_user: "upd_init e c i x = Inr d \<Longrightarrow> evs_for_user c \<Longrightarrow> evs_for_user d"
  by (auto simp: upd_init_def Let_def and_then_eq_Inr fail_ev_user split: if_splits elim!: out_ty_user)

lemma upd_init_fail_user: "upd_init_fail c i x = Inr d \<Longrightarrow> evs_for_user c \<Longrightarrow> evs_for_user d"
  by (auto simp: upd_init_fail_def Let_def fail_ev_user split: if_splits elim!: out_ty_user)

lemma upd_switch_user:
  "upd_switch e c i x ev del = Inr (add, del', d) \<Longrightarrow> evs_for_user c \<Longrightarrow> evs_for_user d \<and> (add \<longrightarrow> user_event (ev_ty ev))"
  by (cases "ev_ty ev") (auto simp: upd_switch_def Let_def afs_ev_ty_def and_then_eq_Inr user_event_def
      dest: upd_init_user upd_init_fail_user)

lemma upd_event_user: "upd_event e c i k del = Inr (del', d) \<Longrightarrow> evs_for_user c \<Longrightarrow> evs_for_user d"
  by (auto simp: upd_event_def Let_def and_then_eq_Inr dest!: upd_switch_user split: if_splits elim!: out_ev_user)

lemma upd_events_user: "upd_events e i k n del c = Inr (del', d) \<Longrightarrow> evs_for_user c \<Longrightarrow> evs_for_user d"
  by (induction n arbitrary: k del c) (auto simp: and_then_eq_Inr dest!: upd_event_user)

lemma ps_del_user: "ps_del c fd = (r, d) \<Longrightarrow> evs_for_user d = evs_for_user c"
  using evs_for_user_simps(3)[of c fd] by simp

lemma upd_ps_user: "upd_ps e fds c i = Inr (r, d) \<Longrightarrow> evs_for_user c \<Longrightarrow> evs_for_user d"
  by (auto simp: upd_ps_def Let_def and_then_eq_Inr dest!: upd_events_user ps_del_user split: if_splits prod.splits)

lemma update_loop_user: "update_loop es fds i n c = Inr d \<Longrightarrow> evs_for_user c \<Longrightarrow> evs_for_user d"
  by (induction n arbitrary: i c) (auto simp: and_then_eq_Inr dest!: upd_ps_user)

text \<open>
  C26: The start of the workers is not the user's business: no update ever reports
  \<^verbatim>\<open>afs_ev_init\<close> or \<^verbatim>\<open>afs_ev_init_fail\<close>, as the header promises.
\<close>

theorem afs_update_user_events:
  assumes "afs_update es c fds = Inr d"
  shows "\<forall>k < ac_evs_len d. ev_ty (the (ac_evs d) ! k) \<noteq> afs_ev_init \<and> ev_ty (the (ac_evs d) ! k) \<noteq> afs_ev_init_fail"
proof -
  have "evs_for_user (c\<lparr>ac_evs_len := 0\<rparr>)" by (simp add: evs_for_user_def split: option.splits)
  with assms have "evs_for_user d"
    by (auto simp: afs_update_def Let_def and_then_eq_Inr sob_panic_def user_event_def split: if_splits
        dest!: update_loop_user elim!: out_ty_user)
  then show ?thesis by (auto simp: evs_for_user_def user_event_def split: option.splits)
qed

definition demo_starting :: ps where
  "demo_starting = demo_ps\<lparr>ps_cmd_after_init := Cmd_open, ps_p := demo_proc\<lparr>pr_st := Proc_init_pend,
     pr_child := Some ((demo_child (-1))\<lparr>ch_out := 1\<rparr>)\<rparr>\<rparr>"

theorem afs_update_user_events_witness:
  "\<exists>d. afs_update (\<lambda>_. demo_update\<lparr>ue_after_init := (0, False)\<rparr>) (demo_ctx [demo_starting]) (demo_fds [4]) = Inr d \<and>
     ac_evs_len d = 1 \<and> ev_ty (the (ac_evs d) ! 0) = afs_ev_open_fail \<and>
     (\<forall>k < ac_evs_len d. ev_ty (the (ac_evs d) ! k) \<noteq> afs_ev_init \<and> ev_ty (the (ac_evs d) ! k) \<noteq> afs_ev_init_fail)"
proof -
  have "\<exists>d. afs_update (\<lambda>_. demo_update\<lparr>ue_after_init := (0, False)\<rparr>) (demo_ctx [demo_starting]) (demo_fds [4]) = Inr d \<and>
     ac_evs_len d = 1 \<and> ev_ty (the (ac_evs d) ! 0) = afs_ev_open_fail"
    by (simp add: demo_starting_def run_defs proc_open_def proc_send_cmd_def out_ty_def out_ev_def proc_fail_def afs_set_fail_def)
  with afs_update_user_events show ?thesis by blast
qed

end
