(* ===== verification/Afs_Files.thy ===== *)
theory Afs_Files
  imports Afs_Requests
begin

text \<open>
  A request as the user sees it: the call, the steps of the worker process, and the update of
  the whole module, in which the other workers have nothing to report. The event comes out
  once, with the descriptor of its file. A file is written and read back through this.
\<close>

section \<open>An update in which one worker has something to report\<close>

text \<open>A worker that is in use or starting, and whose socket \<^verbatim>\<open>poll\<close> says nothing about.\<close>

definition quiet :: "ps \<Rightarrow> pollfd list \<Rightarrow> bool" where
  "quiet x fds \<longleftrightarrow> proc_polled (ps_p x) fds = 0 \<and> pr_st (ps_p x) \<noteq> Proc_uninit \<and> pr_st (ps_p x) \<noteq> Proc_dead \<and>
     \<not> (pr_st (ps_p x) = Proc_init_pend \<and> pr_is_stop_req (ps_p x))"

definition calm :: "ps \<Rightarrow> ps" where
  "calm x = x\<lparr>ps_p := (ps_p x)\<lparr>pr_evs_len := 0\<rparr>\<rparr>"

lemma poll_none [simp]: "died 0 = False" "readable 0 = False"
  by (simp_all add: died_def readable_def)

lemma quiet_polls: "quiet x fds \<Longrightarrow> poll_true (proc_polled (ps_p x) fds) ch"
  by (simp add: quiet_def poll_true_def split: option.splits)

lemma proc_update_quiet: "quiet x fds \<Longrightarrow> proc_update e (ps_p x) fds = Inr (afs_ok, (ps_p x)\<lparr>pr_evs_len := 0\<rparr>)"
  by (cases "pr_st (ps_p x)")
    (auto simp: quiet_def proc_update_def proc_polled_def Let_def proc_update_init_pend_def proc_update_avail_def proc_update_busy_def
      split: if_splits)

lemma upd_ps_quiet: "quiet (ac_ps c ! i) fds \<Longrightarrow> upd_ps e fds c i = Inr (False, ps_upd c i (calm (ac_ps c ! i)))"
  by (simp add: upd_ps_def proc_update_quiet proc_evs_def calm_def Let_def)

text \<open>The workers from position \<open>i\<close> on, \<open>m\<close> of them, have no events.\<close>

definition calm_from :: "nat \<Rightarrow> nat \<Rightarrow> afs_ctx \<Rightarrow> afs_ctx" where
  "calm_from i m c = c\<lparr>ac_ps := take i (ac_ps c) @ map calm (take m (drop i (ac_ps c))) @ drop (i + m) (ac_ps c)\<rparr>"

lemma calm_from_0 [simp]: "calm_from i 0 c = c"
  by (simp add: calm_from_def)

lemma calm_from_Suc:
  assumes "i < length (ac_ps c)"
  shows "calm_from (Suc i) m (ps_upd c i (calm (ac_ps c ! i))) = calm_from i (Suc m) c"
proof -
  have "take (Suc i) ((ac_ps c)[i := calm (ac_ps c ! i)]) = take i (ac_ps c) @ [calm (ac_ps c ! i)]"
    using assms by (simp add: take_Suc_conv_app_nth)
  moreover have "drop i (ac_ps c) = ac_ps c ! i # drop (Suc i) (ac_ps c)" using assms by (rule Cons_nth_drop_Suc[symmetric])
  ultimately show ?thesis by (simp add: calm_from_def ps_upd_def)
qed

lemma update_loop_quiet:
  "(\<And>j. i \<le> j \<Longrightarrow> j < i + m \<Longrightarrow> quiet (ac_ps c ! j) fds) \<Longrightarrow> i + m \<le> length (ac_ps c) \<Longrightarrow>
   update_loop es fds i (m + n) c = update_loop es fds (i + m) n (calm_from i m c)"
proof (induction m arbitrary: i c)
  case (Suc m)
  let ?d = "ps_upd c i (calm (ac_ps c ! i))"
  have "upd_ps (es (m + n)) fds c i = Inr (False, ?d)" using Suc.prems by (intro upd_ps_quiet) simp
  moreover have "update_loop es fds (Suc i) (m + n) ?d = update_loop es fds (Suc i + m) n (calm_from (Suc i) m ?d)"
    using Suc.prems by (intro Suc.IH) auto
  ultimately show ?case using Suc.prems(2) by (simp add: calm_from_Suc)
qed simp

text \<open>Events after which the file stays open, and which are not failures.\<close>

definition keeps_file :: "afs_event \<Rightarrow> bool" where
  "keeps_file ty \<longleftrightarrow> ty \<in> {afs_ev_open, afs_ev_fsync, afs_ev_write, afs_ev_readall}"

lemma upd_ps_event:
  assumes "i < length (ac_ps c)" "proc_update e (ps_p (ac_ps c ! i)) fds = Inr (afs_ok, v)" "pr_evs_len v = 1" "keeps_file (ev_ty (pr_evs v ! 0))"
    "ac_evs c = Some evs" "ac_evs_maxlen c = length evs" "ac_evs_len c < length evs"
  defines "ev \<equiv> (pr_evs v ! 0)\<lparr>ev_fd := ps_fd (ac_ps c ! i)\<rparr>"
  shows "upd_ps e fds c i = Inr (False, (ps_upd c i ((ac_ps c ! i)\<lparr>ps_p := v\<lparr>pr_evs := (pr_evs v)[0 := ev]\<rparr>\<rparr>))
     \<lparr>ac_evs := Some (evs[ac_evs_len c := ev]), ac_evs_len := Suc (ac_evs_len c)\<rparr>)"
  using assms(1-7) unfolding ev_def
  by (auto simp: upd_ps_def proc_evs_def upd_event_def upd_switch_def afs_ev_ty_def afs_ev_is_fail_def keeps_file_def out_ev_def Let_def)

lemma afs_update_one:
  assumes "ctx_inv c" "\<not> ac_is_stop_req c" "i < length (ac_ps c)" "\<And>j. j < length (ac_ps c) \<Longrightarrow> j \<noteq> i \<Longrightarrow> quiet (ac_ps c ! j) fds"
    "proc_update (es (length (ac_ps c) - Suc i)) (ps_p (ac_ps c ! i)) fds = Inr (afs_ok, v)" "pr_evs_len v = 1" "keeps_file (ev_ty (pr_evs v ! 0))"
  defines "x \<equiv> ac_ps c ! i" and "ev \<equiv> (pr_evs v ! 0)\<lparr>ev_fd := ps_fd (ac_ps c ! i)\<rparr>"
  shows "\<exists>d evs. afs_update es c fds = Inr d \<and> afs_evs d = (Some evs, 1) \<and> evs ! 0 = ev \<and> \<not> ac_is_stop_req d \<and>
     ac_ps d = map calm (take i (ac_ps c)) @ x\<lparr>ps_p := v\<lparr>pr_evs := (pr_evs v)[0 := ev]\<rparr>\<rparr> # map calm (drop (Suc i) (ac_ps c))"
proof -
  let ?n = "length (ac_ps c) - Suc i" and ?c = "c\<lparr>ac_evs_len := 0\<rparr>"
  let ?d = "calm_from 0 i ?c"
  have n: "length (ac_ps c) = i + Suc ?n" using assms(3) by simp
  have nth: "ac_ps ?d ! i = x" "length (ac_ps ?d) = length (ac_ps c)"
    using assms(3) by (simp_all add: calm_from_def nth_append x_def)
  have "length (ac_ps c) * 3 \<le> ac_evs_maxlen c" using assms(1) by (simp add: ctx_inv_def room_for_def proc_evs_maxlen_def)
  with assms(3) ctx_inv_evs[OF assms(1)] obtain evs where evs: "ac_evs c = Some evs" "ac_evs_maxlen c = length evs" "0 < length evs"
    by (cases "ac_evs c") (auto simp del: length_greater_0_conv)
  let ?e = "(ps_upd ?d i (x\<lparr>ps_p := v\<lparr>pr_evs := (pr_evs v)[0 := ev]\<rparr>\<rparr>))\<lparr>ac_evs := Some (evs[0 := ev]), ac_evs_len := 1\<rparr>"
  have turn: "upd_ps (es ?n) fds ?d i = Inr (False, ?e)"
    using upd_ps_event[of i ?d "es ?n" fds v evs] assms(3,5-7) evs nth by (simp add: calm_from_def x_def ev_def)
  have before: "update_loop es fds 0 (i + Suc ?n) ?c = update_loop es fds (0 + i) (Suc ?n) ?d"
    using assms(3,4) by (intro update_loop_quiet) auto
  have "update_loop es fds (Suc i) (?n + 0) ?e = update_loop es fds (Suc i + ?n) 0 (calm_from (Suc i) ?n ?e)"
    using assms(3,4) nth by (intro update_loop_quiet) (auto simp: calm_from_def nth_append)
  with turn have "update_loop es fds 0 (i + Suc ?n) ?c = Inr (calm_from (Suc i) ?n ?e)"
    unfolding before by simp
  then have "afs_update es c fds = Inr (calm_from (Suc i) ?n ?e)"
    using assms(2) evs(1) unfolding n[symmetric] by (simp add: afs_update_def Let_def calm_from_def)
  with assms(2,3) evs(3) Cons_nth_drop_Suc[OF assms(3), symmetric] show ?thesis
    by (auto simp: afs_evs_def calm_from_def list_update_append x_def)
qed

section \<open>A request from the call to its event\<close>

text \<open>
  File \<open>fd\<close> is open, its worker at position \<open>i\<close> is free with shared memory \<open>s\<close>, buffer \<open>b\<close> and
  process \<open>ch\<close>; \<open>fds\<close> is what \<^verbatim>\<open>poll\<close> says once the worker has answered.
\<close>

definition file_ready :: "afs_ctx \<Rightarrow> int \<Rightarrow> nat \<Rightarrow> pollfd list \<Rightarrow> proc_shared \<Rightarrow> string \<Rightarrow> child \<Rightarrow> bool" where
  "file_ready c fd i fds s b ch \<longleftrightarrow> ctx_inv c \<and> \<not> ac_is_stop_req c \<and> ps_get c fd = Some i \<and> fd \<noteq> -1 \<and>
     ps_is_avail (ac_ps c ! i) \<and> ready_worker (ps_p (ac_ps c ! i)) s b ch \<and> ch_fd ch \<noteq> -1 \<and>
     proc_polled (ps_p (ac_ps c ! i)) fds = POLLIN \<and> (\<forall>j < length (ac_ps c). j \<noteq> i \<longrightarrow> quiet (ac_ps c ! j) fds)"

lemma file_ready_nth: "file_ready c fd i fds s b ch \<Longrightarrow> i < length (ac_ps c) \<and> ps_fd (ac_ps c ! i) = fd"
  using ps_get_nth[of c fd i] by (auto simp: file_ready_def)

lemma ps_find_same_fds: "map ps_fd xs = map ps_fd ys \<Longrightarrow> ps_find xs fd = ps_find ys fd"
proof (induction xs arbitrary: ys)
  case (Cons x xs)
  then obtain y zs where "ys = y # zs" "ps_fd y = ps_fd x" "map ps_fd xs = map ps_fd zs" by (cases ys) auto
  with Cons.IH[of zs] show ?case by simp
qed simp

lemma quiet_calm [simp]: "quiet (calm x) fds = quiet x fds"
  by (simp add: quiet_def calm_def proc_polled_def)

lemma calm_fd [simp]: "ps_fd (calm x) = ps_fd x"
  by (simp add: calm_def)

lemma file_ready_upd:
  assumes "file_ready c fd i fds s b ch" "ready_worker p s' b' ch'" "ch_fd ch' \<noteq> -1" "pr_fd p = pr_fd (ps_p (ac_ps c ! i))"
  shows "file_ready (ps_upd c i ((ac_ps c ! i)\<lparr>ps_p := p\<rparr>)) fd i fds s' b' ch'"
proof -
  let ?y = "(ac_ps c ! i)\<lparr>ps_p := p\<rparr>"
  note i = file_ready_nth[OF assms(1)]
  have "ctx_inv (ps_upd c i ?y)"
    using assms(1,2) i by (intro ctx_inv_upd_same) (auto simp: file_ready_def ready_worker_def)
  moreover have "ps_get (ps_upd c i ?y) fd = Some i"
    using assms(1) i by (auto simp: file_ready_def ps_get_def intro: ps_find_upd)
  moreover have "proc_polled p fds = POLLIN" using assms(1,4) by (auto simp: file_ready_def proc_polled_def split: if_splits)
  ultimately show ?thesis using assms i by (auto simp: file_ready_def)
qed

text \<open>Only the worker at position \<open>i\<close> has changed, and not its descriptors.\<close>

definition others_same :: "nat \<Rightarrow> afs_ctx \<Rightarrow> afs_ctx \<Rightarrow> bool" where
  "others_same i c d \<longleftrightarrow> map ps_fd (ac_ps d) = map ps_fd (ac_ps c) \<and> pr_fd (ps_p (ac_ps d ! i)) = pr_fd (ps_p (ac_ps c ! i)) \<and>
     (\<forall>j < length (ac_ps c). j \<noteq> i \<longrightarrow> calm (ac_ps d ! j) = calm (ac_ps c ! j))"

lemma others_same_trans: "others_same i c d \<Longrightarrow> others_same i d e \<Longrightarrow> others_same i c e"
  using map_eq_imp_length_eq[of ps_fd "ac_ps d" ps_fd "ac_ps c"] by (auto simp: others_same_def)

lemma others_same_upd:
  "i < length (ac_ps c) \<Longrightarrow> pr_fd p = pr_fd (ps_p (ac_ps c ! i)) \<Longrightarrow> others_same i c (ps_upd c i ((ac_ps c ! i)\<lparr>ps_p := p\<rparr>))"
  by (auto simp: others_same_def ps_upd_def map_update list_update_same_conv nth_list_update)

text \<open>What another open file is ready for stays as it was.\<close>

lemma calm_fields:
  assumes "calm x = calm y"
  shows "ps_fd x = ps_fd y" "ps_is_avail x = ps_is_avail y" "pr_st (ps_p x) = pr_st (ps_p y)" "pr_is_stop_req (ps_p x) = pr_is_stop_req (ps_p y)"
    "pr_shared (ps_p x) = pr_shared (ps_p y)" "pr_rw_buf (ps_p x) = pr_rw_buf (ps_p y)" "pr_child (ps_p x) = pr_child (ps_p y)"
    "pr_fd (ps_p x) = pr_fd (ps_p y)" "quiet x fds = quiet y fds"
proof -
  have f: "ps_fd (calm x) = ps_fd (calm y)" "ps_is_avail (calm x) = ps_is_avail (calm y)" "pr_st (ps_p (calm x)) = pr_st (ps_p (calm y))"
    "pr_is_stop_req (ps_p (calm x)) = pr_is_stop_req (ps_p (calm y))" "pr_shared (ps_p (calm x)) = pr_shared (ps_p (calm y))"
    "pr_rw_buf (ps_p (calm x)) = pr_rw_buf (ps_p (calm y))" "pr_child (ps_p (calm x)) = pr_child (ps_p (calm y))"
    "pr_fd (ps_p (calm x)) = pr_fd (ps_p (calm y))" "quiet (calm x) fds = quiet (calm y) fds"
    using assms by simp_all
  from f show "ps_fd x = ps_fd y" "ps_is_avail x = ps_is_avail y" "pr_st (ps_p x) = pr_st (ps_p y)" "pr_is_stop_req (ps_p x) = pr_is_stop_req (ps_p y)"
    "pr_shared (ps_p x) = pr_shared (ps_p y)" "pr_rw_buf (ps_p x) = pr_rw_buf (ps_p y)" "pr_child (ps_p x) = pr_child (ps_p y)"
    "pr_fd (ps_p x) = pr_fd (ps_p y)" "quiet x fds = quiet y fds"
    by (simp_all add: calm_def quiet_def proc_polled_def)
qed

lemma file_ready_other:
  assumes "file_ready c fd' j fds' s' b' ch'" "others_same i c d" "file_ready d fd i fds s b ch" "j \<noteq> i"
  shows "file_ready d fd' j fds' s' b' ch'"
proof -
  have len: "length (ac_ps d) = length (ac_ps c)" using assms(2) map_eq_imp_length_eq unfolding others_same_def by blast
  note j = file_ready_nth[OF assms(1)] and i = file_ready_nth[OF assms(3)]
  have same: "calm (ac_ps d ! k) = calm (ac_ps c ! k)" if "k < length (ac_ps c)" "k \<noteq> i" for k
    using assms(2) that by (simp add: others_same_def)
  note cj = calm_fields[OF same[OF conjunct1[OF j] assms(4)]]
  have "ps_get d fd' = Some j"
    using assms(1,2) ps_find_same_fds[of "ac_ps d" "ac_ps c" fd'] by (simp add: file_ready_def others_same_def ps_get_def)
  moreover have d: "ctx_inv d" "\<not> ac_is_stop_req d" using assms(3) by (simp_all add: file_ready_def)
  moreover have "ready_worker (ps_p (ac_ps d ! j)) s' b' ch'"
    using assms(1) cj ctx_inv_nth[OF d(1), of j] j len by (simp add: file_ready_def ready_worker_def ps_inv_def)
  moreover have "proc_polled (ps_p (ac_ps d ! j)) fds' = proc_polled (ps_p (ac_ps c ! j)) fds'" using cj(8) by (simp add: proc_polled_def)
  moreover have "quiet (ac_ps d ! k) fds'" if "k < length (ac_ps d)" "k \<noteq> j" for k
  proof (cases "k = i")
    case True
    have "quiet (ac_ps c ! i) fds'" using assms(1,4) True that len by (simp add: file_ready_def)
    moreover have "ready_worker (ps_p (ac_ps d ! i)) s b ch" using assms(3) by (simp add: file_ready_def)
    moreover have "proc_polled (ps_p (ac_ps d ! i)) fds' = proc_polled (ps_p (ac_ps c ! i)) fds'"
      using assms(2) by (simp add: proc_polled_def others_same_def)
    ultimately show ?thesis using True by (simp add: quiet_def ready_worker_def)
  next
    case False
    then show ?thesis using calm_fields(9)[OF same, of k fds'] assms(1) that len by (simp add: file_ready_def)
  qed
  ultimately show ?thesis using assms(1) cj(2) by (simp add: file_ready_def)
qed

text \<open>The three steps of the process: it wakes up, runs the command, answers.\<close>

definition serve :: "nat \<Rightarrow> child_env \<Rightarrow> afs_op list" where
  "serve i e = replicate 3 (Do_child i Io_done e)"

lemma run_serve:
  assumes "i < length (ac_ps c)" "child_serves e q = Some u"
  shows "run_ops afs_exec (serve i e) (ps_upd c i (x\<lparr>ps_p := q\<rparr>)) = Inr (ps_upd c i (x\<lparr>ps_p := u\<rparr>))"
  using assms by (auto simp: child_serves_def serve_def numeral_3_eq_3 ps_map_def bind_eq_Some_conv)

lemma request_reported:
  assumes f: "file_ready c fd i fds s b ch" and cmd: "keeps_file (cmd_ok_ty cmd)" and e: "child_env_ok e b"
    and run: "child_run_cmd e (serving s cmd b ch) = Some (t, b', ch')" "sh_res t = Res_ok" "ch_fd ch' \<noteq> -1"
  obtains q d evs t' where "proc_send_cmd (k, True) (ps_p (ac_ps c ! i)) cmd = Inr (afs_ok, q)"
    "run_ops afs_exec (serve i e @ [Do_update es fds]) (ps_upd c i ((ac_ps c ! i)\<lparr>ps_p := q\<rparr>)) = Inr d"
    "afs_evs d = (Some evs, 1)" "ev_ty (evs ! 0) = cmd_ok_ty cmd" "ev_fd (evs ! 0) = fd"
    "cmd = Cmd_write \<Longrightarrow> ev_len (evs ! 0) = sh_written t"
    "cmd = Cmd_readall \<Longrightarrow> ev_len (evs ! 0) = sh_read_len t \<and> ev_data (evs ! 0) = Some b'"
    "file_ready d fd i fds t' b' (ch'\<lparr>ch_pc := Pc_read, ch_out := 0\<rparr>)" "others_same i c d"
proof -
  let ?x = "ac_ps c ! i"
  note i = file_ready_nth[OF f]
  have r: "ready_worker (ps_p ?x) s b ch" "proc_polled (ps_p ?x) fds = POLLIN" "cmd \<noteq> Cmd_none" "cmd \<noteq> Cmd_exit"
    using f cmd by (auto simp: file_ready_def keeps_file_def)
  obtain q u v t' where v: "proc_send_cmd (k, True) (ps_p ?x) cmd = Inr (afs_ok, q)" "child_serves e q = Some u"
    "proc_update (es (length (ac_ps c) - Suc i)) u fds = Inr (afs_ok, v)" "pr_evs_len v = 1"
    "ev_ty (pr_evs v ! 0) = cmd_ok_ty cmd" "cmd = Cmd_write \<longrightarrow> ev_len (pr_evs v ! 0) = sh_written t"
    "cmd = Cmd_readall \<longrightarrow> ev_len (pr_evs v ! 0) = sh_read_len t \<and> ev_data (pr_evs v ! 0) = Some b'"
    "ready_worker v t' b' (ch'\<lparr>ch_pc := Pc_read, ch_out := 0\<rparr>)" "proc_inv u" "poll_true (proc_polled u fds) (pr_child u)"
    "pr_fd v = pr_fd (ps_p ?x)"
    by (rule ready_answered[OF r(1,3,4) e run(1) r(2), of k "es (length (ac_ps c) - Suc i)"]) (use run(2) in simp_all)
  let ?u = "ps_upd c i (?x\<lparr>ps_p := u\<rparr>)" and ?ev = "(pr_evs v ! 0)\<lparr>ev_fd := fd\<rparr>"
  have u: "ctx_inv ?u" using f i v(9) by (intro ctx_inv_upd_same) (auto simp: file_ready_def)
  from afs_update_one[OF u, of i fds es v] f i v(3-5) cmd obtain d evs where
    d: "afs_update es ?u fds = Inr d" "afs_evs d = (Some evs, 1)" "evs ! 0 = ?ev" "\<not> ac_is_stop_req d"
      "ac_ps d = map calm (take i (ac_ps c)) @ ?x\<lparr>ps_p := v\<lparr>pr_evs := (pr_evs v)[0 := ?ev]\<rparr>\<rparr> # map calm (drop (Suc i) (ac_ps c))"
    by (auto simp: file_ready_def)
  have "poll_true (proc_polled (ps_p (ac_ps ?u ! j)) fds) (pr_child (ps_p (ac_ps ?u ! j)))" if "j < length (ac_ps c)" for j
    using f i v(10) that by (cases "j = i") (auto simp: file_ready_def quiet_polls)
  then have "polls_true ?u fds" by (auto simp: polls_true_def in_set_conv_nth)
  with afs_update_inv[OF u, of fds es] d(1) f have inv: "ctx_inv d" by (simp add: file_ready_def)
  have fds: "map ps_fd (ac_ps d) = map ps_fd (ac_ps c)"
    unfolding d(5) using arg_cong[OF id_take_nth_drop[of i "ac_ps c"], of "map ps_fd"] i by (simp add: comp_def)
  from fds have "ps_get d fd = Some i" using f ps_find_same_fds[of "ac_ps d" "ac_ps c" fd] by (simp add: file_ready_def ps_get_def)
  moreover have nth: "ac_ps d ! i = ?x\<lparr>ps_p := v\<lparr>pr_evs := (pr_evs v)[0 := ?ev]\<rparr>\<rparr>" "length (ac_ps d) = length (ac_ps c)"
    unfolding d(5) using i by (auto simp: nth_append)
  moreover have "quiet (ac_ps d ! j) fds" if "j < length (ac_ps d)" "j \<noteq> i" for j
    using f i that nth(2) unfolding d(5) by (auto simp: nth_append nth_Cons' file_ready_def)
  moreover have "proc_inv (v\<lparr>pr_evs := (pr_evs v)[0 := ?ev]\<rparr>)" using ctx_inv_nth[OF inv, of i] nth i by (simp add: ps_inv_def)
  moreover have "others_same i c d" unfolding others_same_def
  proof (intro conjI allI impI)
    show "pr_fd (ps_p (ac_ps d ! i)) = pr_fd (ps_p ?x)" using nth(1) v(11) by simp
    show "calm (ac_ps d ! j) = calm (ac_ps c ! j)" if "j < length (ac_ps c)" "j \<noteq> i" for j
      using i that unfolding d(5) by (auto simp: nth_append nth_Cons' calm_def)
  qed (rule fds)
  ultimately have "file_ready d fd i fds t' b' (ch'\<lparr>ch_pc := Pc_read, ch_out := 0\<rparr>)" and "others_same i c d"
    using inv f v(8,11) d(4) run(3) by (auto simp: file_ready_def proc_polled_def ready_worker_def split: if_splits)
  moreover have "run_ops afs_exec (serve i e @ [Do_update es fds]) (ps_upd c i (?x\<lparr>ps_p := q\<rparr>)) = Inr d"
    using run_serve[OF _ v(2), of i c ?x] i d(1) by (simp add: run_ops_append)
  ultimately show thesis using that[OF v(1), of d evs t'] d(2,3) v(5-7) by simp
qed

section \<open>Writing and reading a file\<close>

text \<open>The answers of \<^verbatim>\<open>write\<close> to a write of \<open>len\<close> bytes that ends well: pieces that add up, and interruptions.\<close>

definition writes_whole :: "write_res list \<Rightarrow> nat \<Rightarrow> bool" where
  "writes_whole ws len \<longleftrightarrow> writes_fit ws len \<and> Write_error \<notin> set ws \<and> len \<le> writes_total ws \<and> list_ex (\<lambda>w. case w of Wrote n \<Rightarrow> True | _ \<Rightarrow> False) ws"

lemma writes_wholeD: "writes_whole ws len \<Longrightarrow>
    writes_fit ws len \<and> Write_error \<notin> set ws \<and> len \<le> writes_total ws \<and> (\<exists>n. Wrote n \<in> set ws)"
  unfolding writes_whole_def list_ex_iff by (metis write_res.simps(9,10) write_res.exhaust)

lemma file_fill:
  assumes "file_ready c fd i fds s b ch" "length b' = length b"
  shows "\<exists>d. run_ops afs_exec [Do_fill i b'] c = Inr d \<and> file_ready d fd i fds s b' ch \<and> others_same i c d"
proof -
  let ?p = "(ps_p (ac_ps c ! i))\<lparr>pr_rw_buf := Some b'\<rparr>"
  have "ready_worker (ps_p (ac_ps c ! i)) s b ch" "ch_fd ch \<noteq> -1" using assms(1) by (simp_all add: file_ready_def)
  moreover from this assms(2) ready_worker_length have "ready_worker ?p s b' ch"
    by (auto simp: ready_worker_def intro!: proc_inv_fill)
  ultimately have "file_ready (ps_upd c i ((ac_ps c ! i)\<lparr>ps_p := ?p\<rparr>)) fd i fds s b' ch"
    by (intro file_ready_upd[OF assms(1)]) simp_all
  with file_ready_nth[OF assms(1)] others_same_upd[of i c ?p] show ?thesis by (simp add: ps_map_def)
qed

lemma file_write:
  assumes "file_ready c fd i fds s b ch" "len \<le> length b" "writes_whole (ce_writes e) len" "child_env_ok e b"
  shows "\<exists>d evs t ch' calls. run_ops afs_exec (Do_write (k, True) fd len # serve i e @ [Do_update es fds]) c = Inr d \<and>
     afs_evs d = (Some evs, 1) \<and> ev_ty (evs ! 0) = afs_ev_write \<and> ev_fd (evs ! 0) = fd \<and> afs_ev_write_len (evs ! 0) = len \<and>
     ch_calls ch' = ch_calls ch @ calls \<and> only_writes (ch_fd ch) calls \<and> sys_written (ch_fd ch) calls = take len b \<and>
     ch_fd ch' = ch_fd ch \<and> file_ready d fd i fds t b ch' \<and> others_same i c d"
proof -
  let ?x = "ac_ps c ! i" and ?s = "s\<lparr>sh_write_len := len\<rparr>"
  let ?p = "(ps_p ?x)\<lparr>pr_shared := Some ?s\<rparr>"
  let ?c = "ps_upd c i (?x\<lparr>ps_p := ?p\<rparr>)"
  note i = file_ready_nth[OF assms(1)]
  have x: "ready_worker (ps_p ?x) s b ch" "ch_fd ch \<noteq> -1" "ps_get c fd = Some i" "fd \<noteq> -1" "ps_is_avail ?x"
    using assms(1) by (simp_all add: file_ready_def)
  have c: "file_ready ?c fd i fds ?s b ch"
    using ready_worker_write_len[OF x(1)] ready_worker_length[OF x(1)] assms(2) x(2) by (intro file_ready_upd[OF assms(1)]) auto
  note w = writes_wholeD[OF assms(3)]
  from child_run_write[OF x(2) assms(2), of e ?s] w obtain t calls where
    run: "child_run_cmd e (serving ?s Cmd_write b ch) =
       Some (t\<lparr>sh_res := Res_ok, sh_st := Child_idle\<rparr>, b, ch\<lparr>ch_in := 0, ch_pc := Pc_answer False, ch_calls := ch_calls ch @ calls\<rparr>)"
    and calls: "sh_written t = len" "only_writes (ch_fd ch) calls" "sys_written (ch_fd ch) calls = take len b"
    by auto
  obtain q d evs t' where d: "proc_send_cmd (k, True) ?p Cmd_write = Inr (afs_ok, q)"
    "run_ops afs_exec (serve i e @ [Do_update es fds]) (ps_upd c i (?x\<lparr>ps_p := q\<rparr>)) = Inr d"
    "afs_evs d = (Some evs, 1)" "ev_ty (evs ! 0) = afs_ev_write" "ev_fd (evs ! 0) = fd" "ev_len (evs ! 0) = len"
    "file_ready d fd i fds t' b (ch\<lparr>ch_in := 0, ch_calls := ch_calls ch @ calls, ch_pc := Pc_read, ch_out := 0\<rparr>)"
    "others_same i ?c d"
    by (rule request_reported[OF c _ assms(4) run, of k es]) (use i x(2) calls(1) in \<open>simp_all add: keeps_file_def\<close>)
  have "afs_write (k, True) c fd len = Inr (afs_ok, ps_upd c i (?x\<lparr>ps_p := q\<rparr>))"
    using x(3-5) x(1) assms(2) d(1) ready_worker_length[OF x(1)]
    by (auto simp: afs_write_def proc_write_def ps_sent_def Let_def ready_worker_def)
  moreover have "others_same i c d" using others_same_trans[OF others_same_upd d(8)] i by simp
  ultimately show ?thesis using d(2-7) calls(2,3)
    by (intro exI[of _ d] exI[of _ evs] exI[of _ t'] exI[of _ "ch\<lparr>ch_in := 0, ch_calls := ch_calls ch @ calls, ch_pc := Pc_read, ch_out := 0\<rparr>"]
        exI[of _ calls]) (simp add: afs_ev_write_len_def)
qed

lemma file_readall:
  assumes "file_ready c fd i fds s b ch" "ce_read e = Some data" "length data \<le> length b"
  shows "\<exists>d evs t ch'. run_ops afs_exec (Do_readall (k, True) fd # serve i e @ [Do_update es fds]) c = Inr d \<and>
     afs_evs d = (Some evs, 1) \<and> ev_ty (evs ! 0) = afs_ev_readall \<and> ev_fd (evs ! 0) = fd \<and> afs_ev_readall_len (evs ! 0) = length data \<and>
     afs_ev_readall_data (evs ! 0) = Some (overwrite b 0 data) \<and> file_ready d fd i fds t (overwrite b 0 data) ch'"
proof -
  let ?x = "ac_ps c ! i"
  note i = file_ready_nth[OF assms(1)]
  have x: "ready_worker (ps_p ?x) s b ch" "ch_fd ch \<noteq> -1" "ps_get c fd = Some i" "fd \<noteq> -1" "ps_is_avail ?x"
    using assms(1) by (simp_all add: file_ready_def)
  obtain t ch' where run: "child_run_cmd e (serving s Cmd_readall b ch) = Some (t, overwrite b 0 data, ch')" "sh_res t = Res_ok"
    "sh_read_len t = length data" "ch_fd ch' = ch_fd ch"
    using assms(2) x(2) by (simp add: child_run_cmd_def serving_def proc_child_readall_def child_done_def)
  have e: "child_env_ok e b" using assms(2,3) by (simp add: child_env_ok_def)
  obtain q d evs t' where d: "proc_send_cmd (k, True) (ps_p ?x) Cmd_readall = Inr (afs_ok, q)"
    "run_ops afs_exec (serve i e @ [Do_update es fds]) (ps_upd c i (?x\<lparr>ps_p := q\<rparr>)) = Inr d"
    "afs_evs d = (Some evs, 1)" "ev_ty (evs ! 0) = afs_ev_readall" "ev_fd (evs ! 0) = fd" "ev_len (evs ! 0) = length data"
    "ev_data (evs ! 0) = Some (overwrite b 0 data)"
    "file_ready d fd i fds t' (overwrite b 0 data) (ch'\<lparr>ch_pc := Pc_read, ch_out := 0\<rparr>)"
    by (rule request_reported[OF assms(1) _ e run(1,2), of k es]) (use i x(2) run(3,4) in \<open>simp_all add: keeps_file_def\<close>)
  have "afs_readall (k, True) c fd = Inr (afs_ok, ps_upd c i (?x\<lparr>ps_p := q\<rparr>))"
    using x(3-5) d(1) by (auto simp: afs_readall_def proc_readall_def ps_sent_def Let_def)
  with d show ?thesis
    by (intro exI[of _ d] exI[of _ evs] exI[of _ t'] exI[of _ "ch'\<lparr>ch_pc := Pc_read, ch_out := 0\<rparr>"])
      (simp add: afs_ev_readall_len_def afs_ev_readall_data_def)
qed

text \<open>
  C6: A write reaches the file. When \<^verbatim>\<open>afs_write\<close> is called for an open file with a free worker,
  its process makes progress with every \<^verbatim>\<open>write\<close> but interruptions, and none fails, then the
  bytes that go to the file are the first \<open>len\<close> bytes of the buffer in their order, and the
  next update reports \<^verbatim>\<open>afs_ev_write\<close> for that file with the length requested, once, and
  nothing else; the worker is free again.
\<close>

theorem afs_write_delivered:
  assumes "file_ready c fd i fds s b ch" "len \<le> length b" "writes_whole (ce_writes e) len" "child_env_ok e b"
  shows "\<exists>d evs t ch' calls. run_ops afs_exec (Do_write (k, True) fd len # serve i e @ [Do_update es fds]) c = Inr d \<and>
     afs_evs d = (Some evs, 1) \<and> ev_ty (evs ! 0) = afs_ev_write \<and> ev_fd (evs ! 0) = fd \<and> afs_ev_write_len (evs ! 0) = len \<and>
     ch_calls ch' = ch_calls ch @ calls \<and> only_writes (ch_fd ch) calls \<and> sys_written (ch_fd ch) calls = take len b \<and>
     ch_fd ch' = ch_fd ch \<and> file_ready d fd i fds t b ch'"
  using file_write[OF assms] by blast

section \<open>The contents of a file\<close>

text \<open>
  A file as the kernel keeps it: its contents, and the offset of an open file description, at
  which the next \<^verbatim>\<open>read\<close> or \<^verbatim>\<open>write\<close> takes place and which they move. A write beyond the end extends the
  file. (The file is not opened with \<^verbatim>\<open>O_APPEND\<close>, and no one else writes to it.)
\<close>

definition file_put :: "string \<Rightarrow> nat \<Rightarrow> string \<Rightarrow> string" where
  "file_put old off data = take off old @ replicate (off - length old) NUL @ data @ drop (off + length data) old"

definition file_read :: "nat \<Rightarrow> string \<times> nat \<Rightarrow> string" where
  "file_read n f = take n (drop (snd f) (fst f))"

text \<open>After the calls of a process, of which those on the descriptor \<open>fd\<close> are about this file.\<close>

fun file_after :: "int \<Rightarrow> sys_call list \<Rightarrow> string \<times> nat \<Rightarrow> string \<times> nat" where
  "file_after fd [] f = f"
| "file_after fd (Sys_write fd' data # calls) f =
     file_after fd calls (if fd' = fd then (file_put (fst f) (snd f) data, snd f + length data) else f)"
| "file_after fd (Sys_read fd' n # calls) f =
     file_after fd calls (if fd' = fd then (fst f, snd f + length (file_read n f)) else f)"
| "file_after fd (c # calls) f = file_after fd calls f"

lemma file_after_writes:
  assumes "only_writes fd calls" "off \<le> length old"
  shows "file_after fd calls (old, off) =
    (take off old @ sys_written fd calls @ drop (off + length (sys_written fd calls)) old, off + length (sys_written fd calls))"
  using assms
proof (induction fd calls arbitrary: old off rule: only_writes.induct)
  case (2 fd fd' data calls)
  let ?old = "file_put old off data"
  have t: "length ?old = max (length old) (off + length data)" "take (off + length data) ?old = take off old @ data"
    "drop (off + length data + n) ?old = drop (off + length data + n) old" for n
    using 2(3) by (auto simp: file_put_def add.commute)
  show ?case using 2(1)[of "off + length data" ?old] 2(2) t by (simp add: add.assoc)
qed simp_all

definition demo_quiet :: ps where
  "demo_quiet = demo_ps\<lparr>ps_fd := 1, ps_p := demo_proc\<lparr>pr_pid := 8, pr_fd := 6\<rparr>\<rparr>"

definition demo_file :: "string \<Rightarrow> ps" where
  "demo_file b = demo_ps\<lparr>ps_p := demo_proc\<lparr>pr_rw_buf := Some b, pr_rw_buf_len := length b\<rparr>\<rparr>"

lemma demo_file_ready: "file_ready (demo_ctx [demo_quiet, demo_file b]) 0 1 (demo_fds [4]) demo_shared b (demo_child 5)"
proof -
  have "proc_inv (ps_p demo_quiet)" "proc_inv (ps_p (demo_file b))" "ps_fd demo_quiet = 1" "ps_fd (demo_file b) = 0"
    by (simp_all add: demo_quiet_def demo_file_def demo_defs proc_inv_def proc_mem_def proc_evs_maxlen_def idle_def)
  then have "ctx_inv (demo_ctx [demo_quiet, demo_file b])"
    by (simp add: ctx_inv_def ps_inv_def fds_distinct_def room_for_def demo_ctx_def proc_evs_maxlen_def)
  moreover have "ready_worker (ps_p (demo_file b)) demo_shared b (demo_child 5)"
    using \<open>proc_inv (ps_p (demo_file b))\<close> by (simp add: ready_worker_def demo_file_def demo_ps_def demo_proc_def demo_child_def)
  ultimately show ?thesis
    by (simp add: file_ready_def ps_get_def quiet_def proc_polled_def demo_quiet_def demo_file_def demo_defs less_Suc_eq)
qed

theorem afs_write_delivered_witness:
  "\<exists>d evs t ch' calls. run_ops afs_exec (Do_write (2, True) 0 3 # serve 1 (demo_env [Write_eintr, Wrote 2, Wrote 1]) @
       [Do_update (\<lambda>_. demo_update) (demo_fds [4])]) (demo_ctx [demo_quiet, demo_file ''hello'']) = Inr d \<and>
     afs_evs d = (Some evs, 1) \<and> ev_ty (evs ! 0) = afs_ev_write \<and> ev_fd (evs ! 0) = 0 \<and> afs_ev_write_len (evs ! 0) = 3 \<and>
     ch_calls ch' = calls \<and> only_writes 5 calls \<and> sys_written 5 calls = ''hel'' \<and>
     ch_fd ch' = 5 \<and> file_ready d 0 1 (demo_fds [4]) t ''hello'' ch'"
proof -
  let ?e = "demo_env [Write_eintr, Wrote 2, Wrote 1]"
  have "writes_whole (ce_writes ?e) 3" "child_env_ok ?e ''hello''" by (simp_all add: writes_whole_def demo_env_def child_env_ok_def)
  with afs_write_delivered[OF demo_file_ready[of "''hello''"], of 3 ?e 2 "\<lambda>_. demo_update"] show ?thesis
    by (simp add: demo_child_def)
qed

end
