(* ===== verification/Afs_Stop.thy ===== *)
theory Afs_Stop
  imports Afs_System
begin

text \<open>
  Stopping the asynchronous file module: a stop is reported and completed once the worker
  processes have answered; it can leave a process running, and it takes the program down
  when no worker was ever used.
\<close>

section \<open>The end of a stop\<close>

text \<open>A worker that was told to exit, with nothing left to do for the user.\<close>

definition exiting :: "ps \<Rightarrow> bool" where
  "exiting x \<longleftrightarrow> proc_inv (ps_p x) \<and> pr_st (ps_p x) = Proc_busy \<and> ps_cmd_after_init x = Cmd_none \<and>
     (\<exists>s. pr_shared (ps_p x) = Some s \<and> sh_cmd s = Cmd_exit)"

lemma exit_settled: "proto Proc_busy s ch \<Longrightarrow> sh_cmd s = Cmd_exit \<Longrightarrow> ch_out ch > 0 \<Longrightarrow> sh_res s = Res_ok"
  by (auto simp: proto_defs)

lemma proc_update_exiting:
  assumes "exiting x" "poll_true (proc_polled (ps_p x) fds) (pr_child (ps_p x))"
    "readable (proc_polled (ps_p x) fds) \<or> died (proc_polled (ps_p x) fds)"
  shows "\<exists>q. proc_update e (ps_p x) fds = Inr (afs_fail, q) \<and> pr_st q = Proc_uninit \<and> pr_evs_len q = 1 \<and>
    (ev_ty (pr_evs q ! 0) = afs_ev_init \<or> ev_ty (pr_evs q ! 0) = afs_ev_stop_fail)"
proof -
  let ?p = "ps_p x"
  from assms(1) obtain s b ch where p: "pr_st ?p = Proc_busy" "pr_shared ?p = Some s" "sh_cmd s = Cmd_exit" "pr_child ?p = Some ch"
    "proto Proc_busy s ch" "length (pr_evs ?p) = 3" "pr_fd ?p \<noteq> -1"
    by (auto simp: exiting_def proc_inv_def proc_mem_def proc_evs_maxlen_def)
  have "sh_res s = Res_ok" if "\<not> died (proc_polled ?p fds)"
    using that assms(2,3) p(4) exit_settled[OF p(5,3)] by (auto simp: poll_true_def)
  with p assms(3) show ?thesis
    by (cases "died (proc_polled ?p fds)")
      (simp_all add: proc_update_def Let_def proc_polled_def proc_update_busy_def with_shared_def proc_read_byte_def
        proc_must_add_ev_eq proc_evs_maxlen_def)
qed

lemma upd_events_exiting:
  assumes "i < length (ac_ps c)" "ps_p (ac_ps c ! i) = q" "pr_st q = Proc_uninit" "ps_cmd_after_init (ac_ps c ! i) = Cmd_none"
    "ev_ty (pr_evs q ! 0) = afs_ev_init \<or> ev_ty (pr_evs q ! 0) = afs_ev_stop_fail"
  shows "\<exists>d y. upd_events e i 0 1 False c = Inr (False, d) \<and> ac_ps d = (ac_ps c)[i := y] \<and> pr_st (ps_p y) = Proc_uninit \<and>
    ac_evs d = ac_evs c \<and> ac_evs_len d = ac_evs_len c"
  using assms by (auto simp: upd_event_def upd_switch_def upd_init_def afs_ev_ty_def afs_ev_is_fail_def Let_def)
    (rule exI, rule conjI, rule refl, simp)+

lemma upd_ps_exiting:
  assumes "ctx_inv c" "i < length (ac_ps c)" "exiting (ac_ps c ! i)"
    "poll_true (proc_polled (ps_p (ac_ps c ! i)) fds) (pr_child (ps_p (ac_ps c ! i)))"
    "readable (proc_polled (ps_p (ac_ps c ! i)) fds) \<or> died (proc_polled (ps_p (ac_ps c ! i)) fds)"
    "\<forall>j < i. pr_st (ps_p (ac_ps c ! j)) = Proc_uninit"
  shows "\<exists>d. upd_ps e fds c i = Inr (True, d) \<and> (\<forall>j < i. pr_st (ps_p (ac_ps d ! j)) = Proc_uninit) \<and>
    ac_evs d = ac_evs c \<and> ac_evs_len d = ac_evs_len c"
proof -
  let ?x = "ac_ps c ! i"
  from proc_update_exiting[OF assms(3-5), of e] obtain q where q: "proc_update e (ps_p ?x) fds = Inr (afs_fail, q)" "pr_st q = Proc_uninit"
    "pr_evs_len q = 1" "ev_ty (pr_evs q ! 0) = afs_ev_init \<or> ev_ty (pr_evs q ! 0) = afs_ev_stop_fail"
    by blast
  let ?c = "ps_upd c i (?x\<lparr>ps_p := q\<rparr>)"
  have "ps_cmd_after_init ?x = Cmd_none" using assms(3) by (simp add: exiting_def)
  with upd_events_exiting[of i ?c q e] assms(2) q obtain d y where d: "upd_events e i 0 1 False ?c = Inr (False, d)"
    "ac_ps d = (ac_ps c)[i := y]" "pr_st (ps_p y) = Proc_uninit" "ac_evs d = ac_evs c" "ac_evs_len d = ac_evs_len c"
    by auto
  have uninit: "pr_st (ps_p (ac_ps d ! j)) = Proc_uninit" if "j \<le> i" for j
    using that assms(2,6) d(2,3) by (cases "j = i") auto
  from ps_find_le[of i "ac_ps d"] assms(2) d(2) obtain j where j: "j \<le> i" "ps_find (ac_ps d) (ps_fd (ac_ps d ! i)) = Some j"
    by (metis length_list_update)
  let ?f = "d\<lparr>ac_ps := take j (ac_ps d) @ drop (Suc j) (ac_ps d), ac_freed := ac_freed d @ [ac_ps d ! j]\<rparr>"
  have "upd_ps e fds c i = Inr (True, ?f)"
    using q(1,3) d(1) j(2) by (simp add: upd_ps_def proc_evs_def ps_del_def)
  moreover have "pr_st (ps_p (ac_ps ?f ! m)) = Proc_uninit" if "m < i" for m
    using that uninit[of m] uninit[of "Suc m"] nth_del[of j m "ac_ps d"] j(1) assms(2) d(2)
    by (cases "m < j") (simp_all add: nth_append)
  ultimately show ?thesis using d(4,5) by auto
qed

lemma update_loop_exiting:
  "ctx_inv c \<Longrightarrow> i + n = length (ac_ps c) \<Longrightarrow> ac_evs_len c + 2 * n \<le> ac_evs_maxlen c \<Longrightarrow>
   (\<And>j. i \<le> j \<Longrightarrow> j < length (ac_ps c) \<Longrightarrow> exiting (ac_ps c ! j) \<and>
      poll_true (proc_polled (ps_p (ac_ps c ! j)) fds) (pr_child (ps_p (ac_ps c ! j))) \<and>
      (readable (proc_polled (ps_p (ac_ps c ! j)) fds) \<or> died (proc_polled (ps_p (ac_ps c ! j)) fds))) \<Longrightarrow>
   \<forall>j < i. pr_st (ps_p (ac_ps c ! j)) = Proc_uninit \<Longrightarrow>
   \<exists>d. update_loop es fds i n c = Inr d \<and> ctx_inv d \<and> ac_evs d = ac_evs c \<and> ac_evs_len d = ac_evs_len c \<and>
     ac_is_stop_req d = ac_is_stop_req c \<and> (\<forall>x \<in> set (ac_ps d). pr_st (ps_p x) = Proc_uninit)"
proof (induction n arbitrary: i c)
  case 0
  then show ?case by (auto simp: in_set_conv_nth)
next
  case (Suc n)
  have i: "i < length (ac_ps c)" "ac_evs_len c + 2 \<le> ac_evs_maxlen c" using Suc.prems(2,3) by simp_all
  note x = Suc.prems(4)[OF order_refl i(1)]
  from upd_ps_exiting[OF Suc.prems(1) i(1) _ _ _ Suc.prems(5), of fds "es n"] x obtain d where
    d: "upd_ps (es n) fds c i = Inr (True, d)" "\<forall>j < i. pr_st (ps_p (ac_ps d ! j)) = Proc_uninit" "ac_evs d = ac_evs c"
      "ac_evs_len d = ac_evs_len c"
    by blast
  from upd_ps_inv[OF Suc.prems(1) i conjunct1[OF conjunct2[OF x]], of "es n"] d(1) have f: "ctx_inv d" "turn_frame i True c d"
    by simp_all
  have "\<exists>f. update_loop es fds i n d = Inr f \<and> ctx_inv f \<and> ac_evs f = ac_evs d \<and> ac_evs_len f = ac_evs_len d \<and>
     ac_is_stop_req f = ac_is_stop_req d \<and> (\<forall>x \<in> set (ac_ps f). pr_st (ps_p x) = Proc_uninit)"
    using Suc.prems(2,3,4) d f(2) by (intro Suc.IH f(1)) (auto simp: turn_frame_def)
  with d f(2) show ?case by (auto simp: turn_frame_def)
qed

lemma stop_loop_ok: "\<forall>x \<in> set xs. pr_st (ps_p x) = Proc_uninit \<Longrightarrow> fst (stop_loop xs afs_ok c) = afs_ok"
  by (induction xs arbitrary: c) (auto simp: proc_stop_def)

text \<open>
  C21: A stop comes to its end: when every worker was told to exit and its process has answered
  or is gone, one update reports \<^verbatim>\<open>afs_ev_stop\<close> and nothing else, and \<^verbatim>\<open>afs_stop\<close> then succeeds.
\<close>

theorem afs_stop_completes:
  assumes "ctx_inv c" "ac_is_stop_req c" "ac_ps c \<noteq> []" "polls_true c fds"
    "\<forall>x \<in> set (ac_ps c). exiting x \<and> (readable (proc_polled (ps_p x) fds) \<or> died (proc_polled (ps_p x) fds))"
  shows "\<exists>d evs. afs_update es c fds = Inr d \<and> afs_evs d = (Some evs, 1) \<and> ev_ty (evs ! 0) = afs_ev_stop \<and> ev_fd (evs ! 0) = -1 \<and>
    fst (afs_stop d) = afs_ok \<and> ac_ps (snd (afs_stop d)) = []"
proof -
  let ?c = "c\<lparr>ac_evs_len := 0\<rparr>" and ?n = "length (ac_ps c)"
  have c: "ctx_inv ?c" "?n * 3 \<le> ac_evs_maxlen c" "ac_evs c \<noteq> None"
    using assms(1,3) by (cases "ac_evs c"; auto simp: ctx_inv_def room_for_def proc_evs_maxlen_def)+
  have "\<exists>d. update_loop es fds 0 ?n ?c = Inr d \<and> ctx_inv d \<and> ac_evs d = ac_evs ?c \<and> ac_evs_len d = ac_evs_len ?c \<and>
     ac_is_stop_req d = ac_is_stop_req ?c \<and> (\<forall>x \<in> set (ac_ps d). pr_st (ps_p x) = Proc_uninit)"
    using assms(4,5) c(2) by (intro update_loop_exiting c(1)) (auto simp: polls_true_def)
  then obtain d where d: "update_loop es fds 0 ?n ?c = Inr d" "ctx_inv d" "ac_evs d = ac_evs c" "ac_evs_len d = 0"
    "ac_is_stop_req d" "\<forall>x \<in> set (ac_ps d). pr_st (ps_p x) = Proc_uninit"
    using assms(2) by auto
  have "ac_evs_len d < ac_evs_maxlen d"
    using d(3,4) ctx_inv_evs[OF d(2)] ctx_inv_evs[OF assms(1)] c(2) assms(3) by (auto split: option.splits)
  then obtain evs where evs: "out_ty (-1) afs_ev_stop d =
      Inr (d\<lparr>ac_evs := Some (evs[0 := (evs ! 0)\<lparr>ev_fd := -1, ev_ty := afs_ev_stop\<rparr>]), ac_evs_len := 1\<rparr>)" "0 < length evs"
    using out_ev_eq[OF d(2), of "\<lambda>ev. ev\<lparr>ev_fd := -1, ev_ty := afs_ev_stop\<rparr>"] d(4) unfolding out_ty_def by auto
  let ?d = "d\<lparr>ac_evs := Some (evs[0 := (evs ! 0)\<lparr>ev_fd := -1, ev_ty := afs_ev_stop\<rparr>]), ac_evs_len := 1\<rparr>"
  have "afs_update es c fds = Inr ?d"
    using c(3) d evs(1) by (auto simp: afs_update_def Let_def)
  moreover have "fst (afs_stop ?d) = afs_ok" "ac_ps (snd (afs_stop ?d)) = []"
    using stop_loop_ok[OF d(6), of ?d] by (auto simp: afs_stop_def split: prod.splits)
  ultimately show ?thesis using evs(2) by (auto simp: afs_evs_def)
qed

definition demo_exiting :: ps where
  "demo_exiting = demo_ps\<lparr>ps_p := demo_proc\<lparr>pr_st := Proc_busy, pr_is_stop_req := True,
     pr_shared := Some (demo_shared\<lparr>sh_cmd := Cmd_exit, sh_st := Child_not_started\<rparr>),
     pr_child := Some ((demo_child 5)\<lparr>ch_pc := Pc_exited 0, ch_out := 1\<rparr>)\<rparr>\<rparr>"

theorem afs_stop_completes_witness:
  "\<exists>d evs. afs_update (\<lambda>_. demo_update) ((demo_ctx [demo_exiting])\<lparr>ac_is_stop_req := True\<rparr>) (demo_fds [4]) = Inr d \<and>
     afs_evs d = (Some evs, 1) \<and> ev_ty (evs ! 0) = afs_ev_stop \<and> ev_fd (evs ! 0) = -1 \<and>
     fst (afs_stop d) = afs_ok \<and> ac_ps (snd (afs_stop d)) = []"
proof (rule afs_stop_completes)
  have x: "proc_inv (ps_p demo_exiting)"
    by (simp add: demo_exiting_def demo_defs proc_inv_def proc_mem_def proto_defs proc_evs_maxlen_def)
  then show "ctx_inv ((demo_ctx [demo_exiting])\<lparr>ac_is_stop_req := True\<rparr>)"
    by (simp add: ctx_inv_def ps_inv_def demo_ctx_def fds_distinct_def room_for_def proc_evs_maxlen_def)
      (simp add: demo_exiting_def demo_ps_def)
  from x show "\<forall>x \<in> set (ac_ps ((demo_ctx [demo_exiting])\<lparr>ac_is_stop_req := True\<rparr>)). exiting x \<and>
      (readable (proc_polled (ps_p x) (demo_fds [4])) \<or> died (proc_polled (ps_p x) (demo_fds [4])))"
    by (simp add: exiting_def demo_exiting_def proc_polled_def demo_defs)
qed (simp_all add: demo_exiting_def polls_true_def poll_true_def proc_polled_def demo_defs)

section \<open>The wrong worker freed\<close>

definition demo_spawn :: "int \<Rightarrow> int \<Rightarrow> alloc_env" where
  "demo_spawn fd pid = demo_alloc\<lparr>ae_spawn := (ae_spawn demo_alloc)\<lparr>se_socketpair := Some (fd, fd + 1), se_fork := Some pid\<rparr>\<rparr>"

definition demo_serve :: "nat \<Rightarrow> afs_op list" where
  "demo_serve i = [Do_child i Io_done (demo_env []), Do_child i Io_done (demo_env []), Do_child i Io_done (demo_env [])]"

text \<open>
  Two directories are made by two workers, both of which are free afterwards; a stop is
  requested, and only the second process has exited when the update runs.
\<close>

definition demo_race :: "afs_op list" where
  "demo_race = [Do_mkdir (demo_spawn 4 7) (0, True) ''a'', Do_mkdir (demo_spawn 8 9) (0, True) ''b'',
     Do_child 0 Io_done (demo_env []), Do_child 1 Io_done (demo_env [])] @ demo_serve 0 @ demo_serve 1 @
     [Do_update (\<lambda>_. demo_update) (demo_fds [4, 8])] @ demo_serve 0 @ demo_serve 1 @
     [Do_update (\<lambda>_. demo_update) (demo_fds [4, 8]), Do_stop_prep (\<lambda>_. (0, True))] @ demo_serve 1"

lemmas race_defs = demo_race_def demo_serve_def demo_spawn_def run_defs afs_mkdir_def buf_put_def overwrite_def proc_child_mkdir_def
  proc_mkdir_def proc_send_cmd_def afs_stop_prep_def proc_stop_prep_def proc_update_busy_def proc_update_free_def proc_fill_ev_def
  out_ev_def out_ty_def c_int_def int_min_def int_max_def Let_def

lemma demo_race_ok: "run_ok afs_exec afs_op_ok demo_race (afs_init (demo_ctx []))"
  by (simp add: race_defs alloc_env_ok_def spawn_env_ok_def child_env_ok_def polls_true_def proc_polled_def poll_true_def)


text \<open>
  A stop requested before any file was touched takes the program down: the update that
  is to report it follows the null pointer \<^verbatim>\<open>c->evs\<close>.
\<close>

theorem afs_stop_unused:
  "\<exists>d. afs_stop_prep ios (afs_init c) = Inr (afs_ok, d) \<and> afs_update es d fds = Inl Null_deref"
  using afs_update_null[of "(afs_init c)\<lparr>ac_is_stop_req := True\<rparr>" es fds] by (simp add: afs_stop_prep_def afs_init_def)

end
