(* ===== verification/Spec2Isabelle.thy ===== *)
theory Spec2Isabelle
  imports Prelude Wdb Rdb Db Wjson Rjson Json Curl Curl_Splay Curl_Timers Curl_Socket Hpack_Int Hpack_Ring Https Afs_Child Afs_Proc Afs Afs_Inv Afs_Update Afs_System Afs_Requests Afs_Events
    Afs_Files Afs_Stop
begin

text \<open>
  \<^bold>\<open>Verification of sociobot, the C program under \<^verbatim>\<open>src/src\<close>, and of parts of the libraries it is built with.\<close>

  \<^bold>\<open>The program.\<close> Sociobot is a Telegram bot in the making. What exists of it is a set of modules
  for a single-threaded program around one \<^verbatim>\<open>poll\<close> loop: \<^verbatim>\<open>wdb.c\<close> and \<^verbatim>\<open>rdb.c\<close> write and read
  the text format of its database, \<^verbatim>\<open>wjson.c\<close> and \<^verbatim>\<open>rjson.c\<close> write and read JSON, \<^verbatim>\<open>https.c\<close>
  sends one request at a time through libcurl, and \<^verbatim>\<open>afs.c\<close> does file operations in worker
  processes, because regular files cannot be polled. The writers and readers work on buffers of
  their callers, one call per value and one call per character. The two event-driven
  modules have the same shape: requests, a list of descriptors to poll, an update that is given
  the answer of \<^verbatim>\<open>poll\<close>, a list of events, and a stop in two halves. The module that is to
  join them, \<^verbatim>\<open>tgdb.c\<close> (messages kept in files: text by \<^verbatim>\<open>wdb\<close>, stored by \<^verbatim>\<open>afs\<close>), is a draft. The libraries are in the repository
  as source (\<^verbatim>\<open>src/lib\<close>): libcurl, whose timers decide when \<^verbatim>\<open>https.c\<close> wakes up, and under it nghttp2 for HTTP/2,
  BearSSL, c-ares and musl.

  \<^bold>\<open>How C is modelled.\<close> A call is a function from the state it is given to an outcome (\<open>Prelude\<close>): the
  result with the new state, or the fault that ends it: a panic (\<^verbatim>\<open>panic.c\<close>), an access
  outside an array, a read of a union member that is not the active one, a signed overflow, a null
  pointer. Structs are records, enums datatypes, buffers strings of fixed length, \<^verbatim>\<open>char\<close> is
  signed, \<^verbatim>\<open>int\<close> is an integer with the overflow written out, linked lists are lists and a
  pointer into one is a position, null is \<open>None\<close>. A union is a datatype whose constructor is the
  active member. The floating point operations are a parameter \<open>D\<close>; what is needed of it, exactness
  on integers of 53 bits, is the hypothesis \<open>exact_ints D\<close>. What the kernel, the allocator and
  libcurl answer are arguments of the operations that ask them.

  \<^bold>\<open>Theories.\<close>
    \<^item> \<open>Prelude\<close>: outcomes, characters, buffers, decimal printing, \<^verbatim>\<open>struct pollfd\<close>; the locale
      \<open>out_buffer\<close> (a text that grows in a buffer, with overflow reported) and the locale
      \<open>step_invariant\<close> (operations that keep an invariant up to a set of faults, and their runs).
    \<^item> \<open>Wdb\<close> (\<^verbatim>\<open>wdb.c\<close>): each call appends exactly its rendering or reports an error and leaves the
      text alone; sequences of calls likewise. Interprets \<open>out_buffer\<close>.
    \<^item> \<open>Rdb\<close> (\<^verbatim>\<open>rdb.c\<close>): the invariant of the reader, kept by every character; the loop of the demo
      ends on every terminated text; what it does on each kind of value.
    \<^item> \<open>Db\<close>: reading back what was written gives what was passed to the writer.
    \<^item> \<open>Wjson\<close> (\<^verbatim>\<open>wjson.c\<close>): an abstract writer, and that each call refines its step. Interprets \<open>out_buffer\<close>.
    \<^item> \<open>Rjson\<close> (\<^verbatim>\<open>rjson.c\<close>): the invariant of the reader and its runs; inputs it treats wrongly.
    \<^item> \<open>Json\<close>: the round trip for trees of the shapes both files agree on.
    \<^item> \<open>Curl\<close> (\<^verbatim>\<open>src/lib/curl/lib/setopt.c\<close>, \<^verbatim>\<open>slist.c\<close>): the options and header lists that \<^verbatim>\<open>https.c\<close>
      sets, as libcurl stores them.
    \<^item> \<open>Curl_Splay\<close> (\<^verbatim>\<open>splay.c\<close>): the splay tree of the timers; the locale \<open>time_queue\<close> (a queue sorted by time,
      first in first out among equal times), interpreted by it.
    \<^item> \<open>Curl_Timers\<close> (\<^verbatim>\<open>multi.c\<close>, \<^verbatim>\<open>timeval.c\<close>): setting, clearing and expiring the timeouts of the transfers and the timer
      callback; \<open>timers_reach\<close> are the states these lead to.
    \<^item> \<open>Curl_Socket\<close> (\<^verbatim>\<open>multi.c\<close>): \<^verbatim>\<open>curl_multi_socket_action\<close>, the call by which \<^verbatim>\<open>https.c\<close> reports sockets and its timer.
    \<^item> \<open>Hpack_Int\<close> (\<^verbatim>\<open>src/lib/nghttp2/lib/nghttp2_hd.c\<close>): the integers of the header compression, written and read, also in
      pieces.
    \<^item> \<open>Hpack_Ring\<close> (the same file): the ring buffer of its dynamic table; the locale \<open>front_queue\<close>, interpreted by it.
    \<^item> \<open>Https\<close> (\<^verbatim>\<open>https.c\<close>): states, events, the table of descriptors behind libcurl's callbacks
      (locale \<open>fd_table\<close>), the update loop, requests, stopping; \<open>https_exec\<close> and \<open>https_reach\<close> are the
      operations in any order. Interprets \<open>step_invariant\<close>.
    \<^item> \<open>Afs_Child\<close> (\<^verbatim>\<open>proc_child_\<close> functions of \<^verbatim>\<open>afs.c\<close>): the worker process, its file operations as lists of
      system calls, and its loop as one step per blocking point.
    \<^item> \<open>Afs_Proc\<close> (\<^verbatim>\<open>proc_\<close> functions): the parent's side of a worker, and the protocol \<open>proto\<close> that
      relates it to the process behind the socket and the shared memory.
    \<^item> \<open>Afs\<close> (\<^verbatim>\<open>ps_\<close> and \<^verbatim>\<open>afs_\<close> functions): the list of workers and the interface.
    \<^item> \<open>Afs_Inv\<close>, \<open>Afs_Update\<close>: the invariant \<open>ctx_inv\<close>, kept by every operation.
    \<^item> \<open>Afs_System\<close>: operations of the user and steps of the processes in any order, as \<open>afs_exec\<close>.
      Interprets \<open>step_invariant\<close>.
    \<^item> \<open>Afs_Requests\<close>, \<open>Afs_Events\<close>, \<open>Afs_Files\<close>, \<open>Afs_Stop\<close>: what becomes of a request, which
      events the user sees, a file written and read, how the module stops.
    \<^item> This theory: the database format and the file module together, libcurl's timers and \<^verbatim>\<open>https.c\<close> together.

  \<^bold>\<open>What is shown.\<close> Round trips of both formats; refinement of an abstract JSON writer; safety of all
  four parsers and printers and of every run of the two event-driven modules, up to the faults
  named in the statements; a request is answered, a write arrives whole and in order, success of a
  combined write means the data was synced; a stop comes to its end. For libcurl: the splay tree is a sorted
  queue, the loops over due timers end and serve each, and the client's wake-up is armed for the earliest of them.
  For nghttp2: integers are read back as written and decoded without wrap-around on every input, and the ring
  is a list. Some theorems
  state where the code does not do what it means to: a value lost to an unescaped backslash, a missing
  comma, a stop that never ends or leaves a process behind, and others.

  \<^bold>\<open>Loops, bounds, fuel.\<close> No definition takes fuel. Loops over characters and over lists are structural
  recursion. The two loops of libcurl that take timers from the queue until none is due, \<open>expire_loop\<close> and \<open>socket_loop\<close>,
  are partial functions; that they return is proved, for times below \<open>2 ^ 40\<close> seconds. The loops on machine words shrink
  the number. Rings have at most \<open>2 ^ 60\<close> slots, beyond which the product given to \<^verbatim>\<open>malloc\<close> may wrap. Loops around an interrupted system call (\<^verbatim>\<open>proc_notify_child_\<close>, \<^verbatim>\<open>waitpid\<close>) take the number
  of interruptions before the call ends. The write loop of a worker takes the list of the kernel's
  answers and is \<open>None\<close> when they run out; that it ends once they add up to the length is proved. The
  loop of a worker is a step function, so it may run for ever. Array sizes and depth limits are
  those of the source: 24 levels of JSON, 3 events per worker, sizes for x86-64 Linux with pages of
  4096 bytes.

  \<^bold>\<open>Not modelled.\<close> \<^verbatim>\<open>tgdb.c\<close> does not compile: most of its functions are declared only. \<^verbatim>\<open>tg.c\<close> has
  three stubs that return 42, \<^verbatim>\<open>main.c\<close> returns 0, \<^verbatim>\<open>ev.c\<close> has two accessors nobody calls. The \<^verbatim>\<open>main\<close>
  functions for trying out a module are modelled where they are a loop over the module's
  input (\<^verbatim>\<open>rdb.c\<close>, \<^verbatim>\<open>rjson.c\<close>), else left out. Of \<^verbatim>\<open>fail.h\<close> the message is kept, not file, line and \<^verbatim>\<open>errno\<close>;
  the text a panic prints is left out. Of libcurl the transfers
  themselves are left out: what serving one does is an argument. Of nghttp2 the header tables, Huffman codes, frames and
  sessions are left out. BearSSL and c-ares are reached through libcurl alone, and musl is the C library.
  The contents of files are not part of the state: a worker's system calls are recorded with their data.
\<close>

section \<open>The database in a file\<close>

text \<open>
  C3: A database that is stored in a file and loaded from it is the same. The file is open twice,
  on two workers, each with an offset of 0. The entries are written into the buffer of the first
  by \<^verbatim>\<open>wdb\<close> and sent to the file by \<^verbatim>\<open>afs_write\<close>; the second is read by \<^verbatim>\<open>afs_readall\<close>. After the write the
  file holds the text of the entries, then what it held beyond that before, and \<^verbatim>\<open>rdb\<close> run over
  the data of the event reports exactly the keys and values that were given to the writer.
  The kernel keeps contents and offsets as \<open>file_after\<close> and \<open>file_read\<close> say.
\<close>

theorem db_stored:
  assumes "exact_ints D" "list_all (db_entry_ok (length sbuf)) es" "sbuf \<noteq> []"
    "length (db_text es) \<le> length b" "length (db_text es) \<le> length b'"
    "file_ready c fd i fds s b ch" "file_ready c fd' j fds' s' b' ch'" "i \<noteq> j"
    "writes_whole (ce_writes e) (length (db_text es))" "child_env_ok e b"
    "\<forall>f. ce_read (e' f) = Some (file_read (length b') f)"
  shows "\<exists>w w' d evs chw calls txt d' evs' data.
     wdb_init b (length b) = Inr w \<and> wdb_execs D w (db_calls es) = Inr (wdb_ok, w') \<and>
     run_ops afs_exec (Do_fill i (wdb_out_str w') # Do_write (k, True) fd (wd_len w') # serve i e @ [Do_update us fds]) c = Inr d \<and>
     afs_evs d = (Some evs, 1) \<and> ev_ty (evs ! 0) = afs_ev_write \<and> ev_fd (evs ! 0) = fd \<and>
     pr_child (ps_p (ac_ps d ! i)) = Some chw \<and> ch_calls chw = ch_calls ch @ calls \<and>
     file_after (ch_fd ch) calls (old, 0) = (txt, length (db_text es)) \<and> txt = db_text es @ drop (length (db_text es)) old \<and>
     run_ops afs_exec (Do_readall (k', True) fd' # serve j (e' (txt, 0)) @ [Do_update us' fds']) d = Inr d' \<and>
     afs_evs d' = (Some evs', 1) \<and> ev_ty (evs' ! 0) = afs_ev_readall \<and> ev_fd (evs' ! 0) = fd' \<and>
     afs_ev_readall_data (evs' ! 0) = Some data \<and>
     rdb_run D (rdb_init sbuf (length sbuf)) (take (afs_ev_readall_len (evs' ! 0)) data) = Inr (True, db_toks D es)"
proof -
  let ?t = "db_text es"
  let ?txt = "?t @ drop (length ?t) old"
  obtain w w' where w: "wdb_init b (length b) = Inr w" "wdb_execs D w (db_calls es) = Inr (wdb_ok, w')" "wdb_text w' = ?t"
    "length (wd_out w') = length b" "wd_len w' = length ?t"
    by (rule db_written[OF assms(2,4)])
  from file_fill[OF assms(6), of "wd_out w'"] w(4) obtain f where
    f: "run_ops afs_exec [Do_fill i (wd_out w')] c = Inr f" "file_ready f fd i fds s (wd_out w') ch" "others_same i c f"
    by blast
  have len: "wd_len w' \<le> length (wd_out w')" "writes_whole (ce_writes e) (wd_len w')" "child_env_ok e (wd_out w')"
    using w(4,5) assms(4,9,10) by (simp_all add: child_env_ok_def split: option.splits)
  from file_write[OF f(2) len, of k us] obtain d evs t chw calls where
    d: "run_ops afs_exec (Do_write (k, True) fd (wd_len w') # serve i e @ [Do_update us fds]) f = Inr d"
      "afs_evs d = (Some evs, 1)" "ev_ty (evs ! 0) = afs_ev_write" "ev_fd (evs ! 0) = fd" "ch_calls chw = ch_calls ch @ calls"
      "only_writes (ch_fd ch) calls" "sys_written (ch_fd ch) calls = take (wd_len w') (wd_out w')"
      "file_ready d fd i fds t (wd_out w') chw" "others_same i f d"
    by blast
  have stored: "file_after (ch_fd ch) calls (old, 0) = (?txt, length ?t)"
  proof -
    have "sys_written (ch_fd ch) calls = ?t" using d(7) w(3) by (simp add: wdb_text_def)
    with file_after_writes[OF d(6), of 0 old] show ?thesis by (simp only: list.size take0 append.simps le0 add_0)
  qed
  have r: "file_ready d fd' j fds' s' b' ch'"
    using file_ready_other[OF assms(7) others_same_trans[OF f(3) d(9)] d(8)] assms(8) by simp
  have "ce_read (e' (?txt, 0)) = Some (take (length b') ?txt)" "length (take (length b') ?txt) \<le> length b'"
    using assms(11) by (simp_all add: file_read_def)
  from file_readall[OF r this, of k' us'] obtain d' evs' where
    d': "run_ops afs_exec (Do_readall (k', True) fd' # serve j (e' (?txt, 0)) @ [Do_update us' fds']) d = Inr d'"
      "afs_evs d' = (Some evs', 1)" "ev_ty (evs' ! 0) = afs_ev_readall" "ev_fd (evs' ! 0) = fd'"
      "afs_ev_readall_len (evs' ! 0) = length (take (length b') ?txt)"
      "afs_ev_readall_data (evs' ! 0) = Some (overwrite b' 0 (take (length b') ?txt))"
    by blast
  have "take (length (take (length b') ?txt)) (overwrite b' 0 (take (length b') ?txt)) = ?t @ take (length b' - length ?t) (drop (length ?t) old)"
    using take_overwrite[of 0 "take (length b') ?txt" b'] assms(5) by simp
  with rdb_run_rest[OF db_loaded[OF assms(1-3)]] d'(5)
  have "rdb_run D (rdb_init sbuf (length sbuf)) (take (afs_ev_readall_len (evs' ! 0)) (overwrite b' 0 (take (length b') ?txt))) =
      Inr (True, db_toks D es)" by simp
  moreover have "run_ops afs_exec (Do_fill i (wdb_out_str w') # Do_write (k, True) fd (wd_len w') # serve i e @ [Do_update us fds]) c = Inr d"
    using f(1) d(1) by (simp add: wdb_out_str_def)
  moreover have "pr_child (ps_p (ac_ps d ! i)) = Some chw" using d(8) by (simp add: file_ready_def ready_worker_def)
  ultimately show ?thesis using w(1,2) d(2-5) d'(1-4,6) stored by blast
qed

text \<open>The file of \<open>demo_file\<close> is open a second time, on a worker with its own buffer.\<close>

definition demo_reader :: "string \<Rightarrow> ps" where
  "demo_reader b = demo_quiet\<lparr>ps_p := (ps_p demo_quiet)\<lparr>pr_rw_buf := Some b, pr_rw_buf_len := length b\<rparr>\<rparr>"

lemma demo_two_ready:
  "file_ready (demo_ctx [demo_reader a, demo_file b]) 0 1 (demo_fds [4]) demo_shared b (demo_child 5)"
  "file_ready (demo_ctx [demo_reader a, demo_file b]) 1 0 (demo_fds [6]) demo_shared a (demo_child 5)"
proof -
  have p: "proc_inv (ps_p (demo_reader a))" "proc_inv (ps_p (demo_file b))" "ps_fd (demo_reader a) = 1" "ps_fd (demo_file b) = 0"
    by (simp_all add: demo_reader_def demo_quiet_def demo_file_def demo_defs proc_inv_def proc_mem_def proc_evs_maxlen_def idle_def)
  then have c: "ctx_inv (demo_ctx [demo_reader a, demo_file b])"
    by (simp add: ctx_inv_def ps_inv_def fds_distinct_def room_for_def demo_ctx_def proc_evs_maxlen_def)
  have r: "ready_worker (ps_p (demo_file b)) demo_shared b (demo_child 5)" "ready_worker (ps_p (demo_reader a)) demo_shared a (demo_child 5)"
    using p by (simp_all add: ready_worker_def demo_reader_def demo_quiet_def demo_file_def demo_ps_def demo_proc_def demo_child_def)
  show "file_ready (demo_ctx [demo_reader a, demo_file b]) 0 1 (demo_fds [4]) demo_shared b (demo_child 5)"
    "file_ready (demo_ctx [demo_reader a, demo_file b]) 1 0 (demo_fds [6]) demo_shared a (demo_child 5)"
    using c r by (simp_all add: file_ready_def ps_get_def quiet_def proc_polled_def demo_reader_def demo_quiet_def demo_file_def demo_defs less_Suc_eq)
qed

theorem db_stored_witness:
  "\<exists>w w' d evs chw calls d' evs' data. wdb_init (replicate 20 NUL) 20 = Inr w \<and>
     wdb_execs int_double w (db_calls [(''k'', [Wbool True, Wint 42])]) = Inr (wdb_ok, w') \<and>
     run_ops afs_exec (Do_fill 1 (wdb_out_str w') # Do_write (0, True) 0 (wd_len w') # serve 1 (demo_env [Wrote 5, Write_eintr, Wrote 8]) @
       [Do_update (\<lambda>_. demo_update) (demo_fds [4])]) (demo_ctx [demo_reader (replicate 15 NUL), demo_file (replicate 20 NUL)]) = Inr d \<and>
     afs_evs d = (Some evs, 1) \<and> ev_ty (evs ! 0) = afs_ev_write \<and> ev_fd (evs ! 0) = 0 \<and>
     pr_child (ps_p (ac_ps d ! 1)) = Some chw \<and> ch_calls chw = calls \<and>
     file_after 5 calls (''an old and longer text'', 0) = (''k: true, 42'' @ [NL, NUL] @ ''nger text'', length (''k: true, 42'' @ [NL, NUL])) \<and>
     run_ops afs_exec (Do_readall (0, True) 1 # serve 0 ((demo_env [])\<lparr>ce_read := Some (file_read 15 (''k: true, 42'' @ [NL, NUL] @ ''nger text'', 0))\<rparr>) @
       [Do_update (\<lambda>_. demo_update) (demo_fds [6])]) d = Inr d' \<and>
     afs_evs d' = (Some evs', 1) \<and> ev_ty (evs' ! 0) = afs_ev_readall \<and> ev_fd (evs' ! 0) = 1 \<and>
     afs_ev_readall_data (evs' ! 0) = Some data \<and>
     rdb_run int_double (rdb_init (replicate 8 NUL) 8) (take (afs_ev_readall_len (evs' ! 0)) data) =
       Inr (True, [Tok_key ''k'', Tok_bool True, Tok_num 42])"
proof -
  let ?es = "[(''k'', [Wbool True, Wint 42])] :: int db_entry list" and ?e = "demo_env [Wrote 5, Write_eintr, Wrote 8]"
  have txt_eq: "db_text ?es = ''k: true, 42'' @ [NL, NUL]" by code_simp
  have "db_toks int_double ?es = [Tok_key ''k'', Tok_bool True, Tok_num 42]" by code_simp
  moreover have "list_all (db_entry_ok (length (replicate 8 NUL))) ?es" by code_simp
  moreover have "writes_whole (ce_writes ?e) (length (db_text ?es))" unfolding txt_eq by (simp add: writes_whole_def demo_env_def)
  moreover have "child_env_ok ?e (replicate 20 NUL)" by (simp add: child_env_ok_def demo_env_def)
  ultimately show ?thesis
    using db_stored[OF exact_int_double, of "replicate 8 NUL" ?es "replicate 20 NUL" "replicate 15 NUL" _ _ _ _ _ _ _ _ _ _ _ ?e
        "\<lambda>f. (demo_env [])\<lparr>ce_read := Some (file_read (length (replicate 15 NUL)) f)\<rparr>" 0 "\<lambda>_. demo_update" "''an old and longer text''" 0 "\<lambda>_. demo_update",
        OF _ _ _ _ demo_two_ready[of "replicate 15 NUL"]] unfolding txt_eq
    by (simp add: demo_child_def del: run_ops.simps)
qed

section \<open>The timer of the HTTPS client\<close>

text \<open>The value the timer is set to, for milliseconds that one may wait for the time \<open>t\<close>.\<close>

definition armed_for :: "curltime \<Rightarrow> curltime \<Rightarrow> int \<Rightarrow> int \<Rightarrow> bool" where
  "armed_for now t sec nsec \<longleftrightarrow> 0 \<le> sec \<and> 0 \<le> nsec \<and> nsec < 1000000000 \<and>
     (let ns = sec * 1000000000 + nsec in
      if t \<le> now then ns = 1 else usecs t * 1000 \<le> usecs now * 1000 + ns \<and> usecs now * 1000 + ns < usecs t * 1000 + 2000000)"

lemma timer_value_armed:
  assumes "0 \<le> ms" "wait_for now t ms" "time_ok now" "time_ok t"
  shows "\<exists>sec nsec. hs_timer_value ms = (sec, nsec) \<and> armed_for now t sec nsec"
proof (cases "t \<le> now")
  case True
  then show ?thesis using assms(2) by (simp add: wait_for_def hs_timer_value_def armed_for_def)
next
  case False
  then have "usecs now < usecs t" using usecs_le[OF assms(4,3)] by simp
  then have "0 < ms" using assms(2) False by (simp add: wait_for_def)
  moreover have "ms div 1000 * 1000000000 + ms mod 1000 * 1000 * 1000 = ms * 1000000" by presburger
  moreover have "0 \<le> ms mod 1000" "ms mod 1000 < 1000" by simp_all
  ultimately show ?thesis using assms(2) False by (simp add: hs_timer_value_def wait_for_def armed_for_def Let_def)
qed

text \<open>
  C10: The wake-up of the HTTPS client is not lost. When its timer has fired and it calls
  \<^verbatim>\<open>curl_multi_socket_action\<close> with \<^verbatim>\<open>CURL_SOCKET_TIMEOUT\<close>, the call returns, if from some turn on the transfers
  it serves set no timeout that comes due while it lasts. If it succeeds and libcurl still has timers, then \<^verbatim>\<open>timer_cb_\<close> has been
  called exactly once and has armed the \<^verbatim>\<open>timerfd\<close>: with one nanosecond if the earliest timer is
  over already, and otherwise so that it fires not before that time and less than two
  milliseconds after it, counted from the clock libcurl read. With no timer left it is not called.
\<close>

theorem timer_armed:
  assumes "timers_reach cb m" "env_ok env" "settles N (se_now env) (se_run env)" "mt_timer_cb m" "\<not> mt_dead m"
  shows "\<exists>r ds calls m'. curl_multi_socket_action env False sockhash CURL_SOCKET_TIMEOUT m = Some (r, ds, calls, m') \<and>
    (r = CURLM_OK \<longrightarrow> (if queue (mt_timetree m') = [] then calls = []
      else \<exists>ms sec nsec. calls = [ms] \<and> hm_timer (snd (hs_timer_cb h ms True)) = (sec, nsec) \<and>
        armed_for (se_update env) (earliest m') sec nsec))"
proof -
  obtain r ds calls m' where a: "curl_multi_socket_action env False sockhash CURL_SOCKET_TIMEOUT m = Some (r, ds, calls, m')"
    and told: "r = CURLM_OK \<longrightarrow> (if queue (mt_timetree m') = [] then calls = []
      else \<exists>ms. calls = [ms] \<and> 0 \<le> ms \<and> wait_for (se_update env) (earliest m') ms \<and> time_ok (earliest m'))"
    using timeout_told[OF assms] by blast
  have h: "hm_timer (snd (hs_timer_cb h ms True)) = hs_timer_value ms" for ms by (simp add: hs_timer_cb_def Let_def)
  have "time_ok (se_update env)" using assms(2) by (simp add: env_ok_def)
  with told timer_value_armed have "if queue (mt_timetree m') = [] then calls = []
      else \<exists>ms sec nsec. calls = [ms] \<and> hm_timer (snd (hs_timer_cb h ms True)) = (sec, nsec) \<and>
        armed_for (se_update env) (earliest m') sec nsec" if "r = CURLM_OK"
    using that unfolding h by (cases "queue (mt_timetree m') = []") (simp, simp, blast)
  with a show ?thesis by blast
qed

lemma timeout_example:
  "map_option (\<lambda>(r, ds, calls, m'). (r, ds, calls, earliest m', queue (mt_timetree m') \<noteq> []))
     (curl_multi_socket_action env_example False sockets_example CURL_SOCKET_TIMEOUT timers_example) =
   Some (CURLM_OK, [1, 1, 1], [200], Curltime 10 300000, True)"
  by code_simp

theorem timer_armed_witness:
  "\<exists>m' sec nsec. curl_multi_socket_action env_example False sockets_example CURL_SOCKET_TIMEOUT timers_example = Some (CURLM_OK, [1, 1, 1], [200], m') \<and>
     hm_timer (snd (hs_timer_cb hs_zero 200 True)) = (sec, nsec) \<and> earliest m' = Curltime 10 300000 \<and>
     10300000000 \<le> 10100400000 + (sec * 1000000000 + nsec) \<and> 10100400000 + (sec * 1000000000 + nsec) < 10302000000"
proof -
  obtain r ds calls m' where a: "curl_multi_socket_action env_example False sockets_example CURL_SOCKET_TIMEOUT timers_example = Some (r, ds, calls, m')"
    "r = CURLM_OK" "ds = [1, 1, 1]" "calls = [200]" "earliest m' = Curltime 10 300000" "queue (mt_timetree m') \<noteq> []"
    using timeout_example by auto
  have m: "mt_timer_cb timers_example" "\<not> mt_dead timers_example" by code_simp+
  have s: "settles 3 (se_now env_example) (se_run env_example)" using env_example_settles[of 0] by (simp add: env_example_def)
  have "\<not> Curltime 10 300000 \<le> se_update env_example" "usecs (se_update env_example) = 10100400" "usecs (Curltime 10 300000) = 10300000" by code_simp+
  then show ?thesis
    using timer_armed[OF reach_example env_example_ok s m, of sockets_example hs_zero] a by (simp add: armed_for_def Let_def) blast
qed

end
